(* ===== verification/Prelude.thy ===== *)
theory Prelude
  imports Main "HOL-Library.Word"
begin

text \<open>
  Shared vocabulary of the development: the machine integers of the sources, the fact
  collections, and generic lemmas on lists, options and words.
\<close>

unbundle bit_operations_syntax

section \<open>Machine integers and addresses\<close>

type_synonym u8 = "8 word"
type_synonym u16 = "16 word"
type_synonym u32 = "32 word"

text \<open>Pointers are 32-bit addresses; \<open>NULL\<close> is address zero.\<close>

type_synonym addr = "32 word"

abbreviation NULL :: addr where
  "NULL \<equiv> 0"

section \<open>Fact collections\<close>

text \<open>
  \<open>word_nat\<close> turns masks and shifts into \<open>mod\<close> and \<open>div\<close> on \<open>nat\<close>;
  \<open>frame\<close> collects facts that an operation leaves a part of the state alone;
  \<open>invar_intros\<close> collects facts that an operation keeps an invariant.
\<close>

named_theorems word_nat
named_theorems frame
named_theorems invar_intros

section \<open>Words\<close>

lemma unat_and_mask [word_nat]: "unat (x AND mask n) = unat x mod 2 ^ n"
  for x :: "'a::len word"
proof -
  have "unat (x AND mask n) = take_bit n (unat x)"
    by (simp only: unsigned_take_bit_eq flip: take_bit_eq_mask)
  then show ?thesis by (simp only: take_bit_eq_mod)
qed

lemma unat_drop_bit_div [word_nat]: "unat (drop_bit n x) = unat x div 2 ^ n"
  for x :: "'a::len word"
proof -
  have "unat (drop_bit n x) = drop_bit n (unat x)"
    by (simp only: unat_drop_bit_eq)
  then show ?thesis by (simp only: drop_bit_eq_div)
qed

lemma unat_and_numeral:
  fixes x :: "'a::len word"
  assumes "numeral k + 1 = (2::nat) ^ n"
  shows "unat (x AND numeral k) = unat x mod 2 ^ n"
proof -
  have "(numeral k :: int) + 1 = 2 ^ n"
    using arg_cong[OF assms, of int] by (simp only: of_nat_add of_nat_numeral of_nat_1 of_nat_power)
  then have "(numeral k :: int) = mask n"
    by (simp only: mask_eq_exp_minus_1)
  then have "(numeral k :: 'a word) = mask n"
    by (metis of_int_numeral of_int_mask_eq)
  then show ?thesis by (simp only: unat_and_mask)
qed

lemma unat_less_power: "LENGTH('a::len) = n \<Longrightarrow> unat (x :: 'a word) < 2 ^ n"
  using unsigned_less[of x, where ?'a = nat] by simp

lemma unat_u8_less [simp]: "unat (x :: u8) < 256"
  using unat_less_power[where ?'a = 8 and n = 8, of x] by simp

lemma unat_u16_less [simp]: "unat (x :: u16) < 65536"
  using unat_less_power[where ?'a = 16 and n = 16, of x] by simp

lemma unat_u32_less [simp]: "unat (x :: u32) < 4294967296"
  using unat_less_power[where ?'a = 32 and n = 32, of x] by simp

lemma unat_of_nat_u16: "n < 65536 \<Longrightarrow> unat (of_nat n :: u16) = n"
  by (simp add: unat_of_nat)

lemma unat_of_nat_u32: "n < 4294967296 \<Longrightarrow> unat (of_nat n :: u32) = n"
  by (simp add: unat_of_nat)

lemma unat_of_nat_u8: "n < 256 \<Longrightarrow> unat (of_nat n :: u8) = n"
  by (simp add: unat_of_nat)

lemma unat_ucast_u32_u16: "unat (ucast (x :: u32) :: u16) = unat x mod 65536"
  by (simp add: unsigned_ucast_eq take_bit_eq_mod)

lemma unat_ucast_u16_u32: "unat (ucast (x :: u16) :: u32) = unat x"
proof -
  have "unat x < 2 ^ 32" by (rule less_trans[OF unat_u16_less]) simp
  then show ?thesis by (simp add: unsigned_ucast_eq take_bit_eq_mod)
qed

lemma word_less_succ: "n + 1 \<noteq> 0 \<Longrightarrow> i \<le> n \<Longrightarrow> i < n + 1" for i n :: "'a::len word"
  by unat_arith

section \<open>The option monad\<close>

lemma bind_SomeE:
  assumes "Option.bind m f = Some r"
  obtains x where "m = Some x" and "f x = Some r"
  using assms by (cases m) auto

section \<open>Lists updated by index\<close>

lemma fold_list_update_map:
  assumes "length xs = n"
  shows "fold (\<lambda>i ys. ys[i := f i]) [0..<n] xs = map f [0..<n]"
proof -
  have gen: "k \<le> length xs \<Longrightarrow>
      fold (\<lambda>i ys. ys[i := f i]) [0..<k] xs = map f [0..<k] @ drop k xs" for k
  proof (induction k)
    case 0
    then show ?case by simp
  next
    case (Suc k)
    then have "drop k xs = xs ! k # drop (Suc k) xs"
      by (simp add: Cons_nth_drop_Suc)
    with Suc show ?case by (simp add: list_update_append)
  qed
  show ?thesis using gen[of n] assms by simp
qed

end
