(* ===== verification/KProc.thy ===== *)
theory KProc
  imports Prelude "HOL-Library.Monad_Syntax"
begin

text \<open>
  The kernel's process table, \<open>so3/kernel/process.c\<close> with the types of
  \<open>so3/include/process.h\<close>: the process control block, the global list, the searches over
  it, creation and removal of a process, and the table of file descriptors.

  Pointers are addresses into partial maps; reading through a pointer that designates no
  object is the result \<open>None\<close>, as are \<open>kernel_panic\<close>, a failed \<open>BUG_ON\<close> or \<open>ASSERT\<close> and a
  write past the end of a fixed array: the kernel does not go on from there.
\<close>

section \<open>Types\<close>

datatype proc_state_t =
    PROC_STATE_NEW | PROC_STATE_READY | PROC_STATE_RUNNING | PROC_STATE_WAITING | PROC_STATE_ZOMBIE

text \<open>The two ptrace requests the file distinguishes, and all others.\<close>

datatype ptrace_request = PTRACE_NO_REQUEST | PTRACE_TRACEME | PTRACE_OTHER nat

definition PROC_THREAD_MAX :: nat where "PROC_THREAD_MAX = 32"
definition FD_MAX :: nat where "FD_MAX = 64"
definition PROC_NAME_LEN :: nat where "PROC_NAME_LEN = 80"

type_synonym frame = u32

record pcb =
  p_pid :: u32
  p_name :: string
  p_bin_image_entry :: u32
  p_stack_top :: u32
  p_stack_slotID :: "bool list"
  p_heap_base :: u32
  p_heap_pointer :: u32
  p_page_count :: u32
  p_page_list :: "frame list"
  p_pgtable :: addr
  p_exit_status :: u32
  p_parent :: addr
  p_main_thread :: addr
  p_threads :: "addr list"
  p_state :: proc_state_t
  p_fd_array :: "int list"
  p_ptrace_pending_req :: ptrace_request

text \<open>The fields of a thread (\<open>tcb_t\<close>) that \<open>process.c\<close> reads or writes.\<close>

record tcb =
  t_tid :: int
  t_name :: string
  t_prio :: u32
  t_priority :: u32
  t_pcb :: addr
  t_joinQueue :: "addr list"

datatype kmsg =
    RenicePriorityZero
  | ReniceDone u32 u32
  | ReniceNotFound u32
  | ForkNotMainThread
  | Fork2Logged string u32 u32
  | CannotFinishRoot
  | PsEmpty
  | PsMain u32 int u32 string
  | PsOther int u32 string
  | PsSeparator
  | ProcName string string
  | ProcLine u32 proc_state_t int string
  | ProcListHeader
  | PagesHeader u32
  | PageLine frame int
  | SyscallUnhandled nat
  | SettimeofdayUnsupported
  | Printk string

text \<open>
  The state of the kernel. \<open>k_procs\<close> is the list \<open>proc_list\<close>: its links are a field of the
  PCBs, which are linked where they are allocated and freed where they are unlinked, so the
  list holds each live PCB with its address. Then come the TCBs, the globals of
  \<open>process.c\<close> and \<open>syscalls.c\<close>, the running thread, the interrupt flag, the words of user memory the
  kernel writes, the page reference counts and the console. The parameter \<open>'m\<close> is the
  state of the memory manager (page tables, free frames, kernel heap).
\<close>

record 'm kstate =
  k_procs :: "(addr \<times> pcb) list"
  k_tcbs :: "addr \<rightharpoonup> tcb"
  k_pid_current :: u32
  k_root_process :: addr
  k_current :: addr
  k_irq_disabled :: bool
  k_errno_addr :: addr
  k_umem :: "addr \<Rightarrow> u32"
  k_refcount :: "frame \<Rightarrow> int"
  k_log :: "kmsg list"
  k_mm :: 'm

text \<open>
  What the kernel calls outside \<open>process.c\<close>. Constants of headers that are not in the
  repository, the allocator, the memory manager (each function over \<open>'m\<close>, so that by its
  type it touches nothing else), and the thread, file and signal layers (functions of the
  whole state).
\<close>

record 'm kenv =
  ke_HEAP_SIZE :: int
  ke_PAGE_SIZE :: u32
  ke_PAGE_SHIFT :: nat
  ke_THREAD_STACK_SIZE :: u32
  ke_ALIGN_UP :: "u32 \<Rightarrow> u32 \<Rightarrow> u32"
  ke_USER_SPACE_VADDR :: addr
  ke_root_proc_start :: addr
  ke_root_proc_size :: u32
  ke_STDIN :: nat
  ke_STDOUT :: nat
  ke_STDERR :: nat
  ke_ECHILD :: u32
  ke_ENOMEM :: u32
  ke_ESRCH :: u32
  ke_ENFILE :: u32
  ke_WNOHANG :: u32
  ke_args_base :: addr
  ke_malloc_pcb :: "'m kstate \<Rightarrow> addr"
  ke_malloc_node :: "'m \<Rightarrow> 'm option"
  ke_free_node :: "'m \<Rightarrow> 'm"
  ke_new_root_pgtable :: "'m \<Rightarrow> (addr \<times> 'm) option"
  ke_pgtable_copy_kernel_area :: "addr \<Rightarrow> 'm \<Rightarrow> 'm"
  ke_reset_root_pgtable :: "addr \<Rightarrow> bool \<Rightarrow> 'm \<Rightarrow> 'm option"
  ke_get_free_page :: "'m \<Rightarrow> frame \<times> 'm"
  ke_free_page :: "frame \<Rightarrow> 'm \<Rightarrow> 'm"
  ke_create_mapping :: "addr \<Rightarrow> addr \<Rightarrow> frame \<Rightarrow> u32 \<Rightarrow> bool \<Rightarrow> 'm \<Rightarrow> 'm option"
  ke_duplicate_user_space :: "addr \<Rightarrow> addr \<Rightarrow> 'm kstate \<Rightarrow> 'm kstate option"
  ke_vfs_clone_fd :: "int list \<Rightarrow> int list \<Rightarrow> bool \<times> int list"
  ke_user_thread :: "addr \<Rightarrow> string \<Rightarrow> addr \<Rightarrow> addr \<Rightarrow> 'm kstate \<Rightarrow> addr \<times> 'm kstate"
  ke_copy_context :: "addr \<Rightarrow> addr \<Rightarrow> 'm kstate \<Rightarrow> 'm kstate"
  ke_raise_softirq :: "'m kstate \<Rightarrow> 'm kstate"
  ke_ready :: "addr \<Rightarrow> 'm kstate \<Rightarrow> 'm kstate"
  ke_thread_join :: "addr \<Rightarrow> 'm kstate \<Rightarrow> 'm kstate"
  ke_thread_exit :: "'m kstate \<Rightarrow> 'm kstate"
  ke_do_close :: "nat \<Rightarrow> 'm kstate \<Rightarrow> 'm kstate"
  ke_serial_cleanup :: "'m kstate \<Rightarrow> 'm kstate"
  ke_do_kill :: "u32 \<Rightarrow> 'm kstate \<Rightarrow> 'm kstate"

section \<open>Small steps every handler shares\<close>

definition klog :: "kmsg \<Rightarrow> 'm kstate \<Rightarrow> 'm kstate" where
  "klog e s = s\<lparr>k_log := k_log s @ [e]\<rparr>"

text \<open>\<open>local_irq_save\<close> and \<open>local_irq_restore\<close>: the flag word is whether interrupts were off.\<close>

definition local_irq_save :: "'m kstate \<Rightarrow> bool \<times> 'm kstate" where
  "local_irq_save s = (k_irq_disabled s, s\<lparr>k_irq_disabled := True\<rparr>)"

definition local_irq_restore :: "bool \<Rightarrow> 'm kstate \<Rightarrow> 'm kstate" where
  "local_irq_restore flags s = s\<lparr>k_irq_disabled := flags\<rparr>"

definition put_user :: "addr \<Rightarrow> u32 \<Rightarrow> 'm kstate \<Rightarrow> 'm kstate" where
  "put_user a v s = s\<lparr>k_umem := (k_umem s)(a := v)\<rparr>"

definition set_errno :: "u32 \<Rightarrow> 'm kstate \<Rightarrow> 'm kstate" where
  "set_errno v s = (if k_errno_addr s \<noteq> NULL then put_user (k_errno_addr s) v s else s)"

text \<open>Reading and updating a PCB through a pointer.\<close>

definition pcb_at :: "'m kstate \<Rightarrow> addr \<Rightarrow> pcb option" where
  "pcb_at s a = map_of (k_procs s) a"

fun upd_entry :: "addr \<Rightarrow> (pcb \<Rightarrow> pcb) \<Rightarrow> (addr \<times> pcb) list \<Rightarrow> (addr \<times> pcb) list" where
  "upd_entry a f [] = []"
| "upd_entry a f ((b, p) # xs) = (if a = b then (b, f p) # xs else (b, p) # upd_entry a f xs)"

definition upd_pcb :: "addr \<Rightarrow> (pcb \<Rightarrow> pcb) \<Rightarrow> 'm kstate \<Rightarrow> 'm kstate option" where
  "upd_pcb a f s = (case pcb_at s a of None \<Rightarrow> None
     | Some p \<Rightarrow> Some (s\<lparr>k_procs := upd_entry a f (k_procs s)\<rparr>))"

text \<open>\<open>current()->pcb\<close>, a pointer that may be \<open>NULL\<close>.\<close>

definition current_pcb :: "'m kstate \<Rightarrow> addr option" where
  "current_pcb s = map_option t_pcb (k_tcbs s (k_current s))"

section \<open>Searching the process list\<close>

text \<open>
  The loop all three searches share: \<open>list_for_each\<close> with a \<open>return pcb\<close> on the first
  match and \<open>return NULL\<close> at the end.
\<close>

fun first_proc :: "(pcb \<Rightarrow> bool) \<Rightarrow> (addr \<times> pcb) list \<Rightarrow> addr" where
  "first_proc P [] = NULL"
| "first_proc P ((a, p) # xs) = (if P p then a else first_proc P xs)"

definition find_proc_by_pid :: "u32 \<Rightarrow> 'm kstate \<Rightarrow> addr" where
  "find_proc_by_pid pid s = first_proc (\<lambda>p. p_pid p = pid) (k_procs s)"

definition find_proc_zombie_to_clean :: "'m kstate \<Rightarrow> addr" where
  "find_proc_zombie_to_clean s =
     first_proc (\<lambda>p. p_state p = PROC_STATE_ZOMBIE \<and> p_main_thread p \<noteq> NULL) (k_procs s)"

definition find_proc_by_parent :: "addr \<Rightarrow> 'm kstate \<Rightarrow> addr" where
  "find_proc_by_parent parent s = first_proc (\<lambda>p. p_parent p = parent) (k_procs s)"

section \<open>File descriptors\<close>

text \<open>\<open>proc_new_fd\<close>: the index of the first entry holding -1, or -1.\<close>

fun free_fd_from :: "nat \<Rightarrow> int list \<Rightarrow> int" where
  "free_fd_from i [] = -1"
| "free_fd_from i (x # xs) = (if x = -1 then int i else free_fd_from (Suc i) xs)"

definition proc_new_fd :: "pcb \<Rightarrow> int" where
  "proc_new_fd p = free_fd_from 0 (take FD_MAX (p_fd_array p))"

definition proc_register_fd :: "'m kenv \<Rightarrow> int \<Rightarrow> 'm kstate \<Rightarrow> (int \<times> 'm kstate) option" where
  "proc_register_fd E gfd s = do {
     a \<leftarrow> current_pcb s;
     if a = NULL then Some (-1, s)
     else do {
       p \<leftarrow> pcb_at s a;
       let fd = proc_new_fd p;
       if fd < 0 then Some (fd, set_errno (ke_ENFILE E) s)
       else do {
         s' \<leftarrow> upd_pcb a (\<lambda>p. p\<lparr>p_fd_array := (p_fd_array p)[nat fd := gfd]\<rparr>) s;
         Some (fd, s') } } }"

section \<open>Creation and removal\<close>

text \<open>The PCB as \<open>new_process\<close> leaves it: zeroed, with its pid, state and page table.\<close>

definition fresh_pcb :: "u32 \<Rightarrow> addr \<Rightarrow> pcb" where
  "fresh_pcb pid pgt = \<lparr>p_pid = pid, p_name = [], p_bin_image_entry = 0, p_stack_top = 0,
     p_stack_slotID = replicate PROC_THREAD_MAX False, p_heap_base = 0, p_heap_pointer = 0,
     p_page_count = 0, p_page_list = [], p_pgtable = pgt, p_exit_status = 0, p_parent = NULL,
     p_main_thread = NULL, p_threads = [], p_state = PROC_STATE_NEW,
     p_fd_array = replicate FD_MAX 0, p_ptrace_pending_req = PTRACE_NO_REQUEST\<rparr>"

definition new_process :: "'m kenv \<Rightarrow> 'm kstate \<Rightarrow> (addr \<times> 'm kstate) option" where
  "new_process E s =
     (let a = ke_malloc_pcb E s in
      if a = NULL then None
      else do {
        let pid = k_pid_current s;
        (pgt, mm) \<leftarrow> ke_new_root_pgtable E (k_mm s);
        Some (a, s\<lparr>k_pid_current := pid + 1,
                   k_mm := ke_pgtable_copy_kernel_area E pgt mm,
                   k_procs := k_procs s @ [(a, fresh_pcb pid pgt)]\<rparr>) })"

text \<open>\<open>remove_proc\<close>: unlink the first list entry that is the PCB, and free it.\<close>

fun remove_entry :: "addr \<Rightarrow> (addr \<times> pcb) list \<Rightarrow> (addr \<times> pcb) list" where
  "remove_entry a [] = []"
| "remove_entry a ((b, p) # xs) = (if a = b then xs else (b, p) # remove_entry a xs)"

definition remove_proc :: "addr \<Rightarrow> 'm kstate \<Rightarrow> 'm kstate" where
  "remove_proc a s = s\<lparr>k_procs := remove_entry a (k_procs s)\<rparr>"

text \<open>\<open>reset_process_stack\<close>: 32 thread stacks, rounded up to pages, below the argument page.\<close>

definition reset_process_stack :: "'m kenv \<Rightarrow> pcb \<Rightarrow> pcb" where
  "reset_process_stack E p =
     p\<lparr>p_page_count := drop_bit (ke_PAGE_SHIFT E)
          (ke_ALIGN_UP E (of_nat PROC_THREAD_MAX * ke_THREAD_STACK_SIZE E) (ke_PAGE_SIZE E)),
       p_stack_top := ke_args_base E\<rparr>"

section \<open>Physical pages of a process\<close>

text \<open>\<open>add_page_to_proc\<close>: a node from the heap, then the page is counted and linked.\<close>

definition link_page :: "addr \<Rightarrow> frame \<Rightarrow> 'm kstate \<Rightarrow> 'm kstate option" where
  "link_page a pg s = upd_pcb a (\<lambda>p. p\<lparr>p_page_list := p_page_list p @ [pg]\<rparr>)
     (s\<lparr>k_refcount := (k_refcount s)(pg := k_refcount s pg + 1)\<rparr>)"

definition add_page_to_proc :: "'m kenv \<Rightarrow> addr \<Rightarrow> frame \<Rightarrow> 'm kstate \<Rightarrow> 'm kstate option" where
  "add_page_to_proc E a pg s = do {
     mm \<leftarrow> ke_malloc_node E (k_mm s);
     link_page a pg (s\<lparr>k_mm := mm\<rparr>) }"

text \<open>\<open>allocate_page\<close>: the loop from page \<open>i\<close> with \<open>n\<close> pages to go.\<close>

fun allocate_page_loop ::
  "'m kenv \<Rightarrow> addr \<Rightarrow> addr \<Rightarrow> nat \<Rightarrow> nat \<Rightarrow> 'm kstate \<Rightarrow> 'm kstate option" where
  "allocate_page_loop E a virt i 0 s = Some s"
| "allocate_page_loop E a virt i (Suc n) s =
     (case ke_get_free_page E (k_mm s) of (pg, mm) \<Rightarrow>
        if pg = 0 then None
        else do {
          p \<leftarrow> pcb_at s a;
          mm1 \<leftarrow> ke_create_mapping E (p_pgtable p) (virt + of_nat i * ke_PAGE_SIZE E)
                  pg (ke_PAGE_SIZE E) False mm;
          s2 \<leftarrow> add_page_to_proc E a pg (s\<lparr>k_mm := mm1\<rparr>);
          allocate_page_loop E a virt (Suc i) n s2 })"

definition allocate_page ::
  "'m kenv \<Rightarrow> addr \<Rightarrow> addr \<Rightarrow> nat \<Rightarrow> 'm kstate \<Rightarrow> 'm kstate option" where
  "allocate_page E a virt nr_pages s = allocate_page_loop E a virt 0 nr_pages s"

text \<open>\<open>release_proc_pages\<close>: each page loses a reference and is freed when none is left.\<close>

definition release_page :: "'m kenv \<Rightarrow> frame \<Rightarrow> 'm kstate \<Rightarrow> 'm kstate" where
  "release_page E pg s =
     (let n = k_refcount s pg - 1;
          mm = (if n = 0 then ke_free_page E pg (k_mm s) else k_mm s)
      in s\<lparr>k_refcount := (k_refcount s)(pg := n), k_mm := ke_free_node E mm\<rparr>)"

definition release_proc_pages :: "'m kenv \<Rightarrow> addr \<Rightarrow> 'm kstate \<Rightarrow> 'm kstate option" where
  "release_proc_pages E a s = do {
     p \<leftarrow> pcb_at s a;
     upd_pcb a (\<lambda>p. p\<lparr>p_page_list := []\<rparr>) (fold (release_page E) (p_page_list p) s) }"

section \<open>Facts about the list of PCBs\<close>

lemma map_fst_upd_entry [simp]: "map fst (upd_entry a f xs) = map fst xs"
  by (induction a f xs rule: upd_entry.induct) auto

lemma map_of_upd_entry [simp]:
  "map_of (upd_entry a f xs) b = (if a = b then map_option f (map_of xs b) else map_of xs b)"
  by (induction a f xs rule: upd_entry.induct) auto

lemma upd_entry_append:
  "a \<notin> fst ` set xs \<Longrightarrow> upd_entry a f (xs @ ys) = xs @ upd_entry a f ys"
  by (induction a f xs rule: upd_entry.induct) auto

lemma map_fst_remove_entry: "map fst (remove_entry a xs) = remove1 a (map fst xs)"
  by (induction a xs rule: remove_entry.induct) auto

lemma map_of_remove_entry:
  "distinct (map fst xs) \<Longrightarrow> map_of (remove_entry a xs) = (map_of xs)(a := None)"
  by (induction a xs rule: remove_entry.induct) (auto simp: fun_eq_iff map_of_eq_None_iff)

lemma upd_pcb_Some:
  "upd_pcb a f s = Some s' \<longleftrightarrow>
     pcb_at s a \<noteq> None \<and> s' = s\<lparr>k_procs := upd_entry a f (k_procs s)\<rparr>"
  by (auto simp: upd_pcb_def split: option.splits)

lemma pcb_at_upd [simp]:
  "pcb_at (s\<lparr>k_procs := upd_entry a f (k_procs s)\<rparr>) b =
     (if a = b then map_option f (pcb_at s b) else pcb_at s b)"
  by (simp add: pcb_at_def)

lemma pcb_at_frame [simp]:
  "pcb_at (s\<lparr>k_irq_disabled := i\<rparr>) = pcb_at s"
  "pcb_at (s\<lparr>k_umem := u\<rparr>) = pcb_at s"
  "pcb_at (s\<lparr>k_refcount := r\<rparr>) = pcb_at s"
  "pcb_at (s\<lparr>k_log := l\<rparr>) = pcb_at s"
  "pcb_at (s\<lparr>k_mm := m\<rparr>) = pcb_at s"
  "pcb_at (s\<lparr>k_tcbs := t\<rparr>) = pcb_at s"
  "pcb_at (s\<lparr>k_root_process := r'\<rparr>) = pcb_at s"
  "pcb_at (s\<lparr>k_pid_current := n\<rparr>) = pcb_at s"
  "pcb_at (s\<lparr>k_current := c\<rparr>) = pcb_at s"
  by (simp_all add: pcb_at_def fun_eq_iff)

lemma first_proc_hit:
  "first_proc P xs = a \<Longrightarrow> a \<noteq> NULL \<Longrightarrow> distinct (map fst xs) \<Longrightarrow>
     \<exists>p. map_of xs a = Some p \<and> P p"
  by (induction P xs rule: first_proc.induct) (auto split: if_splits dest!: map_of_SomeD intro: rev_image_eqI)

lemma first_proc_miss:
  "NULL \<notin> fst ` set xs \<Longrightarrow> first_proc P xs = NULL \<longleftrightarrow> (\<forall>x \<in> set xs. \<not> P (snd x))"
  by (induction P xs rule: first_proc.induct) auto

section \<open>The skeleton of the process table\<close>

text \<open>
  The addresses, pids and parents, in list order: what the well-formedness of the table is
  about, and what most operations leave alone.
\<close>

type_synonym skeleton = "(addr \<times> u32 \<times> addr) list"

definition skel :: "'m kstate \<Rightarrow> skeleton" where
  "skel s = map (\<lambda>(a, p). (a, p_pid p, p_parent p)) (k_procs s)"

definition same_procs :: "'m kstate \<Rightarrow> 'm kstate \<Rightarrow> bool" where
  "same_procs s t \<longleftrightarrow> skel t = skel s \<and> k_pid_current t = k_pid_current s"

text \<open>
  Addresses are distinct and not \<open>NULL\<close>; pids grow along the list and stay between 1 and the
  next pid; a parent pointer is \<open>NULL\<close> or designates a listed process with a smaller pid.
\<close>

definition skel_inv :: "skeleton \<Rightarrow> u32 \<Rightarrow> bool" where
  "skel_inv k n \<longleftrightarrow>
     0 < n \<and> distinct (map fst k) \<and> NULL \<notin> fst ` set k \<and> sorted_wrt (<) (map (fst \<circ> snd) k) \<and>
     (\<forall>(a, i, q) \<in> set k. 0 < i \<and> i < n \<and> (q = NULL \<or> (\<exists>j r. (q, j, r) \<in> set k \<and> j < i)))"

definition proc_inv :: "'m kstate \<Rightarrow> bool" where
  "proc_inv s \<longleftrightarrow> skel_inv (skel s) (k_pid_current s)"

lemma same_procs_refl [simp, intro]: "same_procs s s"
  by (simp add: same_procs_def)

lemma same_procs_trans [trans]: "same_procs s t \<Longrightarrow> same_procs t u \<Longrightarrow> same_procs s u"
  by (simp add: same_procs_def)

lemma same_procs_inv: "same_procs s t \<Longrightarrow> proc_inv s \<Longrightarrow> proc_inv t"
  by (simp add: same_procs_def proc_inv_def)

lemma map_fst_skel: "map fst (skel s) = map fst (k_procs s)"
  by (simp add: skel_def split_def)

lemma skel_mem: "(a, i, q) \<in> set (skel s) \<longleftrightarrow> (\<exists>p. (a, p) \<in> set (k_procs s) \<and> p_pid p = i \<and> p_parent p = q)"
  by (force simp: skel_def)

lemma proc_inv_keys: "proc_inv s \<Longrightarrow> distinct (map fst (k_procs s)) \<and> NULL \<notin> fst ` set (k_procs s)"
  using map_fst_skel[of s] by (simp add: proc_inv_def skel_inv_def) (metis list.set_map)

lemma proc_inv_pcb:
  "proc_inv s \<Longrightarrow> pcb_at s a = Some p \<longleftrightarrow> (a, p) \<in> set (k_procs s)"
  using proc_inv_keys[of s] by (simp add: pcb_at_def)

lemma proc_inv_not_null [simp]: "proc_inv s \<Longrightarrow> pcb_at s NULL = None"
  using proc_inv_keys[of s] by (simp add: pcb_at_def map_of_eq_None_iff)

lemma proc_inv_pid_bound:
  "proc_inv s \<Longrightarrow> pcb_at s a = Some p \<Longrightarrow> 0 < p_pid p \<and> p_pid p < k_pid_current s"
  using proc_inv_pcb[of s a p] skel_mem[of a "p_pid p" "p_parent p" s]
  by (auto simp: proc_inv_def skel_inv_def)

lemma proc_inv_parent:
  assumes "proc_inv s" and "pcb_at s a = Some p" and "p_parent p \<noteq> NULL"
  shows "\<exists>q. pcb_at s (p_parent p) = Some q \<and> p_pid q < p_pid p"
proof -
  have "(a, p_pid p, p_parent p) \<in> set (skel s)"
    using assms proc_inv_pcb[of s a p] skel_mem by blast
  with assms(1,3) obtain j r where "(p_parent p, j, r) \<in> set (skel s)" "j < p_pid p"
    unfolding proc_inv_def skel_inv_def by blast
  then show ?thesis using assms(1) proc_inv_pcb skel_mem by metis
qed

lemma proc_inv_pid_inj:
  assumes "proc_inv s" and "pcb_at s a = Some p" and "pcb_at s b = Some q" and "p_pid p = p_pid q"
  shows "a = b"
proof -
  have "sorted_wrt (<) (map (fst \<circ> snd) (skel s))"
    using assms(1) by (simp add: proc_inv_def skel_inv_def)
  then have "distinct (map (fst \<circ> snd) (skel s))" by (simp only: strict_sorted_iff)
  then have inj: "inj_on (fst \<circ> snd) (set (skel s))" by (simp add: distinct_map)
  have "(a, p_pid p, p_parent p) \<in> set (skel s)" "(b, p_pid q, p_parent q) \<in> set (skel s)"
    using assms proc_inv_pcb skel_mem by blast+
  from inj_onD[OF inj _ this] assms(4) show ?thesis by simp
qed

lemma same_procs_frame [simp]:
  "same_procs s (s\<lparr>k_irq_disabled := i\<rparr>)"
  "same_procs s (s\<lparr>k_umem := u\<rparr>)"
  "same_procs s (s\<lparr>k_refcount := r\<rparr>)"
  "same_procs s (s\<lparr>k_log := l\<rparr>)"
  "same_procs s (s\<lparr>k_mm := m\<rparr>)"
  "same_procs s (s\<lparr>k_tcbs := t\<rparr>)"
  "same_procs s (s\<lparr>k_current := c\<rparr>)"
  "same_procs s (s\<lparr>k_root_process := r'\<rparr>)"
  by (simp_all add: same_procs_def skel_def)

lemma klog_frame [simp]:
  "k_procs (klog e s) = k_procs s" "k_tcbs (klog e s) = k_tcbs s"
  "k_irq_disabled (klog e s) = k_irq_disabled s" "k_umem (klog e s) = k_umem s"
  "pcb_at (klog e s) = pcb_at s" "same_procs s (klog e s)"
  "k_pid_current (klog e s) = k_pid_current s"
  by (simp_all add: klog_def)

lemma set_errno_frame [simp]:
  "k_procs (set_errno v s) = k_procs s" "same_procs s (set_errno v s)"
  "pcb_at (set_errno v s) = pcb_at s" "k_irq_disabled (set_errno v s) = k_irq_disabled s"
  by (simp_all add: set_errno_def put_user_def)

lemma upd_pcb_same_procs:
  "upd_pcb a f s = Some t \<Longrightarrow> (\<And>p. p_pid (f p) = p_pid p \<and> p_parent (f p) = p_parent p) \<Longrightarrow>
   same_procs s t"
proof -
  assume pres: "\<And>p. p_pid (f p) = p_pid p \<and> p_parent (f p) = p_parent p"
  have "map (\<lambda>(a, p). (a, p_pid p, p_parent p)) (upd_entry a f xs)
      = map (\<lambda>(a, p). (a, p_pid p, p_parent p)) xs" for xs
    by (induction xs) (auto simp: pres)
  moreover assume "upd_pcb a f s = Some t"
  ultimately show ?thesis by (auto simp: upd_pcb_Some same_procs_def skel_def)
qed

lemma skel_inv_append:
  assumes "skel_inv k n" and "n + 1 \<noteq> 0" and "a \<noteq> NULL" and "a \<notin> fst ` set k"
    and "q = NULL \<or> q \<in> fst ` set k"
  shows "skel_inv (k @ [(a, n, q)]) (n + 1)"
proof -
  have le: "i < n \<Longrightarrow> i < n + 1" "n < n + 1" for i
    using word_less_succ[OF assms(2)] by (simp_all add: order.strict_implies_order)
  have "0 < n + 1" using assms(2) by (simp add: word_greater_zero_iff)
  moreover have "sorted_wrt (<) (map (fst \<circ> snd) (k @ [(a, n, q)]))"
    using assms(1) by (auto simp: skel_inv_def sorted_wrt_append)
  moreover have "\<exists>j r. (q, j, r) \<in> set k \<and> j < n" if "q \<noteq> NULL"
    using assms(1,5) that unfolding skel_inv_def by force
  ultimately show ?thesis
    using assms(1,3,4) le unfolding skel_inv_def by (auto; blast)
qed

lemma skel_inv_remove:
  assumes "skel_inv k n" and "\<forall>(b, i, q) \<in> set k. q \<noteq> a"
  shows "skel_inv (filter (\<lambda>x. fst x \<noteq> a) k) n"
  using assms unfolding skel_inv_def
  apply (intro conjI)
  apply simp
  apply (simp add: distinct_map_filter)
  apply auto[1]
  apply (simp add: sorted_wrt_filter sorted_wrt_map)
  apply (fastforce)
  done

lemma remove_entry_filter:
  "distinct (map fst xs) \<Longrightarrow> remove_entry a xs = filter (\<lambda>x. fst x \<noteq> a) xs"
proof (induction a xs rule: remove_entry.induct)
  case (2 a b p xs)
  show ?case
  proof (cases "a = b")
    case True
    with "2.prems" have "filter (\<lambda>x. fst x \<noteq> a) xs = xs"
      by (auto simp: filter_id_conv)
    with True show ?thesis by simp
  next
    case False
    with 2 show ?thesis by simp
  qed
qed simp

lemma skel_remove_proc:
  assumes "distinct (map fst (k_procs s))"
  shows "skel (remove_proc a s) = filter (\<lambda>x. fst x \<noteq> a) (skel s)"
proof -
  have "remove_entry a (k_procs s) = filter (\<lambda>x. fst x \<noteq> a) (k_procs s)"
    using assms remove_entry_filter by blast
  then show ?thesis by (simp add: skel_def remove_proc_def filter_map comp_def split_def)
qed

section \<open>The interface of a search\<close>

text \<open>
  What the system calls rely on when they search the table: a non-\<open>NULL\<close> result is a listed
  PCB that passes the test, and \<open>NULL\<close> means no listed PCB does.
\<close>

locale proc_search =
  fixes search :: "'q \<Rightarrow> 'm kstate \<Rightarrow> addr"
    and test :: "'q \<Rightarrow> pcb \<Rightarrow> bool"
  assumes hit: "proc_inv s \<Longrightarrow> search q s \<noteq> NULL \<Longrightarrow>
      \<exists>p. pcb_at s (search q s) = Some p \<and> test q p"
    and miss: "proc_inv s \<Longrightarrow> search q s = NULL \<Longrightarrow> pcb_at s a = Some p \<Longrightarrow> \<not> test q p"
begin

lemma found:
  "proc_inv s \<Longrightarrow> pcb_at s a = Some p \<Longrightarrow> test q p \<Longrightarrow> search q s \<noteq> NULL"
  using miss by blast

lemma null_iff:
  "proc_inv s \<Longrightarrow> search q s = NULL \<longleftrightarrow> (\<forall>a p. pcb_at s a = Some p \<longrightarrow> \<not> test q p)"
  using hit miss by blast

lemma unique:
  assumes "proc_inv s" and "pcb_at s a = Some p" and "test q p"
    and "\<And>b r. pcb_at s b = Some r \<Longrightarrow> test q r \<Longrightarrow> b = a"
  shows "search q s = a"
  using assms found hit by metis

end

lemma first_proc_search:
  assumes "proc_inv s"
  shows "first_proc P (k_procs s) \<noteq> NULL \<Longrightarrow>
      \<exists>p. pcb_at s (first_proc P (k_procs s)) = Some p \<and> P p"
    and "first_proc P (k_procs s) = NULL \<Longrightarrow> pcb_at s a = Some p \<Longrightarrow> \<not> P p"
  using proc_inv_keys[OF assms] first_proc_hit[of P "k_procs s"] first_proc_miss[of "k_procs s" P]
    proc_inv_pcb[OF assms, of a p]
  by (force simp: pcb_at_def)+

interpretation by_pid: proc_search find_proc_by_pid "\<lambda>pid p. p_pid p = pid"
  by unfold_locales (auto simp: find_proc_by_pid_def dest: first_proc_search)

interpretation by_parent: proc_search find_proc_by_parent "\<lambda>a p. p_parent p = a"
  by unfold_locales (auto simp: find_proc_by_parent_def dest: first_proc_search)

interpretation zombie: proc_search "\<lambda>_ :: unit. find_proc_zombie_to_clean"
  "\<lambda>_ p. p_state p = PROC_STATE_ZOMBIE \<and> p_main_thread p \<noteq> NULL"
  by unfold_locales (auto simp: find_proc_zombie_to_clean_def dest: first_proc_search)

end
