(* ===== verification/CLib.thy ===== *)
theory CLib
  imports Prelude
begin

text \<open>
  The functions of the C library the programs use, on strings of characters: character
  classes, \<open>printf\<close>'s \<open>%d\<close>, \<open>atoi\<close>, \<open>fgets\<close>.
\<close>

definition ord :: "char \<Rightarrow> nat" where "ord c = of_char c"

definition isdigit :: "char \<Rightarrow> bool" where "isdigit c \<longleftrightarrow> 48 \<le> ord c \<and> ord c \<le> 57"

definition isspace :: "char \<Rightarrow> bool" where "isspace c \<longleftrightarrow> ord c = 32 \<or> 9 \<le> ord c \<and> ord c \<le> 13"

definition isalpha :: "char \<Rightarrow> bool" where
  "isalpha c \<longleftrightarrow> 65 \<le> ord c \<and> ord c \<le> 90 \<or> 97 \<le> ord c \<and> ord c \<le> 122"

definition tolower :: "char \<Rightarrow> nat" where
  "tolower c = (if 65 \<le> ord c \<and> ord c \<le> 90 then ord c + 32 else ord c)"

abbreviation newline :: char where "newline \<equiv> CHR 0x0A"

section \<open>Numbers\<close>

fun show_nat :: "nat \<Rightarrow> string" where
  "show_nat n = (if n < 10 then [char_of (48 + n)] else show_nat (n div 10) @ [char_of (48 + n mod 10)])"

declare show_nat.simps [simp del]

definition show_int :: "int \<Rightarrow> string" where
  "show_int i = (if i < 0 then CHR ''-'' # show_nat (nat (- i)) else show_nat (nat i))"

fun digits_val :: "nat \<Rightarrow> string \<Rightarrow> nat" where
  "digits_val acc [] = acc"
| "digits_val acc (c # cs) = (if isdigit c then digits_val (10 * acc + (ord c - 48)) cs else acc)"

fun skip_spaces :: "string \<Rightarrow> string" where
  "skip_spaces [] = []"
| "skip_spaces (c # cs) = (if isspace c then skip_spaces cs else c # cs)"

text \<open>\<open>atoi\<close>; the result is defined in C when it is an \<open>int\<close>.\<close>

definition atoi :: "string \<Rightarrow> int" where
  "atoi s = (case skip_spaces s of [] \<Rightarrow> 0
     | c # cs \<Rightarrow> if c = CHR ''-'' then - int (digits_val 0 cs)
                else if c = CHR ''+'' then int (digits_val 0 cs) else int (digits_val 0 (c # cs)))"

section \<open>Reading lines\<close>

fun read_line :: "nat \<Rightarrow> string \<Rightarrow> string \<times> string" where
  "read_line 0 cs = ([], cs)"
| "read_line (Suc k) [] = ([], [])"
| "read_line (Suc k) (c # cs) =
     (if c = newline then ([c], cs) else (case read_line k cs of (l, r) \<Rightarrow> (c # l, r)))"

text \<open>\<open>fgets\<close> with a buffer of \<open>n\<close> characters: \<open>None\<close> at the end of the input.\<close>

definition fgets :: "nat \<Rightarrow> string \<Rightarrow> (string \<times> string) option" where
  "fgets n cs = (if cs = [] then None else Some (read_line (n - 1) cs))"

section \<open>Lemmas\<close>

lemma ord_less [simp]: "ord c < 256"
  by (simp add: ord_def)

lemma ord_char_of [simp]: "n < 256 \<Longrightarrow> ord (char_of n) = n"
  by (simp add: ord_def of_char_of)

lemma isdigit_char_of [simp]: "n < (10::nat) \<Longrightarrow> isdigit (char_of (48 + n))"
  by (simp add: isdigit_def)

lemma read_line_append: "fst (read_line k cs) @ snd (read_line k cs) = cs"
  by (induction k cs rule: read_line.induct) (auto simp: case_prod_unfold)

lemma read_line_short:
  "newline \<notin> set l \<Longrightarrow> length l < k \<Longrightarrow> read_line k (l @ newline # rest) = (l @ [newline], rest)"
proof (induction l arbitrary: k)
  case Nil
  then show ?case by (cases k) auto
next
  case (Cons c l)
  then show ?case by (cases k) auto
qed

lemma read_line_rest: "0 < k \<Longrightarrow> cs \<noteq> [] \<Longrightarrow> length (snd (read_line k cs)) < length cs"
proof -
  assume "0 < k" "cs \<noteq> []"
  then have "fst (read_line k cs) \<noteq> []" by (cases k; cases cs) (auto simp: case_prod_unfold)
  then have "0 < length (fst (read_line k cs))" by simp
  moreover have "length (fst (read_line k cs)) + length (snd (read_line k cs)) = length cs"
    using arg_cong[OF read_line_append[of k cs], of length] by simp
  ultimately show ?thesis by linarith
qed

lemma show_nat_not_Nil [simp]: "show_nat n \<noteq> []"
  by (subst show_nat.simps) simp

lemma show_nat_digits: "c \<in> set (show_nat n) \<Longrightarrow> isdigit c"
proof (induction n rule: show_nat.induct)
  case (1 n)
  then show ?case by (subst (asm) (2) show_nat.simps) (auto split: if_splits)
qed

lemma digits_val_append:
  "(\<And>c. c \<in> set ds \<Longrightarrow> isdigit c) \<Longrightarrow> digits_val acc (ds @ cs) = digits_val (digits_val acc ds) cs"
  by (induction acc ds rule: digits_val.induct) auto

lemma digits_val_show_nat: "digits_val 0 (show_nat n) = n"
proof (induction n rule: show_nat.induct)
  case (1 n)
  show ?case
  proof (cases "n < 10")
    case True
    then show ?thesis by (subst show_nat.simps) simp
  next
    case False
    have "digits_val 0 (show_nat n) = digits_val 0 (show_nat (n div 10) @ [char_of (48 + n mod 10)])"
      using False by (subst show_nat.simps) simp
    also have "\<dots> = digits_val (n div 10) [char_of (48 + n mod 10)]"
      using digits_val_append[of "show_nat (n div 10)"] show_nat_digits 1[OF False] by metis
    also have "\<dots> = n" by simp
    finally show ?thesis .
  qed
qed

lemma digits_val_stop: "cs = [] \<or> \<not> isdigit (hd cs) \<Longrightarrow> digits_val acc cs = acc"
  by (cases cs) auto

text \<open>\<open>atoi\<close> reads back what \<open>%d\<close> prints.\<close>

lemma digit_class: "isdigit c \<Longrightarrow> \<not> isspace c \<and> c \<noteq> CHR ''-'' \<and> c \<noteq> CHR ''+''"
  by (auto simp: isdigit_def isspace_def ord_def)

lemma atoi_show_nat:
  assumes "cs = [] \<or> \<not> isdigit (hd cs)"
  shows "atoi (show_nat n @ cs) = int n"
proof -
  obtain c ds where s: "show_nat n = c # ds" using show_nat_not_Nil[of n] by (cases "show_nat n") auto
  then have "isdigit c" using show_nat_digits[of c n] by simp
  moreover have "digits_val 0 (show_nat n @ cs) = n"
    using digits_val_append[of "show_nat n" 0 cs] show_nat_digits[of _ n] digits_val_stop[OF assms]
    by (simp add: digits_val_show_nat)
  ultimately show ?thesis using digit_class[of c] by (simp add: atoi_def s)
qed

lemma atoi_show_int:
  assumes "cs = [] \<or> \<not> isdigit (hd cs)"
  shows "atoi (show_int i @ cs) = i"
proof (cases "i < 0")
  case True
  have "digits_val 0 (show_nat n @ cs) = n" for n
    using digits_val_append[of "show_nat n" 0 cs] show_nat_digits[of _ n] digits_val_stop[OF assms]
    by (simp add: digits_val_show_nat)
  then show ?thesis using True by (simp add: show_int_def atoi_def isspace_def ord_def)
next
  case False
  then show ?thesis using atoi_show_nat[OF assms, of "nat i"] by (simp add: show_int_def)
qed

lemma length_show_int: "1 \<le> length (show_int i)"
proof -
  have "1 \<le> length (show_nat n)" for n using show_nat_not_Nil[of n] by (cases "show_nat n") auto
  then show ?thesis by (simp add: show_int_def)
qed

end
