(* ===== verification/KSys.thy ===== *)
theory KSys
  imports KProc CLib
begin

text \<open>
  The process system calls of \<open>so3/kernel/process.c\<close>: boot of the root process, fork, exit,
  waitpid, sbrk, renice, and the dumps.
\<close>

section \<open>The name of a process\<close>

text \<open>Writing the name field; past the end of the array there is no defined result.\<close>

definition set_name :: "addr \<Rightarrow> string \<Rightarrow> 'm kstate \<Rightarrow> 'm kstate option" where
  "set_name a nm s =
     (if length nm < PROC_NAME_LEN then upd_pcb a (\<lambda>p. p\<lparr>p_name := nm\<rparr>) s else None)"

section \<open>The root process\<close>

definition create_root_process :: "'m kenv \<Rightarrow> 'm kstate \<Rightarrow> 'm kstate option" where
  "create_root_process E s = do {
     let s0 = s\<lparr>k_irq_disabled := True\<rparr>;
     (a, s1) \<leftarrow> new_process E s0;
     s2 \<leftarrow> upd_pcb a (reset_process_stack E) s1;
     p \<leftarrow> pcb_at s2 a;
     s3 \<leftarrow> allocate_page E a (p_stack_top p - p_page_count p * ke_PAGE_SIZE E)
             (unat (p_page_count p)) s2;
     mm \<leftarrow> ke_create_mapping E (p_pgtable p) (ke_USER_SPACE_VADDR E)
             (ke_root_proc_start E) (ke_root_proc_size E) False (k_mm s3);
     let (t, s5) = ke_user_thread E (ke_USER_SPACE_VADDR E) ''root_proc'' NULL a (s3\<lparr>k_mm := mm\<rparr>);
     s6 \<leftarrow> upd_pcb a (\<lambda>p. p\<lparr>p_main_thread := t\<rparr>) s5;
     let s7 = (if k_root_process s6 = NULL then s6\<lparr>k_root_process := a\<rparr> else s6);
     s8 \<leftarrow> upd_pcb a (\<lambda>p. p\<lparr>p_fd_array := ((replicate FD_MAX (- 1))
              [ke_STDOUT E := int (ke_STDOUT E)])
              [ke_STDIN E := int (ke_STDIN E), ke_STDERR E := int (ke_STDERR E)],
              p_state := PROC_STATE_READY\<rparr>) s7;
     Some (ke_thread_exit E s8) }"

section \<open>fork\<close>

text \<open>The name \<open>do_fork\<close> prints into the child's PCB: \<open>"%s_child_%d"\<close>.\<close>

definition child_name :: "pcb \<Rightarrow> u32 \<Rightarrow> string" where
  "child_name parent pid = p_name parent @ ''_child_'' @ show_int (sint pid)"

definition duplicate_process :: "'m kenv \<Rightarrow> addr \<Rightarrow> 'm kstate \<Rightarrow> (addr \<times> 'm kstate) option" where
  "duplicate_process E parent s = do {
     (a, s1) \<leftarrow> new_process E s;
     pp \<leftarrow> pcb_at s1 parent;
     s2 \<leftarrow> upd_pcb a (\<lambda>p. p\<lparr>p_page_count := p_page_count pp, p_parent := parent,
              p_stack_top := p_stack_top pp, p_heap_base := p_heap_base pp,
              p_heap_pointer := p_heap_pointer pp, p_stack_slotID := p_stack_slotID pp\<rparr>) s1;
     p \<leftarrow> pcb_at s2 a;
     let (err, fds) = ke_vfs_clone_fd E (p_fd_array pp) (p_fd_array p);
     if err then None
     else do {
       s3 \<leftarrow> upd_pcb a (\<lambda>p. p\<lparr>p_fd_array := fds\<rparr>) s2;
       Some (a, s3) } }"

text \<open>
  The body of \<open>do_fork\<close>. The result is the parent's and the new PCB, or \<open>None\<close> when a thread
  other than the main thread asks.
\<close>

definition fork_body :: "'m kenv \<Rightarrow> 'm kstate \<Rightarrow> ((addr \<times> addr) option \<times> 'm kstate) option" where
  "fork_body E s = do {
     let (flags, s0) = local_irq_save s;
     parent \<leftarrow> current_pcb s0;
     pp \<leftarrow> pcb_at s0 parent;
     if k_current s0 \<noteq> p_main_thread pp
     then Some (None, klog ForkNotMainThread s0)
     else do {
       (newp, s1) \<leftarrow> duplicate_process E parent s0;
       s2 \<leftarrow> ke_duplicate_user_space E parent newp s1;
       np \<leftarrow> pcb_at s2 newp;
       let nm = child_name pp (p_pid np);
       s3 \<leftarrow> set_name newp nm s2;
       let (t, s4) = ke_user_thread E NULL nm (ke_args_base E) newp s3;
       s5 \<leftarrow> upd_pcb newp (\<lambda>p. p\<lparr>p_main_thread := t\<rparr>) s4;
       let s6 = ke_copy_context E t (p_main_thread pp) s5;
       s7 \<leftarrow> upd_pcb newp (\<lambda>p. p\<lparr>p_state := PROC_STATE_READY\<rparr>) s6;
       if \<not> k_irq_disabled s7 then None
       else Some (Some (parent, newp), local_irq_restore flags (ke_raise_softirq E s7)) } }"

definition do_fork :: "'m kenv \<Rightarrow> 'm kstate \<Rightarrow> (int \<times> 'm kstate) option" where
  "do_fork E s = do {
     (r, s') \<leftarrow> fork_body E s;
     case r of None \<Rightarrow> Some (- 1, s')
     | Some (parent, newp) \<Rightarrow> do { np \<leftarrow> pcb_at s' newp; Some (sint (p_pid np), s') } }"

text \<open>\<open>do_fork2\<close> of lab 2: the same body, and a line on the console.\<close>

definition do_fork2 :: "'m kenv \<Rightarrow> 'm kstate \<Rightarrow> (int \<times> 'm kstate) option" where
  "do_fork2 E s = do {
     (r, s') \<leftarrow> fork_body E s;
     case r of None \<Rightarrow> Some (- 1, s')
     | Some (parent, newp) \<Rightarrow> do {
         pp \<leftarrow> pcb_at s' parent;
         np \<leftarrow> pcb_at s' newp;
         Some (sint (p_pid np), klog (Fork2Logged (p_name pp) (p_pid pp) (p_pid np)) s') } }"

section \<open>exit\<close>

definition do_exit :: "'m kenv \<Rightarrow> u32 \<Rightarrow> 'm kstate \<Rightarrow> 'm kstate option" where
  "do_exit E status s = do {
     a \<leftarrow> current_pcb s;
     p \<leftarrow> pcb_at s a;
     if p_parent p = NULL then None
     else do {
       let s1 = (fold (ke_do_close E) [0..<FD_MAX] s)\<lparr>k_irq_disabled := True\<rparr>;
       s2 \<leftarrow> upd_pcb a (\<lambda>p. p\<lparr>p_state := PROC_STATE_ZOMBIE, p_exit_status := status\<rparr>) s1;
       s3 \<leftarrow> release_proc_pages E a (ke_serial_cleanup E s2);
       p3 \<leftarrow> pcb_at s3 a;
       pp \<leftarrow> pcb_at s3 (p_parent p3);
       Some (ke_thread_exit E (ke_do_kill E (p_pid pp) s3)) } }"

definition do_getpid :: "'m kstate \<Rightarrow> u32 option" where
  "do_getpid s = do { a \<leftarrow> current_pcb s; p \<leftarrow> pcb_at s a; Some (p_pid p) }"

section \<open>waitpid\<close>

text \<open>
  The call is split where it can block. \<open>waitpid_enter\<close> runs up to \<open>thread_join\<close>: it returns
  at once (\<open>Inl\<close> the result) or with the child to wait for, the pid and the saved flags.
\<close>

definition WIFEXITED_WORD :: u32 where "WIFEXITED_WORD = NOT 0x7f"

definition put_wstatus :: "addr \<Rightarrow> u32 \<Rightarrow> 'm kstate \<Rightarrow> 'm kstate" where
  "put_wstatus w v s = (if w \<noteq> NULL then put_user w v s else s)"

definition waitpid_enter ::
  "'m kenv \<Rightarrow> u32 \<Rightarrow> addr \<Rightarrow> u32 \<Rightarrow> 'm kstate \<Rightarrow> ((int + addr \<times> u32 \<times> bool) \<times> 'm kstate) option" where
  "waitpid_enter E pid wstatus options s =
     (let (flags, s0) = local_irq_save s;
          child = (if pid = - 1 then find_proc_zombie_to_clean s0 else find_proc_by_pid pid s0) in
      if child = NULL
      then (if pid = - 1
            then Some (Inl (- 1), local_irq_restore flags (set_errno (ke_ECHILD E) s0))
            else Some (Inl (- 1), set_errno (ke_ECHILD E) (put_wstatus wstatus WIFEXITED_WORD s0)))
      else do {
        c \<leftarrow> pcb_at s0 child;
        let pid' = (if pid = - 1 then p_pid c else pid);
        if options AND ke_WNOHANG E \<noteq> 0 \<and> p_state c \<noteq> PROC_STATE_ZOMBIE then Some (Inl 0, s0)
        else do {
          s1 \<leftarrow> (if p_ptrace_pending_req c \<noteq> PTRACE_NO_REQUEST \<and> p_ptrace_pending_req c \<noteq> PTRACE_TRACEME
                 then do {
                   s' \<leftarrow> upd_pcb child (\<lambda>p. p\<lparr>p_state := PROC_STATE_READY\<rparr>) s0;
                   Some (ke_ready E (p_main_thread c) s') }
                 else Some s0);
          Some (Inr (child, pid', flags), s1) } })"

text \<open>The exit status as the parent reads it; plain \<open>char\<close> is unsigned on ARM.\<close>

definition status_byte :: "pcb \<Rightarrow> u32" where
  "status_byte c = push_bit 8 (ucast (ucast (p_exit_status c) :: u8))"

definition reap_child ::
  "'m kenv \<Rightarrow> addr \<Rightarrow> pcb \<Rightarrow> addr \<Rightarrow> u32 \<Rightarrow> 'm kstate \<Rightarrow> 'm kstate option" where
  "reap_child E child c wstatus word s = do {
     mm \<leftarrow> ke_reset_root_pgtable E (p_pgtable c) True (k_mm s);
     let s1 = put_wstatus wstatus word (s\<lparr>k_mm := mm\<rparr>);
     if find_proc_by_parent child s1 = NULL then Some (remove_proc child s1) else Some s1 }"

definition waitpid_leave ::
  "'m kenv \<Rightarrow> addr \<Rightarrow> u32 \<Rightarrow> addr \<Rightarrow> bool \<Rightarrow> 'm kstate \<Rightarrow> (int \<times> 'm kstate) option" where
  "waitpid_leave E child pid wstatus flags s = do {
     c \<leftarrow> pcb_at s child;
     s1 \<leftarrow> (if p_state c = PROC_STATE_ZOMBIE \<and> p_ptrace_pending_req c = PTRACE_NO_REQUEST
            then reap_child E child c wstatus (status_byte c) s
            else if p_ptrace_pending_req c \<noteq> PTRACE_NO_REQUEST
            then do {
              s' \<leftarrow> upd_pcb child (\<lambda>p. p\<lparr>p_ptrace_pending_req := PTRACE_NO_REQUEST\<rparr>) s;
              Some (put_wstatus wstatus (0x17f OR status_byte c) s') }
            else reap_child E child c wstatus (WIFEXITED_WORD OR status_byte c) s);
     Some (sint pid, local_irq_restore flags s1) }"

definition do_waitpid ::
  "'m kenv \<Rightarrow> u32 \<Rightarrow> addr \<Rightarrow> u32 \<Rightarrow> 'm kstate \<Rightarrow> (int \<times> 'm kstate) option" where
  "do_waitpid E pid wstatus options s = do {
     (r, s1) \<leftarrow> waitpid_enter E pid wstatus options s;
     case r of
       Inl v \<Rightarrow> Some (v, s1)
     | Inr (child, pid', flags) \<Rightarrow> do {
         c \<leftarrow> pcb_at s1 child;
         let s2 = (if p_state c \<noteq> PROC_STATE_WAITING
                   then ke_thread_join E (p_main_thread c) s1 else s1);
         waitpid_leave E child pid' wstatus flags s2 } }"

section \<open>sbrk and renice\<close>

definition do_sbrk :: "'m kenv \<Rightarrow> u32 \<Rightarrow> 'm kstate \<Rightarrow> (int \<times> 'm kstate) option" where
  "do_sbrk E increment s = do {
     a \<leftarrow> current_pcb s;
     if a = NULL then Some (- 1, set_errno (ke_ESRCH E) s)
     else do {
       p \<leftarrow> pcb_at s a;
       let ret_pointer = p_heap_pointer p;
       let cur_sz = p_heap_pointer p - p_heap_base p;
       let req_sz = cur_sz + increment;
       if sint req_sz \<ge> ke_HEAP_SIZE E \<or> sint req_sz < 0
       then Some (- 1, set_errno (ke_ENOMEM E) s)
       else do {
         s' \<leftarrow> upd_pcb a (\<lambda>p. p\<lparr>p_heap_pointer := p_heap_pointer p + increment\<rparr>) s;
         Some (sint ret_pointer, s') } } }"

definition do_renice :: "u32 \<Rightarrow> u32 \<Rightarrow> 'm kstate \<Rightarrow> (int \<times> 'm kstate) option" where
  "do_renice pid new_prio s =
     (if new_prio = 0 then Some (- 1, klog RenicePriorityZero s)
      else let proc = find_proc_by_pid pid s in
        if proc \<noteq> NULL
        then do {
          p \<leftarrow> pcb_at s proc;
          t \<leftarrow> k_tcbs s (p_main_thread p);
          Some (0, klog (ReniceDone pid new_prio)
                 (s\<lparr>k_tcbs := (k_tcbs s)(p_main_thread p \<mapsto> t\<lparr>t_prio := new_prio\<rparr>)\<rparr>)) }
        else Some (0, klog (ReniceNotFound pid) s))"

section \<open>Dumps\<close>

definition dump_procname :: "string \<Rightarrow> 'm kstate \<Rightarrow> 'm kstate" where
  "dump_procname str s =
     fold (\<lambda>(a, p). klog (ProcName str (p_name p))) (k_procs s) (klog ProcListHeader s)"

fun dump_proc_loop :: "(addr \<times> pcb) list \<Rightarrow> 'm kstate \<Rightarrow> 'm kstate option" where
  "dump_proc_loop [] s = Some s"
| "dump_proc_loop ((a, p) # ps) s = do {
     let tid = (if p_main_thread p \<noteq> NULL then map_option t_tid (k_tcbs s (p_main_thread p))
                else Some (- 1));
     n \<leftarrow> tid;
     t \<leftarrow> k_tcbs s (p_main_thread p);
     dump_proc_loop ps (klog (ProcLine (p_pid p) (p_state p) n (t_name t)) s) }"

definition dump_proc :: "'m kstate \<Rightarrow> 'm kstate option" where
  "dump_proc s = dump_proc_loop (k_procs s) (klog ProcListHeader s)"

definition dump_proc_pages :: "addr \<Rightarrow> 'm kstate \<Rightarrow> 'm kstate option" where
  "dump_proc_pages a s = do {
     p \<leftarrow> pcb_at s a;
     Some (fold (\<lambda>pg s. klog (PageLine pg (k_refcount s pg)) s) (p_page_list p)
             (klog (PagesHeader (p_pid p)) s)) }"

text \<open>\<open>do_ps\<close> returns from the middle of its loop when a process has no other thread.\<close>

fun ps_threads :: "addr list \<Rightarrow> 'm kstate \<Rightarrow> 'm kstate option" where
  "ps_threads [] s = Some s"
| "ps_threads (t # ts) s = do {
     tc \<leftarrow> k_tcbs s t;
     ps_threads ts (klog (PsOther (t_tid tc) (t_priority tc) (t_name tc)) s) }"

fun ps_loop :: "(addr \<times> pcb) list \<Rightarrow> 'm kstate \<Rightarrow> 'm kstate option" where
  "ps_loop [] s = Some (klog PsSeparator s)"
| "ps_loop ((a, p) # ps) s = do {
     m \<leftarrow> k_tcbs s (p_main_thread p);
     let s1 = klog (PsMain (p_pid p) (t_tid m) (t_priority m) (t_name m)) s;
     if p_threads p = [] then Some (klog PsSeparator s1)
     else do { s2 \<leftarrow> ps_threads (p_threads p) s1; ps_loop ps s2 } }"

definition do_ps :: "'m kstate \<Rightarrow> 'm kstate option" where
  "do_ps s =
     (let s0 = klog PsSeparator s in
      if k_procs s = [] then Some (klog PsSeparator (klog PsEmpty s0)) else ps_loop (k_procs s) s0)"

lemma current_pcb_frame [simp]:
  "current_pcb (s\<lparr>k_irq_disabled := i\<rparr>) = current_pcb s"
  "current_pcb (s\<lparr>k_procs := ps\<rparr>) = current_pcb s"
  by (simp_all add: current_pcb_def)

section \<open>What the handlers rely on\<close>

text \<open>
  The part of a PCB the layers below the process calls never touch: everything but the thread
  fields, the stack slots and the page list.
\<close>

definition pcb_core :: "pcb \<Rightarrow> pcb" where
  "pcb_core p = p\<lparr>p_stack_slotID := [], p_threads := [], p_main_thread := NULL, p_page_list := []\<rparr>"

definition core_view :: "'m kstate \<Rightarrow> (addr \<times> pcb) list" where
  "core_view s = map (\<lambda>(a, p). (a, pcb_core p)) (k_procs s)"

definition same_core :: "'m kstate \<Rightarrow> 'm kstate \<Rightarrow> bool" where
  "same_core s t \<longleftrightarrow>
     core_view t = core_view s \<and>
     k_pid_current t = k_pid_current s \<and> k_irq_disabled t = k_irq_disabled s \<and>
     k_current t = k_current s"

text \<open>The part of a PCB that tells how far a process has come: its state, status and pages.\<close>

definition life_view :: "'m kstate \<Rightarrow> (addr \<times> u32 \<times> addr \<times> proc_state_t \<times> u32 \<times> frame list) list" where
  "life_view s = map (\<lambda>(a, p). (a, p_pid p, p_parent p, p_state p, p_exit_status p, p_page_list p)) (k_procs s)"

definition same_life :: "'m kstate \<Rightarrow> 'm kstate \<Rightarrow> bool" where
  "same_life s t \<longleftrightarrow> life_view t = life_view s \<and> k_pid_current t = k_pid_current s"

text \<open>
  The documented behaviour of the layers outside the file. \<open>malloc\<close> returns \<open>NULL\<close> or an
  address that is in use by no PCB; the thread, memory and file layers keep the list of
  processes, their pids and parents; those called by fork keep the other PCB fields and the
  interrupt flag, and those at the end of exit keep state, exit status and pages.
\<close>

definition kenv_ok :: "'m kenv \<Rightarrow> bool" where
  "kenv_ok E \<longleftrightarrow>
     (\<forall>s. ke_malloc_pcb E s \<noteq> NULL \<longrightarrow> ke_malloc_pcb E s \<notin> fst ` set (k_procs s)) \<and>
     (\<forall>a b s t. ke_duplicate_user_space E a b s = Some t \<longrightarrow> same_core s t) \<and>
     (\<forall>f n a b s. same_core s (snd (ke_user_thread E f n a b s))) \<and>
     (\<forall>a b s. same_core s (ke_copy_context E a b s)) \<and>
     (\<forall>s. same_core s (ke_raise_softirq E s)) \<and>
     (\<forall>a s. same_procs s (ke_ready E a s)) \<and>
     (\<forall>s. same_life s (ke_thread_exit E s)) \<and>
     (\<forall>i s. same_procs s (ke_do_close E i s)) \<and>
     (\<forall>s. same_life s (ke_serial_cleanup E s)) \<and>
     (\<forall>i s. same_life s (ke_do_kill E i s))"

lemma same_core_refl [simp]: "same_core s s"
  by (simp add: same_core_def)

lemma same_core_trans: "same_core s t \<Longrightarrow> same_core t u \<Longrightarrow> same_core s u"
  by (simp add: same_core_def)

lemma pcb_core_fields [simp]:
  "p_pid (pcb_core p) = p_pid p" "p_parent (pcb_core p) = p_parent p"
  "p_state (pcb_core p) = p_state p" "p_heap_base (pcb_core p) = p_heap_base p"
  "p_heap_pointer (pcb_core p) = p_heap_pointer p" "p_stack_top (pcb_core p) = p_stack_top p"
  "p_page_count (pcb_core p) = p_page_count p" "p_fd_array (pcb_core p) = p_fd_array p"
  "p_name (pcb_core p) = p_name p" "p_pgtable (pcb_core p) = p_pgtable p"
  by (simp_all add: pcb_core_def)

lemma map_of_core: "map_of (map (\<lambda>(a, p). (a, pcb_core p)) xs) a = map_option pcb_core (map_of xs a)"
  by (induction xs) auto

lemma same_core_pcb: "same_core s t \<Longrightarrow> map_option pcb_core (pcb_at t a) = map_option pcb_core (pcb_at s a)"
  unfolding same_core_def pcb_at_def core_view_def by (metis map_of_core)

lemma skel_core_view: "skel s = map (\<lambda>(a, p). (a, p_pid p, p_parent p)) (core_view s)"
  by (simp add: skel_def core_view_def split_def comp_def)

lemma skel_life_view: "skel s = map (\<lambda>(a, i, q, r). (a, i, q)) (life_view s)"
  by (simp add: skel_def life_view_def split_def comp_def)

lemma same_life_procs: "same_life s t \<Longrightarrow> same_procs s t"
  by (simp add: same_life_def same_procs_def skel_life_view)

lemma life_view_pcb:
  "map_of (life_view s) a = map_option
     (\<lambda>p. (p_pid p, p_parent p, p_state p, p_exit_status p, p_page_list p)) (pcb_at s a)"
proof -
  have "map_of (map (\<lambda>(a, p). (a, p_pid p, p_parent p, p_state p, p_exit_status p, p_page_list p)) xs) a =
    map_option (\<lambda>p. (p_pid p, p_parent p, p_state p, p_exit_status p, p_page_list p)) (map_of xs a)" for xs
    by (induction xs) auto
  then show ?thesis by (simp add: life_view_def pcb_at_def)
qed

lemma same_life_Some:
  assumes "same_life s t" and "pcb_at s a = Some p"
  obtains q where "pcb_at t a = Some q" "p_state q = p_state p" "p_exit_status q = p_exit_status p"
    "p_page_list q = p_page_list p" "p_pid q = p_pid p" "p_parent q = p_parent p"
  using life_view_pcb[of t a] life_view_pcb[of s a] assms that
  by (cases "pcb_at t a") (auto simp: same_life_def)

lemma core_view_pcb: "map_of (core_view s) a = map_option pcb_core (pcb_at s a)"
  by (simp add: core_view_def map_of_core pcb_at_def)

lemma same_core_procs: "same_core s t \<Longrightarrow> same_procs s t"
  by (simp add: same_core_def same_procs_def skel_core_view)

lemma core_view_frame [simp]:
  "core_view (s\<lparr>k_irq_disabled := i\<rparr>) = core_view s"
  "core_view (klog e s) = core_view s"
  by (simp_all add: core_view_def)

lemma same_core_Some:
  assumes "same_core s t" and "pcb_at s a = Some p"
  obtains q where "pcb_at t a = Some q" "pcb_core q = pcb_core p"
  using same_core_pcb[OF assms(1), of a] assms(2) that by (cases "pcb_at t a") auto

lemma core_view_upd:
  assumes "upd_pcb a f s = Some t" and pres: "\<And>p. pcb_core (f p) = g (pcb_core p)"
  shows "core_view t = upd_entry a g (core_view s) \<and> k_pid_current t = k_pid_current s \<and>
    k_irq_disabled t = k_irq_disabled s \<and> k_current t = k_current s \<and> k_tcbs t = k_tcbs s"
proof -
  have "map (\<lambda>(a, p). (a, pcb_core p)) (upd_entry a f xs)
      = upd_entry a g (map (\<lambda>(a, p). (a, pcb_core p)) xs)" for xs
    by (induction xs) (auto simp: pres)
  with assms(1) show ?thesis by (auto simp: upd_pcb_Some core_view_def)
qed

section \<open>Effect of each operation on the skeleton\<close>

lemma new_process_effect:
  assumes "new_process E s = Some (a, t)"
  shows "a = ke_malloc_pcb E s \<and> a \<noteq> NULL \<and> k_pid_current t = k_pid_current s + 1 \<and>
    (\<exists>pgt. k_procs t = k_procs s @ [(a, fresh_pcb (k_pid_current s) pgt)]) \<and>
    k_irq_disabled t = k_irq_disabled s \<and> k_current t = k_current s \<and> k_tcbs t = k_tcbs s"
  using assms by (auto simp: new_process_def Let_def bind_eq_Some_conv split: if_splits)

lemma upd_last:
  assumes "k_procs s = ps @ [(a, p)]" and "a \<notin> fst ` set ps"
  shows "upd_pcb a f s = Some (s\<lparr>k_procs := ps @ [(a, f p)]\<rparr>)" and "pcb_at s a = Some p"
proof -
  have "map_of ps a = None" using assms(2) by (simp add: map_of_eq_None_iff)
  then show at: "pcb_at s a = Some p" by (simp add: pcb_at_def assms(1) map_add_Some_iff)
  then show "upd_pcb a f s = Some (s\<lparr>k_procs := ps @ [(a, f p)]\<rparr>)"
    by (simp add: upd_pcb_def assms upd_entry_append)
qed

lemma pcb_at_append:
  "k_procs t = k_procs s @ [(a, p)] \<Longrightarrow> pcb_at s b = Some q \<Longrightarrow> pcb_at t b = Some q"
  by (simp add: pcb_at_def map_add_Some_iff)

lemma duplicate_process_effect:
  assumes dup: "duplicate_process E parent s = Some (a, t)" and ok: "kenv_ok E"
    and pp: "pcb_at s parent = Some pp"
  shows "a \<noteq> NULL \<and> a \<notin> fst ` set (k_procs s) \<and> k_pid_current t = k_pid_current s + 1 \<and>
    k_irq_disabled t = k_irq_disabled s \<and> k_current t = k_current s \<and>
    (\<exists>p. k_procs t = k_procs s @ [(a, p)] \<and>
       p_pid p = k_pid_current s \<and> p_parent p = parent \<and>
       p_heap_base p = p_heap_base pp \<and> p_heap_pointer p = p_heap_pointer pp \<and>
       p_stack_top p = p_stack_top pp \<and> p_page_count p = p_page_count pp \<and>
       p_fd_array p = snd (ke_vfs_clone_fd E (p_fd_array pp) (replicate FD_MAX 0)) \<and>
       p_state p = PROC_STATE_NEW)"
proof -
  from dup obtain s1 where new: "new_process E s = Some (a, s1)"
    by (auto simp: duplicate_process_def bind_eq_Some_conv case_prod_unfold Let_def split: if_splits)
  from new_process_effect[OF new] obtain pgt where
    s1: "k_procs s1 = k_procs s @ [(a, fresh_pcb (k_pid_current s) pgt)]" "a \<noteq> NULL"
      "k_pid_current s1 = k_pid_current s + 1" "k_irq_disabled s1 = k_irq_disabled s"
      "k_current s1 = k_current s" "a = ke_malloc_pcb E s" by blast
  from s1(2,6) ok have fresh: "a \<notin> fst ` set (k_procs s)" by (simp add: kenv_ok_def)
  from pcb_at_append[OF s1(1) pp] have pp1: "pcb_at s1 parent = Some pp" .
  show ?thesis
    using dup[unfolded duplicate_process_def] s1 fresh
    by (auto simp: new pp1 upd_last[OF s1(1) fresh] upd_last[where ps = "k_procs s"] fresh_pcb_def
        split: prod.splits if_splits)
qed

text \<open>
  A successful fork, on the core view: the entries of the old table, unchanged, and the child.
\<close>

definition forked_pcb :: "'m kenv \<Rightarrow> 'm kstate \<Rightarrow> addr \<Rightarrow> pcb \<Rightarrow> pcb \<Rightarrow> bool" where
  "forked_pcb E s parent pp p \<longleftrightarrow>
     p_pid p = k_pid_current s \<and> p_parent p = parent \<and> p_state p = PROC_STATE_READY \<and>
     p_heap_base p = p_heap_base pp \<and> p_heap_pointer p = p_heap_pointer pp \<and>
     p_stack_top p = p_stack_top pp \<and> p_page_count p = p_page_count pp \<and>
     p_fd_array p = snd (ke_vfs_clone_fd E (p_fd_array pp) (replicate FD_MAX 0)) \<and>
     p_name p = child_name pp (k_pid_current s)"

lemma fork_body_Some:
  assumes "fork_body E s = Some (Some (parent, newp), t)"
  obtains pp s1 s2 np nm s3 s5 s7 where
      "current_pcb s = Some parent" and "pcb_at s parent = Some pp"
    and "k_current s = p_main_thread pp"
    and "duplicate_process E parent (s\<lparr>k_irq_disabled := True\<rparr>) = Some (newp, s1)"
    and "ke_duplicate_user_space E parent newp s1 = Some s2"
    and "pcb_at s2 newp = Some np"
    and "nm = child_name pp (p_pid np)"
    and "set_name newp nm s2 = Some s3"
    and "upd_pcb newp (\<lambda>p. p\<lparr>p_main_thread := fst (ke_user_thread E NULL nm (ke_args_base E) newp s3)\<rparr>)
           (snd (ke_user_thread E NULL nm (ke_args_base E) newp s3)) = Some s5"
    and "upd_pcb newp (\<lambda>p. p\<lparr>p_state := PROC_STATE_READY\<rparr>)
           (ke_copy_context E (fst (ke_user_thread E NULL nm (ke_args_base E) newp s3))
              (p_main_thread pp) s5) = Some s7"
    and "t = local_irq_restore (k_irq_disabled s) (ke_raise_softirq E s7)"
  using assms
  by (auto simp: fork_body_def local_irq_save_def Let_def bind_eq_Some_conv
      case_prod_unfold split: if_splits)

lemma fork_body_effect:
  assumes fork: "fork_body E s = Some (Some (parent, newp), t)" and ok: "kenv_ok E"
  shows "\<exists>pp np. current_pcb s = Some parent \<and> pcb_at s parent = Some pp \<and>
    newp \<noteq> NULL \<and> newp \<notin> fst ` set (k_procs s) \<and>
    core_view t = core_view s @ [(newp, pcb_core np)] \<and> forked_pcb E s parent pp np \<and>
    k_pid_current t = k_pid_current s + 1 \<and> k_irq_disabled t = k_irq_disabled s"
  using fork
proof (rule fork_body_Some)
  fix pp s1 s2 np nm s3 s5 s7
  assume cur: "current_pcb s = Some parent" and pp: "pcb_at s parent = Some pp"
    and dup: "duplicate_process E parent (s\<lparr>k_irq_disabled := True\<rparr>) = Some (newp, s1)"
    and dus: "ke_duplicate_user_space E parent newp s1 = Some s2"
    and np: "pcb_at s2 newp = Some np"
    and nm: "nm = child_name pp (p_pid np)"
    and s3: "set_name newp nm s2 = Some s3"
    and s5: "upd_pcb newp (\<lambda>p. p\<lparr>p_main_thread := fst (ke_user_thread E NULL nm (ke_args_base E) newp s3)\<rparr>)
           (snd (ke_user_thread E NULL nm (ke_args_base E) newp s3)) = Some s5"
    and s7: "upd_pcb newp (\<lambda>p. p\<lparr>p_state := PROC_STATE_READY\<rparr>)
           (ke_copy_context E (fst (ke_user_thread E NULL nm (ke_args_base E) newp s3))
              (p_main_thread pp) s5) = Some s7"
    and t: "t = local_irq_restore (k_irq_disabled s) (ke_raise_softirq E s7)"
  have pp0: "pcb_at (s\<lparr>k_irq_disabled := True\<rparr>) parent = Some pp" using pp by simp
  from duplicate_process_effect[OF dup ok pp0] obtain p where
    fresh: "newp \<noteq> NULL" "newp \<notin> fst ` set (k_procs s)"
    and s1: "k_pid_current s1 = k_pid_current s + 1" "k_procs s1 = k_procs s @ [(newp, p)]"
    and p: "forked_pcb E s parent pp (p\<lparr>p_name := child_name pp (k_pid_current s), p_state := PROC_STATE_READY\<rparr>)"
      "p_pid p = k_pid_current s"
    by (auto simp: forked_pcb_def)
  have v1: "core_view s1 = core_view s @ [(newp, pcb_core p)]" by (simp add: core_view_def s1)
  have c2: "same_core s1 s2" using ok dus by (auto simp: kenv_ok_def)
  then have v2: "core_view s2 = core_view s @ [(newp, pcb_core p)]"
    using v1 by (simp add: same_core_def)
  have notin: "newp \<notin> fst ` set (core_view s)" using fresh(2) by (force simp: core_view_def)
  have npid: "p_pid np = k_pid_current s"
  proof -
    have "map_of (core_view s2) newp = Some (pcb_core p)"
      using notin by (simp add: v2 map_add_Some_iff map_of_eq_None_iff)
    then have "pcb_core np = pcb_core p" using np by (simp add: core_view_pcb)
    from arg_cong[OF this, of p_pid] show ?thesis using p(2) by simp
  qed
  from s3 have u3: "upd_pcb newp (\<lambda>p. p\<lparr>p_name := nm\<rparr>) s2 = Some s3"
    by (simp add: set_name_def split: if_splits)
  note w3 = core_view_upd[OF u3, of "\<lambda>p. p\<lparr>p_name := nm\<rparr>"]
  note w5 = core_view_upd[OF s5, of "\<lambda>p. p"]
  note w7 = core_view_upd[OF s7, of "\<lambda>p. p\<lparr>p_state := PROC_STATE_READY\<rparr>"]
  have c4: "same_core s3 (snd (ke_user_thread E NULL nm (ke_args_base E) newp s3))"
    and c6: "same_core s5 (ke_copy_context E th a s5)" and c8: "same_core s7 (ke_raise_softirq E s7)" for th a
    using ok by (simp_all add: kenv_ok_def)
  have "core_view t = upd_entry newp (\<lambda>p. p\<lparr>p_state := PROC_STATE_READY\<rparr>)
      (upd_entry newp (\<lambda>p. p) (upd_entry newp (\<lambda>p. p\<lparr>p_name := nm\<rparr>) (core_view s2)))"
    using w3 w5 w7 c4 c6 c8 by (simp add: same_core_def t local_irq_restore_def pcb_core_def)
  then have "core_view t = core_view s @ [(newp, pcb_core (p\<lparr>p_name := nm, p_state := PROC_STATE_READY\<rparr>))]"
    by (simp add: v2 upd_entry_append notin pcb_core_def)
  moreover have "k_pid_current t = k_pid_current s + 1"
    using w3 w5 w7 c2 c4 c6 c8 s1 by (simp add: same_core_def t local_irq_restore_def pcb_core_def)
  ultimately show ?thesis
    using cur pp fresh p npid by (auto simp: t local_irq_restore_def nm)
qed

lemma find_proc_by_pid_skel:
  "find_proc_by_pid pid s = (case find (\<lambda>x. fst (snd x) = pid) (skel s) of None \<Rightarrow> NULL | Some x \<Rightarrow> fst x)"
proof -
  have "first_proc (\<lambda>p. p_pid p = pid) xs =
    (case find (\<lambda>x. fst (snd x) = pid) (map (\<lambda>(a, p). (a, p_pid p, p_parent p)) xs) of
       None \<Rightarrow> NULL | Some x \<Rightarrow> fst x)" for xs
    by (induction xs) auto
  then show ?thesis by (simp add: find_proc_by_pid_def skel_def)
qed

lemma skel_after_fork:
  assumes "core_view t = core_view s @ [(newp, pcb_core np)]"
  shows "skel t = skel s @ [(newp, p_pid np, p_parent np)]"
  using assms by (simp add: skel_core_view)

lemma kenv_ok_frames:
  assumes "kenv_ok E"
  shows "same_procs s (ke_ready E a s)" "same_procs s (ke_thread_exit E s)"
    "same_procs s (ke_do_close E i s)" "same_procs s (ke_serial_cleanup E s)"
    "same_procs s (ke_do_kill E p s)" "same_procs s (snd (ke_user_thread E f n b c s))"
  using assms by (simp_all add: kenv_ok_def same_core_procs same_life_procs)

lemma fork_body_inv:
  assumes fork: "fork_body E s = Some (r, t)" and ok: "kenv_ok E" and inv: "proc_inv s"
    and wrap: "k_pid_current s + 1 \<noteq> 0"
  shows "proc_inv t"
proof (cases r)
  case None
  with fork have "same_procs s t"
    by (auto simp: fork_body_def local_irq_save_def Let_def bind_eq_Some_conv case_prod_unfold
        same_procs_def skel_def split: if_splits)
  then show ?thesis using inv by (rule same_procs_inv)
next
  case (Some pn)
  obtain parent newp where r: "r = Some (parent, newp)" using Some by (cases pn) auto
  from fork_body_effect[OF fork[unfolded r] ok] obtain pp np where
    pp: "pcb_at s parent = Some pp" and fresh: "newp \<noteq> NULL" "newp \<notin> fst ` set (k_procs s)"
    and view: "core_view t = core_view s @ [(newp, pcb_core np)]"
    and np: "forked_pcb E s parent pp np" and pid: "k_pid_current t = k_pid_current s + 1"
    by blast
  have keys: "fst ` set (skel s) = fst ` set (k_procs s)"
    using map_fst_skel[of s] by (metis list.set_map)
  have "parent \<in> fst ` set (skel s)"
    using pp by (force simp: keys pcb_at_def dest: map_of_SomeD)
  then show ?thesis
    using skel_inv_append[of "skel s" "k_pid_current s" newp parent] inv wrap fresh keys np
    by (simp add: proc_inv_def pid skel_after_fork[OF view] forked_pcb_def)
qed

lemma fold_same_procs:
  assumes "\<And>x s. same_procs s (f x s)"
  shows "same_procs s (fold f xs s)"
proof (induction xs arbitrary: s)
  case (Cons x xs)
  have "same_procs s (f x s)" by (rule assms)
  also have "same_procs (f x s) (fold f xs (f x s))" by (rule Cons.IH)
  finally show ?case by simp
qed simp

lemma release_page_same_procs: "same_procs s (release_page E pg s)"
  by (simp add: release_page_def Let_def same_procs_def skel_def)

lemma release_proc_pages_same_procs:
  assumes "release_proc_pages E a s = Some t"
  shows "same_procs s t"
proof -
  from assms obtain p :: pcb where
    "upd_pcb a (\<lambda>p. p\<lparr>p_page_list := []\<rparr>) (fold (release_page E) (p_page_list p) s) = Some t"
    unfolding release_proc_pages_def by (rule bind_SomeE)
  then have "same_procs (fold (release_page E) (p_page_list p) s) t"
    by (rule upd_pcb_same_procs) simp
  with fold_same_procs[of "release_page E", OF release_page_same_procs] show ?thesis
    using same_procs_trans by blast
qed

lemma do_exit_same_procs:
  assumes ex: "do_exit E st s = Some t" and ok: "kenv_ok E"
  shows "same_procs s t"
proof -
  from ex obtain a s2 s3 pp where
    u2: "upd_pcb a (\<lambda>p. p\<lparr>p_state := PROC_STATE_ZOMBIE, p_exit_status := st\<rparr>)
          ((fold (ke_do_close E) [0..<FD_MAX] s)\<lparr>k_irq_disabled := True\<rparr>) = Some s2"
    and u3: "release_proc_pages E a (ke_serial_cleanup E s2) = Some s3"
    and t: "t = ke_thread_exit E (ke_do_kill E pp s3)"
    by (auto simp: do_exit_def bind_eq_Some_conv split: if_splits)
  have "same_procs s (fold (ke_do_close E) [0..<FD_MAX] s)"
    using fold_same_procs[of "ke_do_close E"] kenv_ok_frames(3)[OF ok] by blast
  also have "same_procs \<dots> ((fold (ke_do_close E) [0..<FD_MAX] s)\<lparr>k_irq_disabled := True\<rparr>)" by simp
  also have "same_procs \<dots> s2" by (rule upd_pcb_same_procs[OF u2]) simp
  also have "same_procs s2 (ke_serial_cleanup E s2)" by (rule kenv_ok_frames(4)[OF ok])
  also have "same_procs \<dots> s3" by (rule release_proc_pages_same_procs[OF u3])
  also have "same_procs s3 (ke_do_kill E pp s3)" by (rule kenv_ok_frames(5)[OF ok])
  also have "same_procs \<dots> t" unfolding t by (rule kenv_ok_frames(2)[OF ok])
  finally show ?thesis .
qed

lemma put_frame [simp]:
  "same_procs s (put_wstatus w v s)" "same_procs s (put_user a v s)"
  "same_procs s (local_irq_restore f s)" "k_procs (put_wstatus w v s) = k_procs s"
  "k_procs (local_irq_restore f s) = k_procs s" "pcb_at (put_wstatus w v s) = pcb_at s"
  "pcb_at (local_irq_restore f s) = pcb_at s"
  by (simp_all add: put_wstatus_def put_user_def local_irq_restore_def)

lemma waitpid_enter_same_procs:
  assumes "waitpid_enter E pid w opt s = Some (r, t)" and ok: "kenv_ok E"
  shows "same_procs s t"
proof -
  let ?s0 = "s\<lparr>k_irq_disabled := True\<rparr>"
  have up: "same_procs ?s0 (ke_ready E m u)"
    if "upd_pcb c (\<lambda>p. p\<lparr>p_state := PROC_STATE_READY\<rparr>) ?s0 = Some u" for c u m
    using upd_pcb_same_procs[OF that] kenv_ok_frames(1)[OF ok, of u m] same_procs_trans by simp blast
  have "same_procs ?s0 t"
    using assms(1) up
    by (auto simp: waitpid_enter_def local_irq_save_def Let_def bind_eq_Some_conv split: if_splits
        intro: same_procs_trans[OF set_errno_frame(2) put_frame(3)]
          same_procs_trans[OF put_frame(1) set_errno_frame(2)])
  then show ?thesis using same_procs_trans[OF same_procs_frame(1)] by blast
qed

lemma remove_childless_inv:
  assumes inv: "proc_inv s" and none: "find_proc_by_parent a s = NULL"
  shows "proc_inv (remove_proc a s)"
proof -
  have "\<forall>(b, i, q) \<in> set (skel s). q \<noteq> a"
    using by_parent.miss[OF inv none] proc_inv_pcb[OF inv] by (fastforce simp: skel_mem)
  then have "skel_inv (filter (\<lambda>x. fst x \<noteq> a) (skel s)) (k_pid_current s)"
    using inv unfolding proc_inv_def by (intro skel_inv_remove)
  moreover have "k_pid_current (remove_proc a s) = k_pid_current s" by (simp add: remove_proc_def)
  ultimately show ?thesis
    using proc_inv_keys[OF inv] by (simp add: proc_inv_def skel_remove_proc)
qed

lemma reap_child_inv:
  assumes "reap_child E child c w v s = Some t" and inv: "proc_inv s"
  shows "proc_inv t"
proof -
  from assms(1) obtain mm where
    t: "(let s1 = put_wstatus w v (s\<lparr>k_mm := mm\<rparr>) in
      if find_proc_by_parent child s1 = NULL then Some (remove_proc child s1) else Some s1) = Some t"
    unfolding reap_child_def by (rule bind_SomeE)
  have "proc_inv (put_wstatus w v (s\<lparr>k_mm := mm\<rparr>))"
    using same_procs_inv[OF same_procs_trans[OF same_procs_frame(5) put_frame(1)] inv] .
  then show ?thesis using t by (auto simp: Let_def remove_childless_inv split: if_splits)
qed

lemma waitpid_leave_inv:
  assumes lv: "waitpid_leave E child pid w f s = Some (r, t)" and inv: "proc_inv s"
  shows "proc_inv t"
proof -
  have ptrace: "proc_inv (put_wstatus w v s')"
    if "upd_pcb child (\<lambda>p. p\<lparr>p_ptrace_pending_req := PTRACE_NO_REQUEST\<rparr>) s = Some s'" for v s'
  proof -
    from upd_pcb_same_procs[OF that] have "same_procs s s'" by simp
    then show ?thesis using same_procs_trans[OF _ put_frame(1)] same_procs_inv inv by blast
  qed
  from lv show ?thesis
    unfolding waitpid_leave_def
  proof (elim bind_SomeE)
    fix c s1
    assume "(if p_state c = PROC_STATE_ZOMBIE \<and> p_ptrace_pending_req c = PTRACE_NO_REQUEST
          then reap_child E child c w (status_byte c) s
          else if p_ptrace_pending_req c \<noteq> PTRACE_NO_REQUEST
          then upd_pcb child (p_ptrace_pending_req_update (\<lambda>_. PTRACE_NO_REQUEST)) s \<bind>
               (\<lambda>s'. Some (put_wstatus w (383 OR status_byte c) s'))
          else reap_child E child c w (WIFEXITED_WORD OR status_byte c) s) = Some s1"
      and t: "Some (sint pid, local_irq_restore f s1) = Some (r, t)"
    then have "proc_inv s1"
      by (auto simp: reap_child_inv[OF _ inv] ptrace split: if_splits elim!: bind_SomeE)
    then show ?thesis using t same_procs_inv[OF put_frame(3)] by auto
  qed
qed

lemma do_sbrk_same_procs:
  assumes "do_sbrk E inc s = Some (r, t)"
  shows "same_procs s t"
  using assms upd_pcb_same_procs[of _ "\<lambda>p. p\<lparr>p_heap_pointer := p_heap_pointer p + inc\<rparr>" s t]
  by (auto simp: do_sbrk_def Let_def bind_eq_Some_conv split: if_splits)

lemma do_renice_same_procs: "do_renice pid prio s = Some (r, t) \<Longrightarrow> same_procs s t"
  by (auto simp: do_renice_def Let_def bind_eq_Some_conv same_procs_def skel_def klog_def split: if_splits)

lemma register_fd_same_procs:
  assumes "proc_register_fd E g s = Some (r, t)"
  shows "same_procs s t"
proof -
  have "same_procs s u" if "upd_pcb a (\<lambda>p. p\<lparr>p_fd_array := (p_fd_array p)[i := g]\<rparr>) s = Some u" for a i u
    using that by (rule upd_pcb_same_procs) simp
  then show ?thesis using assms
    by (auto simp: proc_register_fd_def Let_def bind_eq_Some_conv split: if_splits)
qed

section \<open>The interface of the handlers that keep the table\<close>

text \<open>
  All handlers but fork and the end of waitpid neither create nor remove a process. Whatever
  keeps the skeleton keeps the invariant and every search by pid.
\<close>

locale table_preserving =
  fixes run :: "'m kenv \<Rightarrow> 'a \<Rightarrow> 'm kstate \<Rightarrow> ('r \<times> 'm kstate) option"
  assumes keeps: "kenv_ok E \<Longrightarrow> run E x s = Some (r, t) \<Longrightarrow> same_procs s t"
begin

lemma inv: "kenv_ok E \<Longrightarrow> run E x s = Some (r, t) \<Longrightarrow> proc_inv s \<Longrightarrow> proc_inv t"
  using keeps same_procs_inv by blast

lemma find_stable:
  "kenv_ok E \<Longrightarrow> run E x s = Some (r, t) \<Longrightarrow> find_proc_by_pid pid t = find_proc_by_pid pid s"
  using keeps[of E x s r t] by (simp add: same_procs_def find_proc_by_pid_skel)

end

interpretation exit: table_preserving "\<lambda>E st s. map_option (Pair ()) (do_exit E st s)"
  by unfold_locales (auto intro: do_exit_same_procs)

interpretation sbrk: table_preserving do_sbrk
  by unfold_locales (auto intro: do_sbrk_same_procs)

interpretation renice: table_preserving "\<lambda>E (pid, prio) s. do_renice pid prio s"
  by unfold_locales (auto intro: do_renice_same_procs)

interpretation register_fd: table_preserving proc_register_fd
  by unfold_locales (auto intro: register_fd_same_procs)

interpretation wait_enter: table_preserving "\<lambda>E (pid, w, opt) s. waitpid_enter E pid w opt s"
  by unfold_locales (auto intro: waitpid_enter_same_procs)

end
