(* ===== verification/ArgsPage.thy ===== *)
theory ArgsPage
  imports CLib "HOL-Library.Monad_Syntax"
begin

text \<open>
  The page that carries the arguments and the environment of a program across \<open>execve\<close>:
  \<open>preserve_args_and_env\<close> and \<open>post_setup_image\<close> of \<open>so3/kernel/process.c\<close>. The page starts with the
  number of arguments, then come the addresses of the argument strings, those of the
  environment strings with a \<open>NULL\<close> at their end, and the strings.
\<close>

section \<open>Bytes in memory\<close>

text \<open>
  The bytes of a page by the offset from its start. The kernel's page is a block of \<open>page_size\<close> bytes: a write that
  leaves it has no result (\<open>None\<close>), as what lies there is the rest of the kernel's heap.
\<close>

type_synonym page = "nat \<Rightarrow> u8"

definition write_word :: "page \<Rightarrow> nat \<Rightarrow> u32 \<Rightarrow> page" where
  "write_word m a w = m(a := ucast w, a + 1 := ucast (drop_bit 8 w),
     a + 2 := ucast (drop_bit 16 w), a + 3 := ucast (drop_bit 24 w))"

definition read_word :: "page \<Rightarrow> nat \<Rightarrow> u32" where
  "read_word m a = ucast (m a) OR push_bit 8 (ucast (m (a + 1))) OR
     push_bit 16 (ucast (m (a + 2))) OR push_bit 24 (ucast (m (a + 3)))"

definition byte_of :: "char \<Rightarrow> u8" where
  "byte_of c = of_nat (ord c)"

fun write_bytes :: "page \<Rightarrow> nat \<Rightarrow> u8 list \<Rightarrow> page" where
  "write_bytes m a [] = m"
| "write_bytes m a (b # bs) = write_bytes (m(a := b)) (a + 1) bs"

text \<open>\<open>strcpy\<close> copies the final NUL too.\<close>

definition strcpy :: "page \<Rightarrow> nat \<Rightarrow> string \<Rightarrow> page" where
  "strcpy m a s = write_bytes m a (map byte_of s @ [0])"

text \<open>The writes into the block of \<open>page_size\<close> bytes.\<close>

definition put_word :: "nat \<Rightarrow> nat \<Rightarrow> u32 \<Rightarrow> page \<Rightarrow> page option" where
  "put_word page_size a w m = (if a + 4 \<le> page_size then Some (write_word m a w) else None)"

definition put_string :: "nat \<Rightarrow> nat \<Rightarrow> string \<Rightarrow> page \<Rightarrow> page option" where
  "put_string page_size a s m = (if a + length s + 1 \<le> page_size then Some (strcpy m a s) else None)"

section \<open>Saving the arguments\<close>

datatype args_error = ArgEINVAL | ArgENOMEM

text \<open>
  The loop that places strings: \<open>base\<close> is the address of the page, \<open>slot\<close> the offset of the next
  address, \<open>str\<close> the offset of the next string. The check comes after the copy.
\<close>

fun copy_strings :: "nat \<Rightarrow> addr \<Rightarrow> nat \<Rightarrow> nat \<Rightarrow> string list \<Rightarrow> page \<Rightarrow> (args_error + nat \<times> page) option" where
  "copy_strings page_size base slot str [] m = Some (Inr (str, m))"
| "copy_strings page_size base slot str (s # ss) m = do {
     m1 \<leftarrow> put_word page_size slot (base + of_nat str) m;
     m2 \<leftarrow> put_string page_size str s m1;
     let str' = str + length s + 1;
     if str' > page_size then Some (Inl ArgENOMEM)
     else copy_strings page_size base (slot + 4) str' ss m2 }"

text \<open>
  \<open>preserve_args_and_env\<close>, for the page that \<open>malloc\<close> returned at \<open>base\<close>, the name of the current
  process, and \<open>argc\<close>, \<open>argv\<close> and \<open>envp\<close> (\<open>None\<close> for \<open>NULL\<close>; the final \<open>NULL\<close> of an
  array is left out).
\<close>

definition args_header :: "nat \<Rightarrow> nat \<Rightarrow> string list option \<Rightarrow> (page \<times> nat) option" where
  "args_header page_size argc envp = do {
     let i = (if argc = 0 then 1 else argc);
     m0 \<leftarrow> put_word page_size 0 (of_nat i) (\<lambda>_. 0);
     let args_p = 4 + (if argc = 0 then 4 else 4 * argc);
     case envp of
       None \<Rightarrow> do { m1 \<leftarrow> put_word page_size args_p 0 m0; Some (m1, args_p + 4) }
     | Some es \<Rightarrow> Some (m0, args_p + 4 * (length es + 1)) }"

text \<open>The name of the process, when there is no argument; its copy is not followed by a check.\<close>

definition default_arg :: "nat \<Rightarrow> addr \<Rightarrow> string \<Rightarrow> nat \<Rightarrow> nat \<Rightarrow> page \<Rightarrow> (page \<times> nat) option" where
  "default_arg page_size base name argc str m =
     (if argc = 0 then do {
        m1 \<leftarrow> put_word page_size 4 (base + of_nat str) m;
        m2 \<leftarrow> put_string page_size str name m1;
        Some (m2, str + length name + 1) }
      else Some (m, str))"

definition preserve_args_and_env ::
  "nat \<Rightarrow> addr \<Rightarrow> string \<Rightarrow> nat \<Rightarrow> string list option \<Rightarrow> string list option \<Rightarrow> (args_error + page) option" where
  "preserve_args_and_env page_size base name argc argv envp =
     (if argc > 0 \<and> argv = None then Some (Inl ArgEINVAL)
      else do {
        (m1, args_str) \<leftarrow> args_header page_size argc envp;
        (m2, str) \<leftarrow> default_arg page_size base name argc args_str m1;
        r \<leftarrow> copy_strings page_size base 4 str (case argv of None \<Rightarrow> [] | Some xs \<Rightarrow> take argc xs) m2;
        case r of
          Inl e \<Rightarrow> Some (Inl e)
        | Inr (str', m3) \<Rightarrow>
            (case envp of
               None \<Rightarrow> Some (Inr m3)
             | Some es \<Rightarrow> map_option (map_sum id snd)
                 (copy_strings page_size base (4 + 4 * unat (read_word m3 0)) str' es m3)) })"

section \<open>Moving the page into the new image\<close>

text \<open>\<open>post_setup_image\<close>: the copy, and the addresses moved from \<open>base\<close> to \<open>args_base\<close>.\<close>

fun fix_args :: "addr \<Rightarrow> addr \<Rightarrow> nat \<Rightarrow> nat \<Rightarrow> page \<Rightarrow> page" where
  "fix_args base args_base slot 0 m = m"
| "fix_args base args_base slot (Suc n) m =
     fix_args base args_base (slot + 4) n (write_word m slot (read_word m slot - base + args_base))"

text \<open>The loop over the environment runs up to a \<open>NULL\<close>.\<close>

partial_function (option) fix_env :: "addr \<Rightarrow> addr \<Rightarrow> nat \<Rightarrow> page \<Rightarrow> page option" where
  "fix_env base args_base slot m =
     (if read_word m slot = 0 then Some m
      else fix_env base args_base (slot + 4) (write_word m slot (read_word m slot - base + args_base)))"

definition post_setup_image :: "nat \<Rightarrow> addr \<Rightarrow> addr \<Rightarrow> page \<Rightarrow> page \<Rightarrow> page option" where
  "post_setup_image page_size base args_base args_env old =
     (let m0 = (\<lambda>a. if a < page_size then args_env a else old a);
          argc = unat (read_word m0 0);
          m1 = fix_args base args_base 4 argc m0
      in fix_env base args_base (4 + 4 * argc) m1)"

section \<open>What the new program reads\<close>

definition string_at :: "page \<Rightarrow> nat \<Rightarrow> string \<Rightarrow> bool" where
  "string_at m a s \<longleftrightarrow> (\<forall>i < length s. m (a + i) = byte_of (s ! i)) \<and> m (a + length s) = 0"

text \<open>The addresses from \<open>slot\<close> on lead to the strings, which end within the page.\<close>

definition strings_at :: "nat \<Rightarrow> addr \<Rightarrow> page \<Rightarrow> nat \<Rightarrow> string list \<Rightarrow> bool" where
  "strings_at page_size base m slot ss \<longleftrightarrow>
     (\<forall>i < length ss. let a = unat (read_word m (slot + 4 * i) - base) in
        a + length (ss ! i) < page_size \<and> string_at m a (ss ! i))"

section \<open>Words and bytes\<close>

lemma read_write_word [simp]: "read_word (write_word m a w) a = w"
proof (rule bit_word_eqI)
  fix n assume "n < LENGTH(32)"
  then have "n < 8 \<or> 8 \<le> n \<and> n < 16 \<or> 16 \<le> n \<and> n < 24 \<or> 24 \<le> n \<and> n < 32" by auto
  then show "bit (read_word (write_word m a w) a) n = bit w n"
    by (elim disjE) (auto simp: read_word_def write_word_def bit_simps)
qed

lemma write_word_other: "b < a \<or> a + 4 \<le> b \<Longrightarrow> write_word m a w b = m b"
  by (auto simp: write_word_def)

lemma read_word_cong: "(\<And>i. i < 4 \<Longrightarrow> m (a + i) = m' (a + i)) \<Longrightarrow> read_word m a = read_word m' a"
proof -
  assume h: "\<And>i. i < 4 \<Longrightarrow> m (a + i) = m' (a + i)"
  have "m a = m' a" using h[of 0] by simp
  then show ?thesis using h[of 1] h[of 2] h[of 3] by (simp add: read_word_def)
qed

lemma read_write_other: "b + 4 \<le> a \<or> a + 4 \<le> b \<Longrightarrow> read_word (write_word m a w) b = read_word m b"
  by (rule read_word_cong) (auto simp: write_word_other)

lemma write_bytes_nth:
  "write_bytes m a bs b = (if a \<le> b \<and> b < a + length bs then bs ! (b - a) else m b)"
proof (induction bs arbitrary: m a)
  case (Cons x bs)
  then show ?case by (auto simp: Cons nth_Cons')
qed auto

lemma strcpy_other: "b < a \<or> a + length s + 1 \<le> b \<Longrightarrow> strcpy m a s b = m b"
  by (auto simp: strcpy_def write_bytes_nth)

lemma strcpy_string: "string_at (strcpy m a s) a s"
  by (auto simp: string_at_def strcpy_def write_bytes_nth nth_append)

lemma string_at_cong: "(\<And>b. a \<le> b \<Longrightarrow> b \<le> a + length s \<Longrightarrow> m' b = m b) \<Longrightarrow> string_at m a s \<Longrightarrow> string_at m' a s"
  by (auto simp: string_at_def)

section \<open>What the loops write\<close>

text \<open>The offset of the \<open>i\<close>-th of the strings placed from \<open>str\<close> on.\<close>

definition str_off :: "nat \<Rightarrow> string list \<Rightarrow> nat \<Rightarrow> nat" where
  "str_off str ss i = str + sum_list (map (\<lambda>s. length s + 1) (take i ss))"

lemma str_off_0 [simp]: "str_off str ss 0 = str"
  by (simp add: str_off_def)

lemma str_off_Suc [simp]: "str_off str (s # ss) (Suc i) = str_off (str + length s + 1) ss i"
  by (simp add: str_off_def)

lemma str_off_ge: "str \<le> str_off str ss i"
  by (simp add: str_off_def)

lemma str_off_end: "i < length ss \<Longrightarrow> str_off str ss i + length (ss ! i) + 1 \<le> str_off str ss (length ss)"
proof (induction ss arbitrary: i str)
  case (Cons s ss)
  then show ?case using str_off_ge[of "str + length s + 1" ss "length ss"] by (cases i) auto
qed simp

text \<open>The strings are placed when they fit; when they do not, a copy leaves the page before the check sees it.\<close>

lemma copy_strings_fits:
  "str_off str ss (length ss) \<le> page_size \<Longrightarrow> slot + 4 * length ss \<le> str \<Longrightarrow>
   \<exists>m'. copy_strings page_size base slot str ss m = Some (Inr (str_off str ss (length ss), m')) \<and>
     (\<forall>i < length ss. read_word m' (slot + 4 * i) = base + of_nat (str_off str ss i) \<and>
        string_at m' (str_off str ss i) (ss ! i)) \<and>
     (\<forall>b. (b < slot \<or> slot + 4 * length ss \<le> b) \<and> (b < str \<or> str_off str ss (length ss) \<le> b) \<longrightarrow> m' b = m b)"
proof (induction ss arbitrary: slot str m)
  case (Cons s ss)
  let ?m = "strcpy (write_word m slot (base + of_nat str)) str s"
  let ?str = "str + length s + 1"
  have fit: "str_off ?str ss (length ss) \<le> page_size" "slot + 4 + 4 * length ss \<le> ?str"
    using Cons.prems by simp_all
  from Cons.IH[OF fit, of ?m] obtain m' where
    m': "copy_strings page_size base (slot + 4) ?str ss ?m = Some (Inr (str_off ?str ss (length ss), m'))"
    and get: "\<And>i. i < length ss \<Longrightarrow> read_word m' (slot + 4 + 4 * i) = base + of_nat (str_off ?str ss i) \<and>
        string_at m' (str_off ?str ss i) (ss ! i)"
    and fr: "\<And>b. (b < slot + 4 \<or> slot + 4 + 4 * length ss \<le> b) \<Longrightarrow> (b < ?str \<or> str_off ?str ss (length ss) \<le> b)
        \<Longrightarrow> m' b = ?m b" by blast
  have "?str \<le> page_size" using fit(1) str_off_ge[of ?str ss "length ss"] by linarith
  moreover have "slot + 4 \<le> str" using Cons.prems(2) by simp
  ultimately have "copy_strings page_size base slot str (s # ss) m = Some (Inr (str_off str (s # ss) (length (s # ss)), m'))"
    using m' by (simp add: Let_def put_word_def put_string_def)
  moreover have "read_word m' (slot + 4 * i) = base + of_nat (str_off str (s # ss) i) \<and>
      string_at m' (str_off str (s # ss) i) ((s # ss) ! i)" if "i < length (s # ss)" for i
  proof (cases i)
    case 0
    have "read_word m' slot = read_word ?m slot"
      by (rule read_word_cong) (use Cons.prems(2) in \<open>auto intro!: fr\<close>)
    also have "\<dots> = read_word (write_word m slot (base + of_nat str)) slot"
      by (rule read_word_cong) (use Cons.prems(2) in \<open>auto intro!: strcpy_other\<close>)
    finally have "read_word m' slot = base + of_nat str" by simp
    moreover have "string_at m' str s"
      by (rule string_at_cong[OF _ strcpy_string[of _ str s]]) (use Cons.prems(2) in \<open>auto intro!: fr\<close>)
    ultimately show ?thesis using 0 by simp
  next
    case (Suc k)
    then show ?thesis using get[of k] that by (simp add: add.assoc)
  qed
  moreover have "m' b = m b" if "(b < slot \<or> slot + 4 * length (s # ss) \<le> b) \<and>
      (b < str \<or> str_off str (s # ss) (length (s # ss)) \<le> b)" for b
  proof -
    have "m' b = ?m b" using that str_off_ge[of ?str ss "length ss"] by (intro fr) auto
    also have "\<dots> = write_word m slot (base + of_nat str) b"
      using that str_off_ge[of ?str ss "length ss"] by (intro strcpy_other) auto
    also have "\<dots> = m b" using that by (intro write_word_other) auto
    finally show ?thesis .
  qed
  ultimately show ?case by blast
qed simp

lemma copy_strings_full:
  "page_size < str_off str ss (length ss) \<Longrightarrow> ss \<noteq> [] \<or> str \<le> page_size \<Longrightarrow>
   copy_strings page_size base slot str ss m = None"
proof (induction ss arbitrary: slot str m)
  case (Cons s ss)
  then show ?case by (auto simp: Let_def put_word_def put_string_def)
qed simp

lemma copy_strings_no_error: "copy_strings page_size base slot str ss m \<noteq> Some (Inl e)"
  by (induction ss arbitrary: slot str m) (auto simp: Let_def put_word_def put_string_def)

text \<open>Moving the addresses.\<close>

lemma fix_args_other:
  "b < slot \<or> slot + 4 * n \<le> b \<Longrightarrow> fix_args base args_base slot n m b = m b"
proof (induction n arbitrary: slot m)
  case (Suc n)
  then have "fix_args base args_base slot (Suc n) m b = write_word m slot (read_word m slot - base + args_base) b"
    by auto
  also have "\<dots> = m b" using Suc.prems by (intro write_word_other) auto
  finally show ?case .
qed simp

lemma fix_args_word:
  "i < n \<Longrightarrow> read_word (fix_args base args_base slot n m) (slot + 4 * i) = read_word m (slot + 4 * i) - base + args_base"
proof (induction n arbitrary: slot m i)
  case (Suc n)
  let ?m = "write_word m slot (read_word m slot - base + args_base)"
  show ?case
  proof (cases i)
    case 0
    have "read_word (fix_args base args_base (slot + 4) n ?m) slot = read_word ?m slot"
      by (rule read_word_cong) (auto intro: fix_args_other)
    then show ?thesis using 0 by simp
  next
    case (Suc k)
    have "read_word (fix_args base args_base (slot + 4) n ?m) (slot + 4 + 4 * k)
        = read_word ?m (slot + 4 + 4 * k) - base + args_base"
      using Suc Suc.IH[of k "slot + 4" ?m] \<open>i < Suc n\<close> by simp
    also have "read_word ?m (slot + 4 + 4 * k) = read_word m (slot + 4 + 4 * k)"
      by (rule read_write_other) simp
    finally show ?thesis using Suc by (simp add: add.assoc)
  qed
qed simp

lemma fix_env_effect:
  "(\<And>i. i < n \<Longrightarrow> read_word m (slot + 4 * i) \<noteq> 0) \<Longrightarrow> read_word m (slot + 4 * n) = 0 \<Longrightarrow>
   fix_env base args_base slot m = Some (fix_args base args_base slot n m)"
proof (induction n arbitrary: slot m)
  case 0
  then show ?case by (subst fix_env.simps) simp
next
  case (Suc n)
  let ?m = "write_word m slot (read_word m slot - base + args_base)"
  have other: "read_word ?m (slot + 4 + 4 * k) = read_word m (slot + 4 * Suc k)" for k
    using read_write_other[of "slot + 4 + 4 * k" slot] by (simp add: add.assoc)
  have "read_word ?m (slot + 4 + 4 * i) \<noteq> 0" if "i < n" for i
    unfolding other using Suc.prems(1)[of "Suc i"] that by simp
  moreover have "read_word ?m (slot + 4 + 4 * n) = 0" unfolding other using Suc.prems(2) .
  ultimately have "fix_env base args_base (slot + 4) ?m = Some (fix_args base args_base (slot + 4) n ?m)"
    by (rule Suc.IH)
  moreover have "read_word m slot \<noteq> 0" using Suc.prems(1)[of 0] by simp
  ultimately show ?case by (subst fix_env.simps) simp
qed

section \<open>The layout of the page\<close>

definition env_list :: "string list option \<Rightarrow> string list" where
  "env_list envp = (case envp of None \<Rightarrow> [] | Some es \<Rightarrow> es)"

text \<open>The arguments the program gets: those given, or the name of the process.\<close>

definition arg_list :: "string \<Rightarrow> string list \<Rightarrow> string list" where
  "arg_list name args = (if args = [] then [name] else args)"

text \<open>Where the strings start, and the bytes all of it takes.\<close>

definition strings_start :: "string list \<Rightarrow> string list \<Rightarrow> nat" where
  "strings_start args es = 4 + 4 * length args + 4 * (length es + 1)"

definition args_size :: "string list \<Rightarrow> string list \<Rightarrow> nat" where
  "args_size args es = str_off (strings_start args es) (args @ es) (length (args @ es))"

lemma str_off_append:
  "str_off str (xs @ ys) (length xs + i) = str_off (str_off str xs (length xs)) ys i"
  by (simp add: str_off_def)

lemma str_off_append1: "i \<le> length xs \<Longrightarrow> str_off str (xs @ ys) i = str_off str xs i"
  by (simp add: str_off_def)

lemma read_word_zero [simp]: "read_word (\<lambda>_. 0) a = 0"
  by (simp add: read_word_def)

lemma preserve_layout:
  assumes fit: "args_size (arg_list name args) (env_list envp) \<le> page_size" and ps: "page_size < 2 ^ 32"
    and argv: "argv = Some args \<or> argv = None \<and> args = []"
  defines "xs \<equiv> arg_list name args" and "es \<equiv> env_list envp"
  shows "\<exists>m. preserve_args_and_env page_size base name (length args) argv envp = Some (Inr m) \<and>
    read_word m 0 = of_nat (length xs) \<and>
    (\<forall>i < length xs. read_word m (4 + 4 * i) = base + of_nat (str_off (strings_start xs es) (xs @ es) i) \<and>
       string_at m (str_off (strings_start xs es) (xs @ es) i) (xs ! i)) \<and>
    (\<forall>i < length es. read_word m (4 + 4 * length xs + 4 * i) =
         base + of_nat (str_off (strings_start xs es) (xs @ es) (length xs + i)) \<and>
       string_at m (str_off (strings_start xs es) (xs @ es) (length xs + i)) (es ! i)) \<and>
    read_word m (4 + 4 * length xs + 4 * length es) = 0"
proof -
  let ?S = "strings_start xs es"
  let ?m0 = "write_word (\<lambda>_. 0) 0 (of_nat (length xs) :: u32)"
  define m1 where "m1 = (if envp = None then write_word ?m0 (4 + 4 * length xs) 0 else ?m0)"
  have zero: "read_word m1 (4 + 4 * length xs + 4 * length es) = 0"
    by (cases envp) (simp_all add: m1_def es_def env_list_def read_write_other read_word_zero)
  have n0: "read_word m1 0 = of_nat (length xs)" by (simp add: m1_def read_write_other)
  let ?E = "str_off ?S xs (length xs)"
  have "str_off ?S (xs @ es) (length (xs @ es)) = str_off ?E es (length es)"
    using str_off_append[of ?S xs es "length es"] by simp
  then have fitE: "str_off ?E es (length es) \<le> page_size"
    using fit by (simp add: args_size_def xs_def es_def)
  then have fitA: "?E \<le> page_size" using str_off_ge[of ?E es "length es"] by linarith
  have slots: "4 + 4 * length xs \<le> ?S" "4 + 4 * length xs + 4 * length es \<le> ?E"
    using str_off_ge[of ?S xs "length xs"] by (simp_all add: strings_start_def)
  from copy_strings_fits[OF fitA slots(1), of base m1] obtain m2 where
    m2: "copy_strings page_size base 4 ?S xs m1 = Some (Inr (?E, m2))"
    and get2: "\<And>i. i < length xs \<Longrightarrow> read_word m2 (4 + 4 * i) = base + of_nat (str_off ?S xs i) \<and>
       string_at m2 (str_off ?S xs i) (xs ! i)"
    and fr2: "\<And>b. (b < 4 \<or> 4 + 4 * length xs \<le> b) \<Longrightarrow> (b < ?S \<or> ?E \<le> b) \<Longrightarrow> m2 b = m1 b" by blast
  have n2: "read_word m2 0 = of_nat (length xs)"
    using n0 read_word_cong[of m2 0 m1] fr2 by (simp add: strings_start_def)
  have "length xs < 2 ^ 32" using slots fitA ps by simp
  then have un: "unat (of_nat (length xs) :: u32) = length xs" by (simp add: unat_of_nat_u32)
  from copy_strings_fits[OF fitE slots(2), of base m2] obtain m3 where
    m3: "copy_strings page_size base (4 + 4 * length xs) ?E es m2 = Some (Inr (str_off ?E es (length es), m3))"
    and get3: "\<And>i. i < length es \<Longrightarrow> read_word m3 (4 + 4 * length xs + 4 * i) = base + of_nat (str_off ?E es i) \<and>
       string_at m3 (str_off ?E es i) (es ! i)"
    and fr3: "\<And>b. (b < 4 + 4 * length xs \<or> 4 + 4 * length xs + 4 * length es \<le> b) \<Longrightarrow>
       (b < ?E \<or> str_off ?E es (length es) \<le> b) \<Longrightarrow> m3 b = m2 b" by blast
  have "preserve_args_and_env page_size base name (length args) argv envp = Some (Inr m3)"
  proof -
    have env: "(case envp of None \<Rightarrow> Some (Inr m2)
        | Some es' \<Rightarrow> map_option (map_sum id snd) (copy_strings page_size base (4 + 4 * unat (read_word m2 0)) ?E es' m2)) = Some (Inr m3)"
    proof (cases envp)
      case None
      then have "m3 = m2" using m3 by (simp add: es_def env_list_def)
      then show ?thesis using None by simp
    next
      case (Some es')
      then show ?thesis using m3 n2 un by (simp add: es_def env_list_def)
    qed
    have "4 + 4 * length xs + 4 \<le> page_size" using slots fitA str_off_ge[of ?S xs "length xs"] by (simp add: strings_start_def)
    then have head: "args_header page_size (length args) envp = Some (m1, ?S)"
      by (cases envp) (simp_all add: args_header_def Let_def put_word_def m1_def strings_start_def xs_def arg_list_def es_def
          env_list_def split: if_splits)
    show ?thesis
    proof (cases "args = []")
      case True
      then have xs: "xs = [name]" by (simp add: xs_def arg_list_def)
      have none: "(case argv of None \<Rightarrow> [] | Some ys \<Rightarrow> take (length args) ys) = []"
        using True by (cases argv) simp_all
      have "copy_strings page_size base 4 ?S [name] m1 = Some (Inr (?E, m2))" using m2 by (simp only: xs)
      then have def: "default_arg page_size base name (length args) ?S m1 = Some (m2, ?E)"
        using True by (auto simp: default_arg_def put_word_def put_string_def Let_def split: if_splits)
      show ?thesis using env True unfolding preserve_args_and_env_def head none by (simp add: def[unfolded True, simplified])
    next
      case False
      then have xs: "xs = args" and argv': "argv = Some args" using argv by (auto simp: xs_def arg_list_def)
      show ?thesis unfolding preserve_args_and_env_def head
        using False env[unfolded xs] m2[unfolded xs] by (simp add: xs argv' default_arg_def)
    qed
  qed
  moreover have "read_word m3 0 = of_nat (length xs)"
    using n2 read_word_cong[of m3 0 m2] fr3 slots by simp
  moreover have "read_word m3 (4 + 4 * i) = base + of_nat (str_off ?S (xs @ es) i) \<and>
       string_at m3 (str_off ?S (xs @ es) i) (xs ! i)" if "i < length xs" for i
  proof -
    have "read_word m3 (4 + 4 * i) = read_word m2 (4 + 4 * i)"
      by (rule read_word_cong) (use that slots in \<open>auto intro!: fr3\<close>)
    moreover have "string_at m3 (str_off ?S xs i) (xs ! i)"
      by (rule string_at_cong[OF _ get2[OF that, THEN conjunct2]])
         (use str_off_end[OF that, of ?S] str_off_ge[of ?S xs i] that in \<open>auto intro!: fr3 simp: strings_start_def\<close>)
    ultimately show ?thesis using get2[OF that] that by (simp add: str_off_append1)
  qed
  moreover have "read_word m3 (4 + 4 * length xs + 4 * length es) = 0"
  proof -
    have "read_word m3 (4 + 4 * length xs + 4 * length es) = read_word m2 (4 + 4 * length xs + 4 * length es)"
      by (rule read_word_cong) (use slots str_off_ge[of ?S xs "length xs"] in \<open>auto intro!: fr3 simp: strings_start_def\<close>)
    also have "\<dots> = read_word m1 (4 + 4 * length xs + 4 * length es)"
      by (rule read_word_cong) (auto intro!: fr2 simp: strings_start_def)
    finally show ?thesis using zero by simp
  qed
  ultimately show ?thesis using get3 by (auto simp: str_off_append)
qed

lemma fix_args_string:
  "string_at m a s \<Longrightarrow> slot + 4 * n \<le> a \<Longrightarrow> string_at (fix_args base args_base slot n m) a s"
  by (erule string_at_cong[rotated]) (simp add: fix_args_other)

text \<open>An address within the page, seen from the page.\<close>

lemma unat_page_address:
  "unat (base :: u32) + k < 2 ^ 32 \<Longrightarrow> unat (base + of_nat k) = unat base + k"
  by (subst unat_plus_simple[THEN iffD1]) (simp_all add: unat_of_nat_u32 word_le_nat_alt unat_word_ariths)

text \<open>Both loops of \<open>post_setup_image\<close> together move every address and leave the strings alone.\<close>

lemma post_setup_image_moves:
  assumes argc: "read_word m 0 = of_nat n" "n < 2 ^ 32" and size: "4 + 4 * n + 4 * k + 4 \<le> page_size"
    and env: "\<And>i. i < k \<Longrightarrow> read_word m (4 + 4 * n + 4 * i) \<noteq> 0" "read_word m (4 + 4 * n + 4 * k) = 0"
  shows "\<exists>m'. post_setup_image page_size base args_base m old = Some m' \<and>
    read_word m' 0 = of_nat n \<and>
    (\<forall>i < n. read_word m' (4 + 4 * i) = read_word m (4 + 4 * i) - base + args_base) \<and>
    (\<forall>i < k. read_word m' (4 + 4 * n + 4 * i) = read_word m (4 + 4 * n + 4 * i) - base + args_base) \<and>
    (\<forall>b \<ge> 4 + 4 * n + 4 * k. m' b = (if b < page_size then m b else old b))"
proof -
  let ?m0 = "\<lambda>a. if a < page_size then m a else old a"
  let ?m1 = "fix_args base args_base 4 n ?m0"
  let ?m2 = "fix_args base args_base (4 + 4 * n) k ?m1"
  have m0: "read_word ?m0 a = read_word m a" if "a + 4 \<le> page_size" for a
    by (rule read_word_cong) (use that in auto)
  have m1: "read_word ?m1 (4 + 4 * n + 4 * i) = read_word m (4 + 4 * n + 4 * i)" if "i \<le> k" for i
  proof -
    have "read_word ?m1 (4 + 4 * n + 4 * i) = read_word ?m0 (4 + 4 * n + 4 * i)"
      by (rule read_word_cong, rule fix_args_other) simp
    then show ?thesis using m0 size that by simp
  qed
  have un: "unat (read_word ?m0 0) = n" using m0[of 0] argc size by (simp add: unat_of_nat_u32)
  have "fix_env base args_base (4 + 4 * n) ?m1 = Some ?m2"
    by (rule fix_env_effect) (simp_all add: m1 env)
  then have run: "post_setup_image page_size base args_base m old = Some ?m2"
    by (simp only: post_setup_image_def Let_def un)
  have m2: "read_word ?m2 a = read_word ?m1 a" if "a + 4 \<le> 4 + 4 * n" for a
    by (rule read_word_cong) (use that in \<open>auto intro!: fix_args_other\<close>)
  have "read_word ?m2 0 = read_word ?m0 0"
    using m2[of 0] read_word_cong[of ?m1 0 ?m0] by (simp add: fix_args_other)
  then have "read_word ?m2 0 = of_nat n" using m0[of 0] argc size by simp
  moreover have "read_word ?m2 (4 + 4 * i) = read_word m (4 + 4 * i) - base + args_base" if "i < n" for i
    using that size m2[of "4 + 4 * i"] fix_args_word[of i n base args_base 4 ?m0] m0[of "4 + 4 * i"] by simp
  moreover have "read_word ?m2 (4 + 4 * n + 4 * i) = read_word m (4 + 4 * n + 4 * i) - base + args_base"
    if "i < k" for i
    using fix_args_word[OF that, of base args_base "4 + 4 * n" ?m1] m1[of i] that by simp
  moreover have "?m2 b = ?m0 b" if "b \<ge> 4 + 4 * n + 4 * k" for b
    using that by (simp add: fix_args_other)
  ultimately show ?thesis using run by blast
qed

lemma args_roundtrip:
  assumes fit: "args_size (arg_list name args) (env_list envp) \<le> page_size"
    and page: "unat base + page_size < 2 ^ 32"
    and argv: "argv = Some args \<or> argv = None \<and> args = []"
  shows "\<exists>m m'. preserve_args_and_env page_size base name (length args) argv envp = Some (Inr m) \<and>
    post_setup_image page_size base args_base m old = Some m' \<and>
    read_word m' 0 = of_nat (length (arg_list name args)) \<and>
    strings_at page_size args_base m' 4 (arg_list name args) \<and>
    strings_at page_size args_base m' (4 + 4 * length (arg_list name args)) (env_list envp) \<and>
    read_word m' (4 + 4 * length (arg_list name args) + 4 * length (env_list envp)) = 0 \<and>
    (\<forall>b \<ge> page_size. m' b = old b)"
proof -
  define xs es where "xs = arg_list name args" and "es = env_list envp"
  define off where "off i = str_off (strings_start xs es) (xs @ es) i" for i
  have ps: "page_size < 2 ^ 32" using page by simp
  obtain m where pres: "preserve_args_and_env page_size base name (length args) argv envp = Some (Inr m)"
    and n: "read_word m 0 = of_nat (length xs)"
    and A: "\<And>i. i < length xs \<Longrightarrow> read_word m (4 + 4 * i) = base + of_nat (off i) \<and> string_at m (off i) (xs ! i)"
    and E: "\<And>i. i < length es \<Longrightarrow> read_word m (4 + 4 * length xs + 4 * i) = base + of_nat (off (length xs + i)) \<and>
       string_at m (off (length xs + i)) (es ! i)"
    and Z: "read_word m (4 + 4 * length xs + 4 * length es) = 0"
    using preserve_layout[OF fit ps argv, of base] unfolding xs_def[symmetric] es_def[symmetric] off_def by blast
  have start: "strings_start xs es \<le> off i" for i by (simp add: off_def str_off_ge)
  have stop: "off i + length ((xs @ es) ! i) + 1 \<le> page_size" if "i < length xs + length es" for i
    using str_off_end[of i "xs @ es" "strings_start xs es"] that fit
    unfolding off_def args_size_def xs_def[symmetric] es_def[symmetric] by simp
  have size: "strings_start xs es \<le> page_size"
    using fit str_off_ge[of "strings_start xs es" "xs @ es"]
    unfolding args_size_def xs_def[symmetric] es_def[symmetric] by (meson le_trans)
  have nz: "read_word m (4 + 4 * length xs + 4 * i) \<noteq> 0" if i: "i < length es" for i
  proof -
    have "unat (base + of_nat (off (length xs + i))) = unat base + off (length xs + i)"
      using stop[of "length xs + i"] i page by (intro unat_page_address) simp
    moreover have "0 < off (length xs + i)" using start[of "length xs + i"] by (simp add: strings_start_def)
    ultimately have "unat (base + of_nat (off (length xs + i))) \<noteq> 0" by linarith
    then have "base + of_nat (off (length xs + i)) \<noteq> 0" by (simp only: unat_eq_0 not_False_eq_True)
    then show ?thesis unfolding E[OF i, THEN conjunct1] .
  qed
  have len: "length xs < 2 ^ 32" using size ps by (simp add: strings_start_def)
  have "4 + 4 * length xs + 4 * length es + 4 \<le> page_size" using size by (simp add: strings_start_def)
  from post_setup_image_moves[OF n len this nz Z, of base args_base old]
  obtain m' where post: "post_setup_image page_size base args_base m old = Some m'"
    and n': "read_word m' 0 = of_nat (length xs)"
    and A': "\<And>i. i < length xs \<Longrightarrow> read_word m' (4 + 4 * i) = read_word m (4 + 4 * i) - base + args_base"
    and E': "\<And>i. i < length es \<Longrightarrow> read_word m' (4 + 4 * length xs + 4 * i)
        = read_word m (4 + 4 * length xs + 4 * i) - base + args_base"
    and fr: "\<And>b. 4 + 4 * length xs + 4 * length es \<le> b \<Longrightarrow> m' b = (if b < page_size then m b else old b)"
    by blast
  have str: "let a = unat (args_base + of_nat (off i) - args_base) in
      a + length s < page_size \<and> string_at m' a s"
    if "string_at m (off i) s" "s = (xs @ es) ! i" "i < length xs + length es" for i s
  proof -
    have "unat (args_base + of_nat (off i) - args_base) = off i"
      using stop[OF that(3)] ps by (simp add: unat_of_nat_u32)
    moreover have "string_at m' (off i) s"
      by (rule string_at_cong[OF _ that(1)]) (use start[of i] stop[OF that(3)] that(2) in \<open>simp add: fr strings_start_def\<close>)
    ultimately show ?thesis using stop[OF that(3)] that(2) by simp
  qed
  have "strings_at page_size args_base m' 4 xs" unfolding strings_at_def
  proof (intro allI impI)
    fix i assume i: "i < length xs"
    then show "let a = unat (read_word m' (4 + 4 * i) - args_base) in
        a + length (xs ! i) < page_size \<and> string_at m' a (xs ! i)"
      using str[OF A[OF i, THEN conjunct2]] i unfolding A'[OF i] A[OF i, THEN conjunct1] by (simp add: nth_append)
  qed
  moreover have "strings_at page_size args_base m' (4 + 4 * length xs) es" unfolding strings_at_def
  proof (intro allI impI)
    fix i assume i: "i < length es"
    then show "let a = unat (read_word m' (4 + 4 * length xs + 4 * i) - args_base) in
        a + length (es ! i) < page_size \<and> string_at m' a (es ! i)"
      using str[OF E[OF i, THEN conjunct2]] i unfolding E'[OF i] E[OF i, THEN conjunct1] by (simp add: nth_append)
  qed
  moreover have "read_word m' (4 + 4 * length xs + 4 * length es) = 0"
  proof -
    have "read_word m' (4 + 4 * length xs + 4 * length es) = read_word m (4 + 4 * length xs + 4 * length es)"
      by (rule read_word_cong) (use size in \<open>simp add: fr strings_start_def\<close>)
    then show ?thesis using Z by simp
  qed
  moreover have "\<forall>b \<ge> page_size. m' b = old b" using size by (simp add: fr strings_start_def)
  ultimately show ?thesis using pres post n' unfolding xs_def[symmetric] es_def[symmetric] by (intro exI conjI)
qed

text \<open>
  C12. Arguments and environment that fit a page survive \<open>execve\<close>: once \<open>preserve_args_and_env\<close> has
  saved them (the name of the process alone when there are no arguments) and \<open>post_setup_image\<close>
  has moved the page to the top of the new image, the new program finds their number, the
  address of every argument and every environment string in its own address space, the
  strings, and the final \<open>NULL\<close>; memory beyond the page is untouched.
\<close>

theorem exec_args_roundtrip:
  assumes fit: "args_size (arg_list name args) (env_list envp) \<le> page_size"
    and page: "unat base + page_size < 2 ^ 32"
    and argv: "argv = Some args \<or> argv = None \<and> args = []"
  shows "\<exists>m m'. preserve_args_and_env page_size base name (length args) argv envp = Some (Inr m) \<and>
    post_setup_image page_size base args_base m old = Some m' \<and>
    read_word m' 0 = of_nat (length (arg_list name args)) \<and>
    strings_at page_size args_base m' 4 (arg_list name args) \<and>
    strings_at page_size args_base m' (4 + 4 * length (arg_list name args)) (env_list envp) \<and>
    read_word m' (4 + 4 * length (arg_list name args) + 4 * length (env_list envp)) = 0 \<and>
    (\<forall>b \<ge> page_size. m' b = old b)"
  by (rule args_roundtrip[OF assms])

theorem exec_args_roundtrip_witness:
  "\<exists>m m'. preserve_args_and_env 64 0x4000 ''sh'' 2 (Some [''ls'', ''-l'']) (Some [''A=b'']) = Some (Inr m) \<and>
    post_setup_image 64 0x4000 0xBFFFF000 m (\<lambda>_. 9) = Some m' \<and>
    read_word m' 0 = 2 \<and> strings_at 64 0xBFFFF000 m' 4 [''ls'', ''-l''] \<and>
    strings_at 64 0xBFFFF000 m' 12 [''A=b''] \<and> read_word m' 16 = 0 \<and> (\<forall>b \<ge> 64. m' b = 9)"
  using exec_args_roundtrip[of "''sh''" "[''ls'', ''-l'']" "Some [''A=b'']" 64 "0x4000" "Some [''ls'', ''-l'']"
      "0xBFFFF000" "\<lambda>_. 9"]
  by (simp add: arg_list_def env_list_def args_size_def strings_start_def str_off_def flip: numeral_2_eq_2)

lemma preserve_too_big:
  assumes big: "page_size < args_size (arg_list name args) (env_list envp)"
    and argv: "argv = Some args \<or> argv = None \<and> args = []"
  shows "preserve_args_and_env page_size base name (length args) argv envp = None"
proof (cases "args_header page_size (length args) envp")
  case None
  then show ?thesis using argv by (auto simp: preserve_args_and_env_def)
next
  case (Some mS)
  define xs es where "xs = arg_list name args" and "es = env_list envp"
  let ?S = "strings_start xs es"
  let ?E = "str_off ?S xs (length xs)"
  obtain m1 where head: "args_header page_size (length args) envp = Some (m1, ?S)"
    using Some by (cases envp) (auto simp: args_header_def Let_def put_word_def strings_start_def xs_def arg_list_def es_def
        env_list_def split: if_splits)
  have tot: "page_size < str_off ?E es (length es)"
    using big str_off_append[of ?S xs es "length es"] by (simp add: args_size_def xs_def es_def)
  have ne: "xs \<noteq> []" by (simp add: xs_def arg_list_def)
  have slots: "4 + 4 * length xs \<le> ?S" by (simp add: strings_start_def)
  have rest: "(case envp of None \<Rightarrow> Some (Inr m3)
      | Some es \<Rightarrow> map_option (map_sum id snd) (copy_strings page_size base slot ?E es m3)) = None" if "?E \<le> page_size" for m3 slot
  proof -
    have "es \<noteq> []" using tot that by auto
    then have "envp = Some es" by (cases envp) (simp_all add: es_def env_list_def)
    moreover have "copy_strings page_size base slot ?E es m3 = None" using tot that by (intro copy_strings_full) auto
    ultimately show ?thesis by simp
  qed
  have copied: "copy_strings page_size base 4 ?S xs m1 = None \<or>
      (\<exists>m2. copy_strings page_size base 4 ?S xs m1 = Some (Inr (?E, m2)) \<and> ?E \<le> page_size)"
    using copy_strings_full[of page_size ?S xs base 4 m1] copy_strings_fits[of ?S xs page_size 4 base m1] slots ne
    by (cases "page_size < ?E") auto
  show ?thesis
  proof (cases "args = []")
    case True
    then have x: "xs = [name]" by (simp add: xs_def arg_list_def)
    have "default_arg page_size base name 0 ?S m1 = None \<or>
        (\<exists>m2. default_arg page_size base name 0 ?S m1 = Some (m2, ?E) \<and> ?E \<le> page_size)"
      using copied unfolding x by (auto simp: default_arg_def put_word_def put_string_def Let_def split: if_splits)
    moreover have "(case argv of None \<Rightarrow> [] | Some ys \<Rightarrow> take (length args) ys) = []" using True by (cases argv) simp_all
    ultimately show ?thesis using rest True unfolding preserve_args_and_env_def head by auto
  next
    case False
    then have "xs = args" "argv = Some args" using argv by (auto simp: xs_def arg_list_def)
    then show ?thesis using copied rest False unfolding preserve_args_and_env_def head by (auto simp: default_arg_def)
  qed
qed

text \<open>
  C37. The size check comes too late. Whatever the arguments and the environment, \<open>preserve_args_and_env\<close> saves them
  when the count, the two arrays of addresses and all strings take at most a page; otherwise a \<open>strcpy\<close>, or a write before it,
  leaves the page that \<open>malloc\<close> gave, whose check can only follow. \<open>ENOMEM\<close> is thus never returned with the heap
  intact: the one error of the function is \<open>EINVAL\<close>, for a count without arguments.
\<close>

theorem exec_args_size_check:
  assumes "page_size < 2 ^ 32" and "argv = Some args \<or> argv = None \<and> args = []"
  shows "(args_size (arg_list name args) (env_list envp) \<le> page_size \<longleftrightarrow>
      (\<exists>m. preserve_args_and_env page_size base name (length args) argv envp = Some (Inr m))) \<and>
    (page_size < args_size (arg_list name args) (env_list envp) \<longleftrightarrow>
      preserve_args_and_env page_size base name (length args) argv envp = None) \<and>
    (\<forall>argc argv' e. preserve_args_and_env page_size base name argc argv' envp = Some (Inl e) \<longleftrightarrow>
      e = ArgEINVAL \<and> 0 < argc \<and> argv' = None)"
proof -
  have left: "map_sum id snd x = Inl d \<longleftrightarrow> x = Inl d" for x :: "args_error + nat \<times> page" and d by (cases x) simp_all
  have errors: "preserve_args_and_env page_size base name argc argv' envp = Some (Inl e) \<longleftrightarrow>
      e = ArgEINVAL \<and> 0 < argc \<and> argv' = None" for argc argv' e
    by (auto simp: preserve_args_and_env_def copy_strings_no_error bind_eq_Some_conv map_option_case left
        split: option.splits sum.splits prod.splits)
  show ?thesis
  proof (cases "args_size (arg_list name args) (env_list envp) \<le> page_size")
    case True
    from preserve_layout[OF this assms, of base] show ?thesis using True errors by auto
  next
    case False
    then have "preserve_args_and_env page_size base name (length args) argv envp = None"
      using assms by (intro preserve_too_big) simp_all
    then show ?thesis using False errors by auto
  qed
qed

theorem exec_args_size_check_witness:
  "(\<exists>m. preserve_args_and_env 20 0x4000 ''sh'' 1 (Some [''ls'']) None = Some (Inr m)) \<and>
   preserve_args_and_env 20 0x4000 ''sh'' 1 (Some [''a long argument'']) None = None"
  using exec_args_size_check[of 20 "Some [''ls'']" "[''ls'']" "''sh''" None "0x4000"]
    exec_args_size_check[of 20 "Some [''a long argument'']" "[''a long argument'']" "''sh''" None "0x4000"]
  by (simp add: arg_list_def env_list_def args_size_def strings_start_def str_off_def)

end
