(* ===== verification/Exec.thy ===== *)
theory Exec
  imports KSys ArgsPage
begin

text \<open>
  Replacing the image of a process, \<open>so3/kernel/process.c\<close>: \<open>setup_proc_image_replace\<close>,
  \<open>load_process\<close> and \<open>do_execve\<close>. The ELF reader (\<open>elf.c\<close>, not in the repository) is a
  parameter that gives the parsed image of a file.
\<close>

section \<open>The ELF image\<close>

record elf_section =
  sh_name :: string
  sh_type :: u32
  sh_addr :: addr
  sh_offset :: u32
  sh_size :: u32

record elf_segment =
  ph_type :: u32
  ph_offset :: u32
  ph_memsz :: u32

text \<open>
  \<open>elf_img_info_t\<close>: the file with its sections and segments, in the order of the headers;
  \<open>segment_page_count\<close> is the number of pages of its loadable segments.
\<close>

record elf_img_info =
  e_entry :: addr
  e_sections :: "elf_section list"
  e_segments :: "elf_segment list"
  segment_page_count :: u32
  file_buffer :: "u32 \<Rightarrow> u8"

text \<open>
  What \<open>execve\<close> calls besides the functions of \<open>kenv\<close>: the ELF reader, the kernel heap for the
  page of the arguments (the address that \<open>malloc\<close> returns, \<open>NULL\<close> when it fails, and \<open>free\<close>),
  the bytes a process sees through freshly built page tables, and constants.
\<close>

record 'm xenv =
  xe_elf_load :: "string \<Rightarrow> 'm \<Rightarrow> (elf_img_info option \<times> 'm)"
  xe_elf_clean :: "'m \<Rightarrow> 'm"
  xe_malloc :: "'m \<Rightarrow> addr \<times> 'm"
  xe_free :: "addr \<Rightarrow> 'm \<Rightarrow> 'm"
  xe_user_bytes :: "'m \<Rightarrow> addr \<Rightarrow> u8"
  xe_flush_dcache :: "'m \<Rightarrow> 'm"
  xe_PT_LOAD :: u32
  xe_SHT_NOBITS :: u32
  xe_ENOENT :: u32
  xe_EINVAL :: u32

section \<open>Loading the sections\<close>

definition supported_section_names :: "string list" where
  "supported_section_names = [''.text'', ''.rodata'', ''.data'', ''.sbss'', ''.bss'', ''.scommon'']"

text \<open>\<open>memcpy\<close> from the file to the section's address.\<close>

definition copy_section :: "elf_img_info \<Rightarrow> elf_section \<Rightarrow> (addr \<Rightarrow> u8) \<Rightarrow> addr \<Rightarrow> u8" where
  "copy_section img sec mem a =
     (if a - sh_addr sec < sh_size sec then file_buffer img (sh_offset sec + (a - sh_addr sec)) else mem a)"

definition load_section :: "'m xenv \<Rightarrow> elf_img_info \<Rightarrow> elf_segment \<Rightarrow> elf_section \<Rightarrow> (addr \<Rightarrow> u8) \<Rightarrow> addr \<Rightarrow> u8" where
  "load_section X img seg sec mem =
     (let segment_start = ph_offset seg; segment_end = segment_start + ph_memsz seg;
          section_start = sh_offset sec; section_end = section_start + sh_size sec
      in if section_start < segment_start \<or> section_end > segment_end then mem
         else if sh_name sec \<notin> set supported_section_names then mem
         else if sh_type sec = xe_SHT_NOBITS X then mem
         else copy_section img sec mem)"

definition load_segment :: "'m xenv \<Rightarrow> elf_img_info \<Rightarrow> elf_segment \<Rightarrow> (addr \<Rightarrow> u8) \<Rightarrow> addr \<Rightarrow> u8" where
  "load_segment X img seg mem =
     (if ph_type seg \<noteq> xe_PT_LOAD X then mem else fold (load_section X img seg) (e_sections img) mem)"

definition load_process :: "'m xenv \<Rightarrow> elf_img_info \<Rightarrow> (addr \<Rightarrow> u8) \<Rightarrow> addr \<Rightarrow> u8" where
  "load_process X img mem = fold (load_segment X img) (e_segments img) mem"

section \<open>Setting up the new image\<close>

text \<open>
  \<open>preserve_args_and_env\<close> in the kernel: it allocates the page (\<open>BUG_ON\<close> without one), and on an
  error sets \<open>errno\<close>, frees the page and returns \<open>NULL\<close>.
\<close>

definition save_args ::
  "'m kenv \<Rightarrow> 'm xenv \<Rightarrow> string \<Rightarrow> nat \<Rightarrow> string list option \<Rightarrow> string list option \<Rightarrow> 'm kstate \<Rightarrow>
     ((addr \<times> page) option \<times> 'm kstate) option" where
  "save_args E X name argc argv envp s =
     (if argc > 0 \<and> argv = None then Some (None, set_errno (xe_EINVAL X) s)
      else case xe_malloc X (k_mm s) of (base, mm) \<Rightarrow>
        if base = NULL then None
        else (case preserve_args_and_env (unat (ke_PAGE_SIZE E)) base name argc argv envp of
            None \<Rightarrow> None
          | Some (Inl _) \<Rightarrow> Some (None, set_errno (ke_ENOMEM E) (s\<lparr>k_mm := xe_free X base mm\<rparr>))
          | Some (Inr m) \<Rightarrow> Some (Some (base, m), s\<lparr>k_mm := mm\<rparr>)))"

text \<open>
  The pages of the new image, up to the page of the arguments. The test of \<open>__args_env\<close> for a
  negative pointer is never true, so that an error of \<open>preserve_args_and_env\<close> is not noticed.
\<close>

definition new_image :: "'m kenv \<Rightarrow> elf_img_info \<Rightarrow> addr \<Rightarrow> 'm kstate \<Rightarrow> 'm kstate option" where
  "new_image E img a s = do {
     s1 \<leftarrow> upd_pcb a (reset_process_stack E) s;
     p1 \<leftarrow> pcb_at s1 a;
     mm \<leftarrow> ke_reset_root_pgtable E (p_pgtable p1) False (k_mm s1);
     s2 \<leftarrow> release_proc_pages E a (s1\<lparr>k_mm := mm\<rparr>);
     s3 \<leftarrow> allocate_page E a (p_stack_top p1 - p_page_count p1 * ke_PAGE_SIZE E) (unat (p_page_count p1)) s2;
     s4 \<leftarrow> upd_pcb a (\<lambda>p. p\<lparr>p_bin_image_entry := e_entry img,
              p_page_count := p_page_count p + segment_page_count img\<rparr>) s3;
     s5 \<leftarrow> allocate_page E a (e_entry img) (unat (segment_page_count img)) s4;
     let page_count = drop_bit (ke_PAGE_SHIFT E) (ke_ALIGN_UP E (of_int (ke_HEAP_SIZE E)) (ke_PAGE_SIZE E));
     s6 \<leftarrow> upd_pcb a (\<lambda>p. p\<lparr>p_heap_base := (p_page_count p + 1) * ke_PAGE_SIZE E,
              p_heap_pointer := (p_page_count p + 1) * ke_PAGE_SIZE E,
              p_page_count := p_page_count p + page_count\<rparr>) s5;
     p6 \<leftarrow> pcb_at s6 a;
     s7 \<leftarrow> allocate_page E a (p_heap_base p6) (unat page_count) s6;
     s8 \<leftarrow> upd_pcb a (\<lambda>p. p\<lparr>p_page_count := p_page_count p + 1\<rparr>) s7;
     allocate_page E a (ke_args_base E) 1 s8 }"

definition setup_proc_image_replace ::
  "'m kenv \<Rightarrow> 'm xenv \<Rightarrow> elf_img_info \<Rightarrow> addr \<Rightarrow> nat \<Rightarrow> string list option \<Rightarrow> string list option \<Rightarrow>
     'm kstate \<Rightarrow> ((addr \<Rightarrow> u8) \<times> 'm kstate) option" where
  "setup_proc_image_replace E X img a argc argv envp s = do {
     cur \<leftarrow> current_pcb s;
     c \<leftarrow> pcb_at s cur;
     (args_env, s1) \<leftarrow> save_args E X (p_name c) argc argv envp s;
     s2 \<leftarrow> new_image E img a s1;
     let mem = xe_user_bytes X (k_mm s2);
     case args_env of
       None \<Rightarrow> Some (mem, s2)
     | Some (base, m) \<Rightarrow> do {
         m' \<leftarrow> post_setup_image (unat (ke_PAGE_SIZE E)) base (ke_args_base E) m
                (\<lambda>i. mem (ke_args_base E + of_nat i));
         Some (\<lambda>v. m' (unat (v - ke_args_base E)), s2\<lparr>k_mm := xe_free X base (k_mm s2)\<rparr>) } }"

section \<open>execve\<close>

text \<open>
  The threads waiting for the old main thread move to the new one: at most one, and a thread
  of the parent.
\<close>

definition move_joiner :: "addr \<Rightarrow> addr \<Rightarrow> 'm kstate \<Rightarrow> 'm kstate option" where
  "move_joiner a main s = do {
     c \<leftarrow> k_tcbs s (k_current s);
     p \<leftarrow> pcb_at s a;
     case t_joinQueue c of
       [] \<Rightarrow> Some s
     | cur # rest \<Rightarrow> do {
         w \<leftarrow> k_tcbs s cur;
         if t_pcb w \<noteq> p_parent p then None
         else do {
           m \<leftarrow> k_tcbs s main;
           let s1 = s\<lparr>k_tcbs := (k_tcbs s)(k_current s \<mapsto> c\<lparr>t_joinQueue := rest\<rparr>,
                        main \<mapsto> m\<lparr>t_joinQueue := cur # t_joinQueue m\<rparr>)\<rparr>;
           if rest \<noteq> [] then None else Some s1 } } }"

text \<open>The end of \<open>do_execve\<close>: a new main thread at the entry point, and the end of the old one.\<close>

definition start_image :: "'m kenv \<Rightarrow> addr \<Rightarrow> 'm kstate \<Rightarrow> 'm kstate option" where
  "start_image E a s = do {
     p \<leftarrow> pcb_at s a;
     let (t, s1) = ke_user_thread E (p_bin_image_entry p) (p_name p) (ke_args_base E) a s;
     s2 \<leftarrow> upd_pcb a (\<lambda>p. p\<lparr>p_main_thread := t\<rparr>) s1;
     s3 \<leftarrow> move_joiner a t s2;
     c \<leftarrow> k_tcbs s3 (k_current s3);
     Some (ke_thread_exit E (s3\<lparr>k_tcbs := (k_tcbs s3)(k_current s3 \<mapsto> c\<lparr>t_pcb := NULL\<rparr>)\<rparr>)) }"

text \<open>
  \<open>do_execve\<close>: \<open>argv\<close> and \<open>envp\<close> are \<open>None\<close> for \<open>NULL\<close>. The result is that of the call and the user
  memory of the new image, \<open>None\<close> when there is none.
\<close>

definition count_args :: "string list option \<Rightarrow> nat" where
  "count_args argv = (case argv of None \<Rightarrow> 0 | Some args \<Rightarrow> length args)"

definition do_execve ::
  "'m kenv \<Rightarrow> 'm xenv \<Rightarrow> string \<Rightarrow> string list option \<Rightarrow> string list option \<Rightarrow> 'm kstate \<Rightarrow>
     (int \<times> (addr \<Rightarrow> u8) option \<times> 'm kstate) option" where
  "do_execve E X filename argv envp s = do {
     a \<leftarrow> current_pcb s;
     p \<leftarrow> pcb_at s a;
     if k_current s \<noteq> p_main_thread p then None
     else do {
       let (flags, s0) = local_irq_save s;
       s1 \<leftarrow> set_name a filename s0;
       case xe_elf_load X filename (k_mm s1) of
         (None, mm) \<Rightarrow> Some (- 1, None, set_errno (xe_ENOENT X) (local_irq_restore flags (s1\<lparr>k_mm := mm\<rparr>)))
       | (Some img, mm) \<Rightarrow> do {
           (mem, s2) \<leftarrow> setup_proc_image_replace E X img a (count_args argv) argv envp (s1\<lparr>k_mm := mm\<rparr>);
           let mem' = load_process X img mem;
           s3 \<leftarrow> start_image E a (s2\<lparr>k_mm := xe_elf_clean X (xe_flush_dcache X (k_mm s2))\<rparr>);
           Some (0, Some mem', s3) } } }"

section \<open>Handlers that change one PCB\<close>

text \<open>From \<open>s\<close> to \<open>t\<close> the PCB at \<open>a\<close> changes by \<open>f\<close>, and no other.\<close>

definition pcb_effect :: "addr \<Rightarrow> (pcb \<Rightarrow> pcb) \<Rightarrow> 'm kstate \<Rightarrow> 'm kstate \<Rightarrow> bool" where
  "pcb_effect a f s t \<longleftrightarrow> (\<forall>b. pcb_at t b = (if b = a then map_option f (pcb_at s b) else pcb_at s b))"

lemma pcb_effect_frame: "pcb_at t = pcb_at s \<Longrightarrow> pcb_effect a (\<lambda>p. p) s t"
  by (simp add: pcb_effect_def option.map_ident)

lemma pcb_effect_upd: "upd_pcb a f s = Some t \<Longrightarrow> pcb_effect a f s t"
  by (auto simp: upd_pcb_Some pcb_effect_def)

lemma pcb_effect_trans:
  "pcb_effect a f s t \<Longrightarrow> pcb_effect a g t u \<Longrightarrow> pcb_effect a (\<lambda>p. g (f p)) s u"
  by (auto simp: pcb_effect_def option.map_comp comp_def)

lemma allocate_page_effect:
  "allocate_page_loop E a v i n s = Some t \<Longrightarrow>
     same_procs s t \<and> (\<exists>fs. length fs = n \<and> pcb_effect a (\<lambda>p. p\<lparr>p_page_list := p_page_list p @ fs\<rparr>) s t)"
proof (induction E a v i n s rule: allocate_page_loop.induct)
  case (1 E a v i s)
  then show ?case by (auto intro: pcb_effect_frame)
next
  case (2 E a v i n s)
  obtain pg mm where g: "ke_get_free_page E (k_mm s) = (pg, mm)" by (cases "ke_get_free_page E (k_mm s)")
  from "2.prems" obtain p :: pcb and s2 mm1 where pg: "pg \<noteq> 0" and p: "pcb_at s a = Some p"
    and new: "ke_create_mapping E (p_pgtable p) (v + of_nat i * ke_PAGE_SIZE E) pg (ke_PAGE_SIZE E) False mm = Some mm1"
    and add: "add_page_to_proc E a pg (s\<lparr>k_mm := mm1\<rparr>) = Some s2"
    and rest: "allocate_page_loop E a v (Suc i) n s2 = Some t"
    by (auto simp: g Let_def split: if_splits elim!: bind_SomeE)
  have "same_procs s s2 \<and> pcb_effect a (\<lambda>p. p\<lparr>p_page_list := p_page_list p @ [pg]\<rparr>) s s2"
  proof -
    from add obtain s' where "upd_pcb a (\<lambda>p. p\<lparr>p_page_list := p_page_list p @ [pg]\<rparr>) s' = Some s2"
      and "k_procs s' = k_procs s" "k_pid_current s' = k_pid_current s"
      unfolding add_page_to_proc_def link_page_def by (elim bind_SomeE) auto
    then show ?thesis
      using upd_pcb_same_procs[of a "\<lambda>p. p\<lparr>p_page_list := p_page_list p @ [pg]\<rparr>" s' s2]
        pcb_effect_upd[of a "\<lambda>p. p\<lparr>p_page_list := p_page_list p @ [pg]\<rparr>" s' s2]
      by (simp add: same_procs_def skel_def pcb_effect_def pcb_at_def)
  qed
  moreover have "same_procs s2 t \<and> (\<exists>fs. length fs = n \<and>
      pcb_effect a (\<lambda>p. p\<lparr>p_page_list := p_page_list p @ fs\<rparr>) s2 t)"
    using "2.IH"[OF g[symmetric]] pg p new rest add by (auto simp: g)
  ultimately obtain fs where fs: "length fs = n" "same_procs s t"
    and eff: "pcb_effect a (\<lambda>p. p\<lparr>p_page_list := p_page_list p @ [pg]\<rparr>) s s2"
      "pcb_effect a (\<lambda>p. p\<lparr>p_page_list := p_page_list p @ fs\<rparr>) s2 t"
    using same_procs_trans by blast
  from pcb_effect_trans[OF eff] have "pcb_effect a (\<lambda>p. p\<lparr>p_page_list := p_page_list p @ (pg # fs)\<rparr>) s t"
    by simp
  with fs show ?case by (intro conjI exI[of _ "pg # fs"]) simp_all
qed

lemma release_proc_pages_effect:
  assumes "release_proc_pages E a s = Some t"
  shows "pcb_effect a (\<lambda>p. p\<lparr>p_page_list := []\<rparr>) s t"
proof -
  have fr: "pcb_at (fold (release_page E) xs u) = pcb_at u" for xs and u
    by (induction xs arbitrary: u) (simp_all add: release_page_def Let_def)
  show ?thesis
    using assms unfolding release_proc_pages_def
    by (elim bind_SomeE) (drule pcb_effect_upd, simp add: pcb_effect_def fr)
qed

section \<open>The new image\<close>

text \<open>The pages of the heap, and the PCB of a process whose image has been replaced.\<close>

definition heap_pages :: "'m kenv \<Rightarrow> u32" where
  "heap_pages E = drop_bit (ke_PAGE_SHIFT E) (ke_ALIGN_UP E (of_int (ke_HEAP_SIZE E)) (ke_PAGE_SIZE E))"

definition stack_pages :: "'m kenv \<Rightarrow> u32" where
  "stack_pages E = drop_bit (ke_PAGE_SHIFT E)
     (ke_ALIGN_UP E (of_nat PROC_THREAD_MAX * ke_THREAD_STACK_SIZE E) (ke_PAGE_SIZE E))"

definition image_pcb :: "'m kenv \<Rightarrow> elf_img_info \<Rightarrow> frame list \<Rightarrow> pcb \<Rightarrow> pcb" where
  "image_pcb E img fs p = p\<lparr>p_stack_top := ke_args_base E, p_bin_image_entry := e_entry img,
     p_heap_base := (stack_pages E + segment_page_count img + 1) * ke_PAGE_SIZE E,
     p_heap_pointer := (stack_pages E + segment_page_count img + 1) * ke_PAGE_SIZE E,
     p_page_count := stack_pages E + segment_page_count img + heap_pages E + 1,
     p_page_list := fs\<rparr>"

lemma new_image_effect:
  assumes "new_image E img a s = Some t"
  shows "\<exists>fs. length fs = unat (stack_pages E) + unat (segment_page_count img) + unat (heap_pages E) + 1 \<and>
    same_procs s t \<and> pcb_effect a (image_pcb E img fs) s t"
  using assms unfolding new_image_def Let_def heap_pages_def[symmetric] allocate_page_def
proof (elim bind_SomeE)
  fix s1 p1 mm s2 s3 s4 s5 s6 p6 s7 s8
  assume u1: "upd_pcb a (reset_process_stack E) s = Some s1" and p1: "pcb_at s1 a = Some p1"
    and rel: "release_proc_pages E a (s1\<lparr>k_mm := mm\<rparr>) = Some s2"
    and al1: "allocate_page_loop E a (p_stack_top p1 - p_page_count p1 * ke_PAGE_SIZE E) 0
        (unat (p_page_count p1)) s2 = Some s3"
    and u4: "upd_pcb a (\<lambda>p. p\<lparr>p_bin_image_entry := e_entry img,
        p_page_count := p_page_count p + segment_page_count img\<rparr>) s3 = Some s4"
    and al2: "allocate_page_loop E a (e_entry img) 0 (unat (segment_page_count img)) s4 = Some s5"
    and u6: "upd_pcb a (\<lambda>p. p\<lparr>p_heap_base := (p_page_count p + 1) * ke_PAGE_SIZE E,
        p_heap_pointer := (p_page_count p + 1) * ke_PAGE_SIZE E,
        p_page_count := p_page_count p + heap_pages E\<rparr>) s5 = Some s6"
    and al3: "allocate_page_loop E a (p_heap_base p6) 0 (unat (heap_pages E)) s6 = Some s7"
    and u8: "upd_pcb a (\<lambda>p. p\<lparr>p_page_count := p_page_count p + 1\<rparr>) s7 = Some s8"
    and al4: "allocate_page_loop E a (ke_args_base E) 0 1 s8 = Some t"
  obtain f1 where f1: "length f1 = unat (p_page_count p1)"
    "pcb_effect a (\<lambda>p. p\<lparr>p_page_list := p_page_list p @ f1\<rparr>) s2 s3" using allocate_page_effect[OF al1] by blast
  obtain f2 where f2: "length f2 = unat (segment_page_count img)"
    "pcb_effect a (\<lambda>p. p\<lparr>p_page_list := p_page_list p @ f2\<rparr>) s4 s5" using allocate_page_effect[OF al2] by blast
  obtain f3 where f3: "length f3 = unat (heap_pages E)"
    "pcb_effect a (\<lambda>p. p\<lparr>p_page_list := p_page_list p @ f3\<rparr>) s6 s7" using allocate_page_effect[OF al3] by blast
  obtain f4 where f4: "length f4 = 1"
    "pcb_effect a (\<lambda>p. p\<lparr>p_page_list := p_page_list p @ f4\<rparr>) s8 t" using allocate_page_effect[OF al4] by blast
  have count: "p_page_count p1 = stack_pages E"
    using p1 u1 by (auto simp: upd_pcb_Some reset_process_stack_def stack_pages_def)
  have "pcb_effect a (reset_process_stack E) s (s1\<lparr>k_mm := mm\<rparr>)"
    using pcb_effect_upd[OF u1] by (simp add: pcb_effect_def)
  from pcb_effect_trans[OF pcb_effect_trans[OF pcb_effect_trans[OF pcb_effect_trans[OF pcb_effect_trans[OF
      pcb_effect_trans[OF pcb_effect_trans[OF pcb_effect_trans[OF this release_proc_pages_effect[OF rel]]
      f1(2)] pcb_effect_upd[OF u4]] f2(2)] pcb_effect_upd[OF u6]] f3(2)] pcb_effect_upd[OF u8]] f4(2)]
  have "pcb_effect a (image_pcb E img (f1 @ f2 @ f3 @ f4)) s t"
    by (simp add: image_pcb_def[abs_def] reset_process_stack_def stack_pages_def algebra_simps)
  moreover have "same_procs s t"
  proof -
    have "same_procs s s1" by (rule upd_pcb_same_procs[OF u1]) (simp add: reset_process_stack_def)
    also have "same_procs s1 (s1\<lparr>k_mm := mm\<rparr>)" by simp
    also have "same_procs \<dots> s2" by (rule release_proc_pages_same_procs[OF rel])
    also have "same_procs s2 s3" using allocate_page_effect[OF al1] by blast
    also have "same_procs s3 s4" by (rule upd_pcb_same_procs[OF u4]) simp
    also have "same_procs s4 s5" using allocate_page_effect[OF al2] by blast
    also have "same_procs s5 s6" by (rule upd_pcb_same_procs[OF u6]) simp
    also have "same_procs s6 s7" using allocate_page_effect[OF al3] by blast
    also have "same_procs s7 s8" by (rule upd_pcb_same_procs[OF u8]) simp
    also have "same_procs s8 t" using allocate_page_effect[OF al4] by blast
    finally show ?thesis .
  qed
  moreover have "length (f1 @ f2 @ f3 @ f4) =
      unat (stack_pages E) + unat (segment_page_count img) + unat (heap_pages E) + 1"
    using f1(1) f2(1) f3(1) f4(1) count by simp
  ultimately show ?thesis by blast
qed

lemma save_args_frame:
  "save_args E X nm argc argv envp s = Some (r, t) \<Longrightarrow> same_procs s t \<and> pcb_at t = pcb_at s"
  by (auto simp: save_args_def same_procs_def skel_def set_errno_def put_user_def
      split: if_splits prod.splits option.splits sum.splits)

lemma setup_cases:
  assumes "setup_proc_image_replace E X img a argc argv envp s = Some (mem, t)"
  obtains cur c r s1 s2 where "current_pcb s = Some cur" "pcb_at s cur = Some c"
    "save_args E X (p_name c) argc argv envp s = Some (r, s1)" "new_image E img a s1 = Some s2"
    "case r of None \<Rightarrow> mem = xe_user_bytes X (k_mm s2) \<and> t = s2
     | Some (base, m) \<Rightarrow> \<exists>m'. post_setup_image (unat (ke_PAGE_SIZE E)) base (ke_args_base E) m
           (\<lambda>i. xe_user_bytes X (k_mm s2) (ke_args_base E + of_nat i)) = Some m' \<and>
         mem = (\<lambda>v. m' (unat (v - ke_args_base E))) \<and> t = s2\<lparr>k_mm := xe_free X base (k_mm s2)\<rparr>"
  using assms unfolding setup_proc_image_replace_def Let_def case_prod_unfold
proof (elim bind_SomeE)
  fix cur rs s2 and c :: pcb
  assume c: "current_pcb s = Some cur" "pcb_at s cur = Some c"
      "save_args E X (p_name c) argc argv envp s = Some rs" "new_image E img a (snd rs) = Some s2"
    and rest: "(case fst rs of None \<Rightarrow> Some (xe_user_bytes X (k_mm s2), s2)
      | Some p \<Rightarrow> Option.bind (post_setup_image (unat (ke_PAGE_SIZE E)) (fst p) (ke_args_base E) (snd p)
           (\<lambda>i. xe_user_bytes X (k_mm s2) (ke_args_base E + of_nat i)))
         (\<lambda>m'. Some (\<lambda>v. m' (unat (v - ke_args_base E)), s2\<lparr>k_mm := xe_free X (fst p) (k_mm s2)\<rparr>))) = Some (mem, t)"
  have c3: "save_args E X (p_name c) argc argv envp s = Some (fst rs, snd rs)" using c(3) by simp
  show thesis
  proof (cases "fst rs")
    case None
    show thesis by (rule that[OF c(1,2) c3 c(4)]) (use None rest in auto)
  next
    case (Some p)
    with rest obtain m' where "post_setup_image (unat (ke_PAGE_SIZE E)) (fst p) (ke_args_base E) (snd p)
           (\<lambda>i. xe_user_bytes X (k_mm s2) (ke_args_base E + of_nat i)) = Some m'"
      "mem = (\<lambda>v. m' (unat (v - ke_args_base E)))" "t = s2\<lparr>k_mm := xe_free X (fst p) (k_mm s2)\<rparr>"
      by (auto elim!: bind_SomeE)
    then show thesis by (intro that[OF c(1,2) c3 c(4)]) (simp add: Some case_prod_unfold)
  qed
qed

lemma setup_effect:
  assumes "setup_proc_image_replace E X img a argc argv envp s = Some (mem, t)"
  shows "\<exists>fs. length fs = unat (stack_pages E) + unat (segment_page_count img) + unat (heap_pages E) + 1 \<and>
    same_procs s t \<and> pcb_effect a (image_pcb E img fs) s t"
  using assms
proof (cases rule: setup_cases)
  case (1 cur c r s1 s2)
  have "same_procs s s1" "pcb_at s1 = pcb_at s" using save_args_frame[OF 1(3)] by simp_all
  moreover have "same_procs s2 t" "pcb_at t = pcb_at s2" using 1(5) by (auto split: option.splits)
  moreover obtain fs where "length fs = unat (stack_pages E) + unat (segment_page_count img) + unat (heap_pages E) + 1"
    "same_procs s1 s2" "pcb_effect a (image_pcb E img fs) s1 s2"
    using new_image_effect[OF 1(4)] by blast
  ultimately show ?thesis using same_procs_trans[of s s1 s2] same_procs_trans[of s s2 t]
    by (intro exI[of _ fs]) (simp add: pcb_effect_def)
qed

lemma move_joiner_frame:
  assumes "move_joiner a m s = Some t"
  obtains f where "t = s\<lparr>k_tcbs := f\<rparr>"
proof (cases "t = s")
  case True
  then have "t = s\<lparr>k_tcbs := k_tcbs s\<rparr>" by simp
  then show thesis by (rule that)
next
  case False
  then show thesis using assms that unfolding move_joiner_def Let_def
    by (elim bind_SomeE) (auto split: list.splits if_splits elim!: bind_SomeE)
qed

lemma start_image_same_procs:
  assumes "start_image E a s = Some t" and ok: "kenv_ok E"
  shows "same_procs s t"
  using assms(1) unfolding start_image_def Let_def case_prod_unfold
proof (elim bind_SomeE)
  fix p s2 s3 c
  let ?u = "ke_user_thread E (p_bin_image_entry p) (p_name p) (ke_args_base E) a s"
  assume u2: "upd_pcb a (\<lambda>p. p\<lparr>p_main_thread := fst ?u\<rparr>) (snd ?u) = Some s2"
    and mv: "move_joiner a (fst ?u) s2 = Some s3"
    and t: "Some (ke_thread_exit E (s3\<lparr>k_tcbs := (k_tcbs s3)(k_current s3 \<mapsto> c\<lparr>t_pcb := NULL\<rparr>)\<rparr>)) = Some t"
  have "same_procs s (snd ?u)" by (rule kenv_ok_frames(6)[OF ok])
  also have "same_procs \<dots> s2" by (rule upd_pcb_same_procs[OF u2]) simp
  also have "same_procs s2 s3" using mv by (rule move_joiner_frame) simp
  also have "same_procs s3 (s3\<lparr>k_tcbs := (k_tcbs s3)(k_current s3 \<mapsto> c\<lparr>t_pcb := NULL\<rparr>)\<rparr>)" by simp
  also have "same_procs \<dots> t" using t kenv_ok_frames(2)[OF ok] by auto
  finally show ?thesis .
qed

text \<open>The two ways through the call.\<close>

lemma do_execve_cases:
  assumes "do_execve E X fn argv envp s = Some (r, m, t)"
  obtains (failed) a p s1 mm where "current_pcb s = Some a" "pcb_at s a = Some p"
      "set_name a fn (s\<lparr>k_irq_disabled := True\<rparr>) = Some s1"
      "xe_elf_load X fn (k_mm s1) = (None, mm)" "r = - 1" "m = None"
      "t = set_errno (xe_ENOENT X) (local_irq_restore (k_irq_disabled s) (s1\<lparr>k_mm := mm\<rparr>))"
  | (success) a p s1 img mm m0 s2 where "current_pcb s = Some a" "pcb_at s a = Some p"
      "set_name a fn (s\<lparr>k_irq_disabled := True\<rparr>) = Some s1"
      "xe_elf_load X fn (k_mm s1) = (Some img, mm)" "r = 0" "m = Some (load_process X img m0)"
      "setup_proc_image_replace E X img a (count_args argv) argv envp (s1\<lparr>k_mm := mm\<rparr>) = Some (m0, s2)"
      "start_image E a (s2\<lparr>k_mm := xe_elf_clean X (xe_flush_dcache X (k_mm s2))\<rparr>) = Some t"
proof -
  from assms obtain a p where ap: "current_pcb s = Some a" "pcb_at s a = Some p"
    unfolding do_execve_def by (elim bind_SomeE) blast
  from assms ap obtain s1 where s1: "set_name a fn (s\<lparr>k_irq_disabled := True\<rparr>) = Some s1"
    and rest: "(case xe_elf_load X fn (k_mm s1) of
         (None, mm) \<Rightarrow> Some (- 1, None, set_errno (xe_ENOENT X)
            (local_irq_restore (k_irq_disabled s) (s1\<lparr>k_mm := mm\<rparr>)))
       | (Some img, mm) \<Rightarrow> do {
           (mem, s2) \<leftarrow> setup_proc_image_replace E X img a (count_args argv) argv envp (s1\<lparr>k_mm := mm\<rparr>);
           let mem' = load_process X img mem;
           s3 \<leftarrow> start_image E a (s2\<lparr>k_mm := xe_elf_clean X (xe_flush_dcache X (k_mm s2))\<rparr>);
           Some (0, Some mem', s3) }) = Some (r, m, t)"
    by (simp add: do_execve_def local_irq_save_def Let_def split: if_splits) (elim bind_SomeE, blast)
  obtain im mm where elf: "xe_elf_load X fn (k_mm s1) = (im, mm)" by (cases "xe_elf_load X fn (k_mm s1)")
  show thesis
  proof (cases im)
    case None
    then show thesis using failed[OF ap s1] rest elf by simp
  next
    case (Some img)
    with rest elf obtain m0 s2 where
      "setup_proc_image_replace E X img a (count_args argv) argv envp (s1\<lparr>k_mm := mm\<rparr>) = Some (m0, s2)"
      "start_image E a (s2\<lparr>k_mm := xe_elf_clean X (xe_flush_dcache X (k_mm s2))\<rparr>) = Some t"
      "r = 0" "m = Some (load_process X img m0)"
      by (auto simp: Let_def elim!: bind_SomeE)
    then show thesis using success[OF ap s1] elf Some by blast
  qed
qed

lemma set_name_effect: "set_name a fn s = Some t \<Longrightarrow> pcb_effect a (\<lambda>p. p\<lparr>p_name := fn\<rparr>) s t \<and> same_procs s t"
  using pcb_effect_upd upd_pcb_same_procs by (fastforce simp: set_name_def split: if_splits)

lemma do_execve_same_procs:
  assumes "do_execve E X fn argv envp s = Some (r, m, t)" and ok: "kenv_ok E"
  shows "same_procs s t"
  using assms(1)
proof (cases rule: do_execve_cases)
  case (failed a p s1 mm)
  then have "same_procs s s1"
    using set_name_effect same_procs_trans same_procs_frame(1) by blast
  then show ?thesis unfolding failed(7) set_errno_def put_user_def local_irq_restore_def
    by (simp add: same_procs_def skel_def)
next
  case (success a p s1 img mm m0 s2)
  have "same_procs s (s\<lparr>k_irq_disabled := True\<rparr>)" by simp
  also have "same_procs \<dots> s1" using set_name_effect[OF success(3)] by blast
  also have "same_procs s1 (s1\<lparr>k_mm := mm\<rparr>)" by simp
  also have "same_procs \<dots> s2" using setup_effect[OF success(7)] by blast
  also have "same_procs s2 (s2\<lparr>k_mm := xe_elf_clean X (xe_flush_dcache X (k_mm s2))\<rparr>)" by simp
  also have "same_procs \<dots> t" by (rule start_image_same_procs[OF success(8) ok])
  finally show ?thesis .
qed

interpretation execve: table_preserving "\<lambda>E (X, fn, argv, envp) s.
    map_option (\<lambda>(r, m, t). ((r, m), t)) (do_execve E X fn argv envp s)"
  by unfold_locales (auto intro: do_execve_same_procs)

section \<open>What the loader copies\<close>

text \<open>The sections that are copied, and the addresses of a section.\<close>

definition loaded_section :: "'m xenv \<Rightarrow> elf_img_info \<Rightarrow> elf_section \<Rightarrow> bool" where
  "loaded_section X img sec \<longleftrightarrow> sec \<in> set (e_sections img) \<and>
     sh_name sec \<in> set supported_section_names \<and> sh_type sec \<noteq> xe_SHT_NOBITS X \<and>
     (\<exists>seg \<in> set (e_segments img). ph_type seg = xe_PT_LOAD X \<and> ph_offset seg \<le> sh_offset sec \<and>
        sh_offset sec + sh_size sec \<le> ph_offset seg + ph_memsz seg)"

definition covers :: "elf_section \<Rightarrow> addr \<Rightarrow> bool" where
  "covers sec a \<longleftrightarrow> a - sh_addr sec < sh_size sec"

lemma fold_keeps: "(\<And>x m. x \<in> set xs \<Longrightarrow> f x m a = m a) \<Longrightarrow> fold f xs m a = m a"
  by (induction xs arbitrary: m) auto

lemma fold_either:
  assumes "\<And>x m. x \<in> set xs \<Longrightarrow> f x m a = m a \<or> f x m a = v"
  shows "fold f xs m a = m a \<or> fold f xs m a = v"
  using assms
proof (induction xs arbitrary: m)
  case (Cons x xs)
  have "f x m a = m a \<or> f x m a = v" using Cons.prems by simp
  moreover have "fold f xs (f x m) a = f x m a \<or> fold f xs (f x m) a = v"
    by (rule Cons.IH) (use Cons.prems in simp)
  ultimately show ?case by (metis fold_simps(2))
qed simp

lemma fold_sets:
  assumes "\<And>x m. x \<in> set xs \<Longrightarrow> f x m a = m a \<or> f x m a = v" and "x \<in> set xs" "\<And>m. f x m a = v"
  shows "fold f xs m a = v"
proof -
  from assms(2) obtain ys zs where xs: "xs = ys @ x # zs" by (meson split_list)
  have "fold f zs (f x (fold f ys m)) a = f x (fold f ys m) a \<or> fold f zs (f x (fold f ys m)) a = v"
    by (rule fold_either) (use assms(1) xs in simp)
  then show ?thesis using assms(3) xs by simp
qed

lemma load_section_at:
  "load_section X img seg sec m a =
     (if ph_offset seg \<le> sh_offset sec \<and> sh_offset sec + sh_size sec \<le> ph_offset seg + ph_memsz seg \<and>
         sh_name sec \<in> set supported_section_names \<and> sh_type sec \<noteq> xe_SHT_NOBITS X \<and> covers sec a
      then file_buffer img (sh_offset sec + (a - sh_addr sec)) else m a)"
  by (auto simp: load_section_def Let_def copy_section_def covers_def not_less)

lemma load_process_other:
  assumes "\<And>sec. loaded_section X img sec \<Longrightarrow> \<not> covers sec a"
  shows "load_process X img m a = m a"
  unfolding load_process_def
proof (rule fold_keeps)
  fix seg and m :: "addr \<Rightarrow> u8" assume seg: "seg \<in> set (e_segments img)"
  show "load_segment X img seg m a = m a"
  proof (cases "ph_type seg = xe_PT_LOAD X")
    case True
    have "load_section X img seg sec u a = u a" if "sec \<in> set (e_sections img)" for sec and u :: "addr \<Rightarrow> u8"
      unfolding load_section_at using assms[of sec] True seg that by (auto simp: loaded_section_def)
    then have "fold (load_section X img seg) (e_sections img) m a = m a" by (rule fold_keeps)
    then show ?thesis by (simp add: load_segment_def)
  qed (simp add: load_segment_def)
qed

lemma load_process_at:
  assumes sec: "loaded_section X img sec" "covers sec a"
    and apart: "\<And>sec'. loaded_section X img sec' \<Longrightarrow> covers sec' a \<Longrightarrow> sec' = sec"
  shows "load_process X img m a = file_buffer img (sh_offset sec + (a - sh_addr sec))" (is "_ = ?v")
proof -
  have one: "load_section X img seg x u a = u a \<or> load_section X img seg x u a = ?v"
    if "seg \<in> set (e_segments img)" "ph_type seg = xe_PT_LOAD X" "x \<in> set (e_sections img)" for seg x and u :: "addr \<Rightarrow> u8"
    unfolding load_section_at using apart[of x] that by (auto simp: loaded_section_def)
  have seg: "load_segment X img seg u a = u a \<or> load_segment X img seg u a = ?v"
    if "seg \<in> set (e_segments img)" for seg and u :: "addr \<Rightarrow> u8"
    using fold_either[of "e_sections img" "load_section X img seg" a ?v u] one[OF that]
    by (simp add: load_segment_def)
  from sec(1) obtain sg where sg: "sg \<in> set (e_segments img)" "ph_type sg = xe_PT_LOAD X"
    "ph_offset sg \<le> sh_offset sec" "sh_offset sec + sh_size sec \<le> ph_offset sg + ph_memsz sg"
    unfolding loaded_section_def by blast
  have sets: "load_section X img sg sec u a = ?v" for u :: "addr \<Rightarrow> u8"
    unfolding load_section_at using sec sg by (simp add: loaded_section_def)
  have "load_segment X img sg u a = ?v" for u :: "addr \<Rightarrow> u8"
    using fold_sets[of "e_sections img" "load_section X img sg" a ?v sec u] one[OF sg(1,2)] sets sec(1) sg(2)
    by (simp add: load_segment_def loaded_section_def)
  from fold_sets[of "e_segments img" "load_segment X img" a ?v sg, OF seg sg(1) this]
  show ?thesis by (simp add: load_process_def)
qed

section \<open>The arguments in the new image\<close>

lemma strings_at_cong:
  assumes "strings_at n base m slot ss" "slot + 4 * length ss \<le> n" "\<And>i. i < n \<Longrightarrow> m' i = m i"
  shows "strings_at n base m' slot ss"
proof -
  have "read_word m' (slot + 4 * i) = read_word m (slot + 4 * i)" if "i < length ss" for i
    by (rule read_word_cong) (use that assms(2) in \<open>simp add: assms(3)\<close>)
  then show ?thesis using assms(1) unfolding strings_at_def Let_def
    by (auto simp: string_at_def assms(3))
qed

lemma args_page_cong:
  assumes "read_word m 0 = of_nat (length args) \<and> strings_at n base m 4 args \<and>
      strings_at n base m (4 + 4 * length args) es \<and> read_word m (4 + 4 * length args + 4 * length es) = 0"
    and size: "4 + 4 * length args + 4 * (length es + 1) \<le> n" and pg: "\<And>i. i < n \<Longrightarrow> m' i = m i"
  shows "read_word m' 0 = of_nat (length args) \<and> strings_at n base m' 4 args \<and>
      strings_at n base m' (4 + 4 * length args) es \<and> read_word m' (4 + 4 * length args + 4 * length es) = 0"
proof -
  have w: "read_word m' k = read_word m k" if "k + 4 \<le> n" for k
    by (rule read_word_cong) (use that in \<open>simp add: pg\<close>)
  have "strings_at n base m' 4 args"
    by (rule strings_at_cong[of n base m]) (use assms(1) size pg in simp_all)
  moreover have "strings_at n base m' (4 + 4 * length args) es"
    by (rule strings_at_cong[of n base m]) (use assms(1) size pg in simp_all)
  moreover have "read_word m' 0 = read_word m 0" by (rule w) (use size in simp)
  moreover have "read_word m' (4 + 4 * length args + 4 * length es) = read_word m (4 + 4 * length args + 4 * length es)"
    by (rule w) (use size in simp)
  ultimately show ?thesis using assms(1) by simp
qed

lemma setup_args:
  assumes run: "setup_proc_image_replace E X img a (length args) (Some args) envp s = Some (mem, t)"
    and args: "args \<noteq> []" and fit: "args_size args (env_list envp) \<le> unat (ke_PAGE_SIZE E)"
    and heap: "\<And>mm. unat (fst (xe_malloc X mm)) + unat (ke_PAGE_SIZE E) < 2 ^ 32"
  defines "pg \<equiv> \<lambda>i. mem (ke_args_base E + of_nat i)" and "n \<equiv> unat (ke_PAGE_SIZE E)"
  shows "read_word pg 0 = of_nat (length args) \<and> strings_at n (ke_args_base E) pg 4 args \<and>
    strings_at n (ke_args_base E) pg (4 + 4 * length args) (env_list envp) \<and>
    read_word pg (4 + 4 * length args + 4 * length (env_list envp)) = 0"
proof -
  from run obtain c :: pcb and r s1 s2 where c: "save_args E X (p_name c) (length args) (Some args) envp s = Some (r, s1)"
    and rest: "case r of None \<Rightarrow> mem = xe_user_bytes X (k_mm s2) \<and> t = s2
     | Some (base, m) \<Rightarrow> \<exists>m'. post_setup_image n base (ke_args_base E) m
           (\<lambda>i. xe_user_bytes X (k_mm s2) (ke_args_base E + of_nat i)) = Some m' \<and>
         mem = (\<lambda>v. m' (unat (v - ke_args_base E))) \<and> t = s2\<lparr>k_mm := xe_free X base (k_mm s2)\<rparr>"
    by (rule setup_cases) (erule that, unfold n_def, assumption)
  obtain base mm where mal: "xe_malloc X (k_mm s) = (base, mm)" by (cases "xe_malloc X (k_mm s)")
  have b: "unat base + n < 2 ^ 32" using heap[of "k_mm s"] by (simp add: mal n_def)
  have al: "arg_list (p_name c) args = args" using args by (simp add: arg_list_def)
  from args_roundtrip[of "p_name c" args envp n base "Some args" "ke_args_base E"
      "\<lambda>i. xe_user_bytes X (k_mm s2) (ke_args_base E + of_nat i)", unfolded al] fit b
  obtain m m' where pres: "preserve_args_and_env n base (p_name c) (length args) (Some args) envp = Some (Inr m)"
    and post: "post_setup_image n base (ke_args_base E) m
       (\<lambda>i. xe_user_bytes X (k_mm s2) (ke_args_base E + of_nat i)) = Some m'"
    and m': "read_word m' 0 = of_nat (length args)" "strings_at n (ke_args_base E) m' 4 args"
      "strings_at n (ke_args_base E) m' (4 + 4 * length args) (env_list envp)"
      "read_word m' (4 + 4 * length args + 4 * length (env_list envp)) = 0"
    unfolding n_def by blast
  have "r = Some (base, m)"
    using c mal pres by (auto simp: save_args_def n_def split: if_splits)
  then have "mem = (\<lambda>v. m' (unat (v - ke_args_base E)))" using rest post by simp
  then have pg: "pg i = m' i" if "i < n" for i
    using that b by (simp add: pg_def unat_of_nat_u32)
  have size: "4 + 4 * length args + 4 * (length (env_list envp) + 1) \<le> n"
    using fit str_off_ge[of "strings_start args (env_list envp)" "args @ env_list envp"]
    unfolding args_size_def strings_start_def n_def by (meson le_trans)
  show ?thesis by (rule args_page_cong[OF _ size pg]) (use m' in blast)
qed

end
