(* ===== verification/KRun.thy ===== *)
theory KRun
  imports Exec
begin

text \<open>
  Runs of the kernel as sequences of process calls, a concrete environment on which the
  hypotheses hold, and the properties of the process management of \<open>so3/kernel/process.c\<close>.
\<close>

section \<open>Runs of the kernel\<close>

text \<open>
  A step is one kernel entry: the scheduler picks a thread, or the running thread makes one
  of the process calls; waitpid is two steps, so that other processes run while it waits.
  Forks are limited as the comment on \<open>pid_current\<close> says: the pids do not wrap around.
\<close>

inductive kstep :: "'m kenv \<Rightarrow> 'm kstate \<Rightarrow> 'm kstate \<Rightarrow> bool" for E where
  schedule: "k_tcbs s t \<noteq> None \<Longrightarrow> kstep E s (s\<lparr>k_current := t\<rparr>)"
| fork: "do_fork E s = Some (r, t) \<Longrightarrow> k_pid_current s + 1 \<noteq> 0 \<Longrightarrow> kstep E s t"
| exit: "do_exit E st s = Some t \<Longrightarrow> kstep E s t"
| wait_enter: "waitpid_enter E pid w opt s = Some (r', t) \<Longrightarrow> kstep E s t"
| wait_leave: "waitpid_leave E child pid w f s = Some (r, t) \<Longrightarrow> kstep E s t"
| execve: "do_execve E X fn argv envp s = Some (r', m, t) \<Longrightarrow> kstep E s t"
| sbrk: "do_sbrk E inc s = Some (r, t) \<Longrightarrow> kstep E s t"
| renice: "do_renice pid prio s = Some (r, t) \<Longrightarrow> kstep E s t"
| register_fd: "proc_register_fd E g s = Some (r, t) \<Longrightarrow> kstep E s t"

text \<open>The kernel boots with an empty table and pid 1 to give, and creates the root process.\<close>

inductive kreachable :: "'m kenv \<Rightarrow> 'm kstate \<Rightarrow> bool" for E where
  boot: "k_procs s = [] \<Longrightarrow> k_pid_current s = 1 \<Longrightarrow> create_root_process E s = Some t \<Longrightarrow>
     kreachable E t"
| step: "kreachable E s \<Longrightarrow> kstep E s t \<Longrightarrow> kreachable E t"

lemma create_root_effect:
  assumes cr: "create_root_process E s = Some t" and ok: "kenv_ok E"
    and init: "k_procs s = []" "k_pid_current s = 1"
  shows "\<exists>a. a \<noteq> NULL \<and> skel t = [(a, 1, NULL)] \<and> k_pid_current t = 2"
  using cr unfolding create_root_process_def Let_def case_prod_unfold
proof (elim bind_SomeE)
  let ?s0 = "s\<lparr>k_irq_disabled := True\<rparr>"
  fix as s2 s3 s6 s8 mm and p :: pcb
  assume new: "new_process E ?s0 = Some as"
    and u2: "upd_pcb (fst as) (reset_process_stack E) (snd as) = Some s2"
    and al: "allocate_page E (fst as) (p_stack_top p - p_page_count p * ke_PAGE_SIZE E)
        (unat (p_page_count p)) s2 = Some s3"
    and u6: "upd_pcb (fst as) (p_main_thread_update (\<lambda>_. fst (ke_user_thread E
        (ke_USER_SPACE_VADDR E) ''root_proc'' NULL (fst as)
        (s3\<lparr>k_mm := mm\<rparr>))))
        (snd (ke_user_thread E (ke_USER_SPACE_VADDR E) ''root_proc'' NULL (fst as)
        (s3\<lparr>k_mm := mm\<rparr>))) = Some s6"
    and u8: "upd_pcb (fst as) (\<lambda>p. p\<lparr>p_fd_array := ((replicate FD_MAX (- 1))
        [ke_STDOUT E := int (ke_STDOUT E)])
        [ke_STDIN E := int (ke_STDIN E), ke_STDERR E := int (ke_STDERR E)],
        p_state := PROC_STATE_READY\<rparr>)
        (if k_root_process s6 = NULL then s6\<lparr>k_root_process := fst as\<rparr> else s6) = Some s8"
    and t: "Some (ke_thread_exit E s8) = Some t"
  from new_process_effect[of E ?s0 "fst as" "snd as"] new init
  have a: "fst as \<noteq> NULL" "skel (snd as) = [(fst as, 1, NULL)]" "k_pid_current (snd as) = 2"
    by (auto simp: skel_def fresh_pcb_def)
  have "same_procs (snd as) s2" by (rule upd_pcb_same_procs[OF u2]) (simp add: reset_process_stack_def)
  also have "same_procs s2 s3" using al allocate_page_effect unfolding allocate_page_def by blast
  also have "same_procs s3 s6"
    using same_procs_trans[OF same_procs_trans[OF same_procs_frame(5) kenv_ok_frames(6)[OF ok]]
        upd_pcb_same_procs[OF u6]] by simp
  also have "same_procs s6 (if k_root_process s6 = NULL then s6\<lparr>k_root_process := fst as\<rparr> else s6)"
    by simp
  also have "same_procs \<dots> s8" by (rule upd_pcb_same_procs[OF u8]) simp
  also have "same_procs s8 t" using t kenv_ok_frames(2)[OF ok] by auto
  finally show ?thesis using a by (auto simp: same_procs_def)
qed

lemma kstep_inv: "kstep E s t \<Longrightarrow> kenv_ok E \<Longrightarrow> proc_inv s \<Longrightarrow> proc_inv t"
proof (induction rule: kstep.induct)
  case (fork s r t)
  then obtain r' where "fork_body E s = Some (r', t)"
    by (auto simp: do_fork_def split: option.splits elim!: bind_SomeE)
  then show ?case using fork fork_body_inv by blast
qed (auto intro: same_procs_inv same_procs_inv[OF same_procs_frame(7)] do_exit_same_procs waitpid_enter_same_procs waitpid_leave_inv
      do_execve_same_procs do_sbrk_same_procs do_renice_same_procs register_fd_same_procs)

lemma kreachable_inv: "kreachable E s \<Longrightarrow> kenv_ok E \<Longrightarrow> proc_inv s"
proof (induction rule: kreachable.induct)
  case (boot s t)
  from create_root_effect[OF boot(3,4,1,2)] show ?case
    by (auto simp: proc_inv_def skel_inv_def)
next
  case (step s t)
  then show ?case using kstep_inv by blast
qed

section \<open>A concrete environment\<close>

text \<open>
  One instance of the layers outside the file, on which the hypotheses hold: first-fit
  addresses for PCBs, frames and page tables handed out in order, and a set of live tables,
  so that freeing a table twice is refused.
\<close>

record sim_mm =
  sm_next_frame :: u32
  sm_freed :: "frame list"
  sm_next_table :: addr
  sm_tables :: "addr list"

definition sim_malloc :: "'m kstate \<Rightarrow> addr" where
  "sim_malloc s =
     (case find (\<lambda>a. a \<notin> set (map fst (k_procs s))) (map of_nat [1..<length (k_procs s) + 2]) of
        None \<Rightarrow> NULL | Some a \<Rightarrow> a)"

definition sim_env :: "sim_mm kenv" where
  "sim_env = \<lparr>ke_HEAP_SIZE = 0x10000, ke_PAGE_SIZE = 0x1000, ke_PAGE_SHIFT = 12,
     ke_THREAD_STACK_SIZE = 0x80, ke_ALIGN_UP = (\<lambda>x a. (x + a - 1) div a * a),
     ke_USER_SPACE_VADDR = 0x1000, ke_root_proc_start = 0x8000, ke_root_proc_size = 0x1000,
     ke_STDIN = 0, ke_STDOUT = 1, ke_STDERR = 2,
     ke_ECHILD = 10, ke_ENOMEM = 12, ke_ESRCH = 3, ke_ENFILE = 23, ke_WNOHANG = 1,
     ke_args_base = 0xBFFFF000,
     ke_malloc_pcb = sim_malloc, ke_malloc_node = Some, ke_free_node = id,
     ke_new_root_pgtable = (\<lambda>m. Some (sm_next_table m,
        m\<lparr>sm_next_table := sm_next_table m + 0x4000, sm_tables := sm_next_table m # sm_tables m\<rparr>)),
     ke_pgtable_copy_kernel_area = (\<lambda>t m. m),
     ke_reset_root_pgtable = (\<lambda>t remove m. if t \<in> set (sm_tables m)
        then Some (if remove then m\<lparr>sm_tables := removeAll t (sm_tables m)\<rparr> else m) else None),
     ke_get_free_page = (\<lambda>m. (sm_next_frame m, m\<lparr>sm_next_frame := sm_next_frame m + 0x1000\<rparr>)),
     ke_free_page = (\<lambda>f m. m\<lparr>sm_freed := f # sm_freed m\<rparr>),
     ke_create_mapping = (\<lambda>t v p n c m. Some m),
     ke_duplicate_user_space = (\<lambda>a b s. Some s),
     ke_vfs_clone_fd = (\<lambda>old new. (False, old)),
     ke_user_thread = (\<lambda>f n arg a s. (a + 0x100, s\<lparr>k_tcbs := (k_tcbs s)(a + 0x100 \<mapsto>
        \<lparr>t_tid = 1, t_name = n, t_prio = 10, t_priority = 10, t_pcb = a, t_joinQueue = []\<rparr>)\<rparr>)),
     ke_copy_context = (\<lambda>new old s. s), ke_raise_softirq = (\<lambda>s. s), ke_ready = (\<lambda>t s. s),
     ke_thread_join = (\<lambda>t s. s), ke_thread_exit = (\<lambda>s. s), ke_do_close = (\<lambda>i s. s),
     ke_serial_cleanup = (\<lambda>s. s), ke_do_kill = (\<lambda>p s. s)\<rparr>"

definition sim_boot :: "sim_mm kstate" where
  "sim_boot = \<lparr>k_procs = [], k_tcbs = (\<lambda>_. None), k_pid_current = 1, k_root_process = NULL,
     k_current = NULL, k_irq_disabled = False, k_errno_addr = 0x2000, k_umem = (\<lambda>_. 0),
     k_refcount = (\<lambda>_. 0), k_log = [],
     k_mm = \<lparr>sm_next_frame = 0x100000, sm_freed = [], sm_next_table = 0x4000, sm_tables = []\<rparr>\<rparr>"

lemma find_fresh:
  "(case find (\<lambda>a. a \<notin> A) xs of None \<Rightarrow> NULL | Some a \<Rightarrow> a) \<noteq> NULL \<Longrightarrow>
   (case find (\<lambda>a. a \<notin> A) xs of None \<Rightarrow> NULL | Some a \<Rightarrow> a) \<notin> A"
  by (induction xs) auto

lemma sim_malloc_fresh: "sim_malloc s \<noteq> NULL \<Longrightarrow> sim_malloc s \<notin> fst ` set (k_procs s)"
  unfolding sim_malloc_def set_map by (rule find_fresh)

lemma same_frames_tcbs [simp]:
  "same_core s (s\<lparr>k_tcbs := f\<rparr>)" "same_life s s"
  by (simp_all add: same_core_def core_view_def same_life_def)

lemma sim_env_ok: "kenv_ok sim_env"
  by (simp add: kenv_ok_def sim_env_def sim_malloc_fresh)

lemmas sim_defs = sim_env_def sim_boot_def sim_malloc_def create_root_process_def new_process_def
  upd_pcb_def pcb_at_def fresh_pcb_def reset_process_stack_def PROC_THREAD_MAX_def FD_MAX_def
  allocate_page_def add_page_to_proc_def link_page_def Let_def

definition sim_fds :: "int list" where
  "sim_fds = [0, 1, 2] @ replicate 61 (- 1)"

definition sim_pcb :: "u32 \<Rightarrow> string \<Rightarrow> addr \<Rightarrow> addr \<Rightarrow> addr \<Rightarrow> frame list \<Rightarrow> pcb" where
  "sim_pcb pid nm parent table thread pages = \<lparr>p_pid = pid, p_name = nm, p_bin_image_entry = 0,
     p_stack_top = 0xBFFFF000, p_stack_slotID = replicate PROC_THREAD_MAX False, p_heap_base = 0,
     p_heap_pointer = 0, p_page_count = 1, p_page_list = pages, p_pgtable = table,
     p_exit_status = 0, p_parent = parent, p_main_thread = thread, p_threads = [],
     p_state = PROC_STATE_READY, p_fd_array = sim_fds, p_ptrace_pending_req = PTRACE_NO_REQUEST\<rparr>"

definition sim_tcb :: "string \<Rightarrow> addr \<Rightarrow> tcb" where
  "sim_tcb nm a = \<lparr>t_tid = 1, t_name = nm, t_prio = 10, t_priority = 10, t_pcb = a, t_joinQueue = []\<rparr>"

text \<open>The state after boot, with the root thread running, and after its first fork.\<close>

definition sim_root :: "sim_mm kstate" where
  "sim_root = sim_boot\<lparr>k_procs := [(1, sim_pcb 1 [] NULL 0x4000 0x101 [0x100000])],
     k_tcbs := [0x101 \<mapsto> sim_tcb ''root_proc'' 1], k_pid_current := 2, k_root_process := 1,
     k_irq_disabled := True, k_refcount := (\<lambda>_. 0)(0x100000 := 1),
     k_mm := \<lparr>sm_next_frame = 0x101000, sm_freed = [], sm_next_table = 0x8000, sm_tables = [0x4000]\<rparr>\<rparr>"

definition sim_run :: "sim_mm kstate" where
  "sim_run = sim_root\<lparr>k_current := 0x101\<rparr>"

definition sim_forked :: "sim_mm kstate" where
  "sim_forked = sim_run\<lparr>k_procs := [(1, sim_pcb 1 [] NULL 0x4000 0x101 [0x100000]),
       (2, sim_pcb 2 ''_child_2'' 1 0x8000 0x102 [])],
     k_tcbs := [0x101 \<mapsto> sim_tcb ''root_proc'' 1, 0x102 \<mapsto> sim_tcb ''_child_2'' 2],
     k_pid_current := 3,
     k_mm := \<lparr>sm_next_frame = 0x101000, sm_freed = [], sm_next_table = 0xC000, sm_tables = [0x8000, 0x4000]\<rparr>\<rparr>"

lemma sim_fds_root:
  "((replicate 64 (- 1))[Suc 0 := 1])[0 := 0, 2 := 2] = sim_fds"
  by (simp add: sim_fds_def numeral_eq_Suc)

lemma sim_root_boot: "create_root_process sim_env sim_boot = Some sim_root"
  by (simp add: sim_defs sim_root_def sim_pcb_def sim_tcb_def sim_fds_root)

lemma show_nat_2: "show_nat 2 = ''2''"
  by code_simp

lemma sim_forked_fork: "do_fork sim_env sim_run = Some (2, sim_forked)"
  by (simp add: do_fork_def fork_body_def duplicate_process_def set_name_def child_name_def
      show_int_def show_nat_2 local_irq_save_def local_irq_restore_def current_pcb_def
      sim_defs sim_run_def sim_forked_def sim_root_def sim_pcb_def sim_tcb_def PROC_NAME_LEN_def)

lemma sim_forked_reachable: "kreachable sim_env sim_forked"
proof -
  have "kreachable sim_env sim_root"
    by (rule kreachable.boot[OF _ _ sim_root_boot]) (simp_all add: sim_boot_def)
  moreover have "kstep sim_env sim_root sim_run"
    unfolding sim_run_def by (rule kstep.schedule) (simp add: sim_root_def)
  moreover have "kstep sim_env sim_run sim_forked"
    by (rule kstep.fork[OF sim_forked_fork]) (simp add: sim_run_def sim_root_def)
  ultimately show ?thesis by (blast intro: kreachable.step)
qed

lemma sim_pcbs:
  "pcb_at sim_forked 1 = Some (sim_pcb 1 [] NULL 0x4000 0x101 [0x100000])"
  "pcb_at sim_forked 2 = Some (sim_pcb 2 ''_child_2'' 1 0x8000 0x102 [])"
  by (simp_all add: sim_forked_def pcb_at_def)

section \<open>Properties of the process table\<close>

text \<open>
  C2. The process table is well formed in every reachable state, whatever the interleaving of
  forks, exits, waits and the other calls: each listed process has a pid between 1 and the
  next pid to give, no two processes share a pid, and a parent pointer is \<open>NULL\<close> or designates
  a listed process with a smaller pid. In particular waitpid never leaves a dangling parent.
\<close>

theorem process_table_well_formed:
  assumes "kreachable E s" and "kenv_ok E" and "pcb_at s a = Some p"
  shows "0 < p_pid p \<and> p_pid p < k_pid_current s \<and>
    (p_parent p = NULL \<or> (\<exists>q. pcb_at s (p_parent p) = Some q \<and> p_pid q < p_pid p)) \<and>
    (\<forall>b q. pcb_at s b = Some q \<longrightarrow> p_pid q = p_pid p \<longrightarrow> b = a)"
  using kreachable_inv[OF assms(1,2)] assms(3) proc_inv_pid_bound proc_inv_parent proc_inv_pid_inj
  by metis

theorem process_table_well_formed_witness:
  "0 < p_pid (sim_pcb 2 ''_child_2'' 1 0x8000 0x102 []) \<and>
   (\<exists>q. pcb_at sim_forked 1 = Some q \<and> p_pid q < 2)"
  using process_table_well_formed[OF sim_forked_reachable sim_env_ok sim_pcbs(2)]
  by (simp add: sim_pcb_def)

text \<open>
  \<open>find_proc_by_pid\<close> is the inverse of the pid field in every reachable state: it returns
  the address of the process that has the pid, and \<open>NULL\<close> exactly when none has.
\<close>

theorem find_proc_by_pid_correct:
  assumes "kreachable E s" and "kenv_ok E"
  shows "(\<forall>a p. pcb_at s a = Some p \<longrightarrow> find_proc_by_pid (p_pid p) s = a) \<and>
    (find_proc_by_pid pid s = NULL \<longleftrightarrow> (\<forall>a p. pcb_at s a = Some p \<longrightarrow> p_pid p \<noteq> pid))"
proof (intro conjI allI impI)
  note inv = kreachable_inv[OF assms]
  fix a p
  assume "pcb_at s a = Some p"
  then show "find_proc_by_pid (p_pid p) s = a"
    using by_pid.unique[OF inv] proc_inv_pid_inj[OF inv] by blast
qed (rule by_pid.null_iff[OF kreachable_inv[OF assms]])

theorem find_proc_by_pid_witness: "find_proc_by_pid 2 sim_forked = 2"
  using find_proc_by_pid_correct[OF sim_forked_reachable sim_env_ok, THEN conjunct1, rule_format,
      OF sim_pcbs(2)]
  by (simp add: sim_pcb_def)

text \<open>The parent relation of a state.\<close>

definition parent_rel :: "'m kstate \<Rightarrow> (addr \<times> addr) set" where
  "parent_rel s = {(a, b). \<exists>p. pcb_at s a = Some p \<and> p_parent p = b \<and> b \<noteq> NULL}"

lemma parent_rel_pid:
  assumes "proc_inv s" and "(a, b) \<in> (parent_rel s)\<^sup>+" 
  shows "\<exists>p q. pcb_at s a = Some p \<and> pcb_at s b = Some q \<and> p_pid q < p_pid p"
  using assms(2)
proof (induction rule: trancl_induct)
  case (base b)
  then show ?case using proc_inv_parent[OF assms(1)] by (auto simp: parent_rel_def)
next
  case (step b c)
  then show ?case using proc_inv_parent[OF assms(1)]
    by (fastforce simp: parent_rel_def dest: order.strict_trans)
qed

lemma ancestor_exists:
  assumes "proc_inv s" and "pcb_at s a = Some p"
  shows "\<exists>r q. (a, r) \<in> (parent_rel s)\<^sup>* \<and> pcb_at s r = Some q \<and> p_parent q = NULL"
  using assms(2)
proof (induction "unat (p_pid p)" arbitrary: a p rule: less_induct)
  case less
  show ?case
  proof (cases "p_parent p = NULL")
    case True
    with less.prems show ?thesis by blast
  next
    case False
    with proc_inv_parent[OF assms(1) less.prems] obtain q where
      q: "pcb_at s (p_parent p) = Some q" "p_pid q < p_pid p" by blast
    then have "unat (p_pid q) < unat (p_pid p)" by (simp add: word_less_nat_alt)
    from less.hyps[OF this q(1)] obtain r q' where
      r: "(p_parent p, r) \<in> (parent_rel s)\<^sup>*" "pcb_at s r = Some q'" "p_parent q' = NULL" by blast
    have "(a, p_parent p) \<in> parent_rel s" using less.prems False by (auto simp: parent_rel_def)
    with r show ?thesis by (meson converse_rtrancl_into_rtrancl)
  qed
qed

text \<open>
  C21. The processes form a forest: in every reachable state the parent relation has no cycle,
  and following it from any process ends at a process without parent.
\<close>

theorem process_forest:
  assumes "kreachable E s" and "kenv_ok E"
  shows "acyclic (parent_rel s) \<and>
    (\<forall>a p. pcb_at s a = Some p \<longrightarrow>
       (\<exists>r q. (a, r) \<in> (parent_rel s)\<^sup>* \<and> pcb_at s r = Some q \<and> p_parent q = NULL))"
  using ancestor_exists[OF kreachable_inv[OF assms]] parent_rel_pid[OF kreachable_inv[OF assms]]
  unfolding acyclic_def by fastforce

theorem process_forest_witness: "acyclic (parent_rel sim_forked)"
  using process_forest[OF sim_forked_reachable sim_env_ok] by blast

end
