(* ===== verification/KProps.thy ===== *)
theory KProps
  imports KRun
begin

text \<open>
  The properties of the process calls: fork, exit, waitpid, sbrk, the descriptor table, the
  page reference counts and the dumps.
\<close>

section \<open>Properties of fork\<close>

lemma fork_body_refused:
  assumes "current_pcb s = Some a" and "pcb_at s a = Some pp" and "k_current s \<noteq> p_main_thread pp"
  shows "fork_body E s = Some (None, klog ForkNotMainThread (s\<lparr>k_irq_disabled := True\<rparr>))"
  using assms by (simp add: fork_body_def local_irq_save_def)

lemma fork_body_kind:
  assumes "fork_body E s = Some (r, t)" and "current_pcb s = Some a" and "pcb_at s a = Some pp"
    and "k_current s = p_main_thread pp"
  shows "\<exists>newp. r = Some (a, newp)"
  using assms by (auto simp: fork_body_def local_irq_save_def Let_def bind_eq_Some_conv
      case_prod_unfold split: if_splits)

lemma forked_pcb_core:
  assumes "pcb_core q = pcb_core p" and "forked_pcb E s a pp p"
  shows "forked_pcb E s a pp q"
proof -
  note e = arg_cong[OF assms(1)]
  show ?thesis using assms(2) e[of p_pid] e[of p_parent] e[of p_state] e[of p_heap_base]
      e[of p_heap_pointer] e[of p_stack_top] e[of p_page_count] e[of p_fd_array] e[of p_name]
    by (simp add: forked_pcb_def)
qed

lemma fork_view_old:
  assumes view: "core_view t = core_view s @ [(newp, c)]" and "pcb_at s b = Some q"
  shows "\<exists>q'. pcb_at t b = Some q' \<and> pcb_core q' = pcb_core q"
proof -
  have "map_of (core_view t) b = Some (pcb_core q)"
    using core_view_pcb[of s b] assms by (simp add: map_add_Some_iff)
  then show ?thesis using core_view_pcb[of t b] by auto
qed

lemma fork_view_new:
  assumes view: "core_view t = core_view s @ [(newp, pcb_core np)]"
    and fresh: "newp \<notin> fst ` set (k_procs s)"
  shows "\<exists>q. pcb_at t newp = Some q \<and> pcb_core q = pcb_core np"
proof -
  have "map_of (core_view s) newp = None"
    using fresh by (force simp: core_view_def map_of_eq_None_iff)
  then have "map_of (core_view t) newp = Some (pcb_core np)" by (simp add: view map_add_Some_iff)
  then show ?thesis using core_view_pcb[of t newp] by auto
qed

text \<open>
  C3. A successful fork by the main thread returns the pid that \<open>pid_current\<close> held, and adds
  one process at a fresh address: it is READY, has the caller as parent, the caller's heap,
  stack origin and page count, a clone of its descriptors and the name
  \<open><parent>_child_<pid>\<close>. Every process listed before is still there with its own fields, and
  the interrupt flag is as it was at the call.
\<close>

theorem fork_creates_child:
  assumes fork: "do_fork E s = Some (r, t)" and ok: "kenv_ok E"
    and cur: "current_pcb s = Some a" "pcb_at s a = Some pp" "k_current s = p_main_thread pp"
  shows "r = sint (k_pid_current s) \<and> k_pid_current t = k_pid_current s + 1 \<and>
    k_irq_disabled t = k_irq_disabled s \<and>
    (\<exists>newp np. newp \<noteq> NULL \<and> pcb_at s newp = None \<and> pcb_at t newp = Some np \<and>
       forked_pcb E s a pp np) \<and>
    length (k_procs t) = length (k_procs s) + 1 \<and>
    (\<forall>b q. pcb_at s b = Some q \<longrightarrow> (\<exists>q'. pcb_at t b = Some q' \<and> pcb_core q' = pcb_core q))"
proof -
  from fork[unfolded do_fork_def] obtain x where "fork_body E s = Some x"
    and x: "(case x of (None, s') \<Rightarrow> Some (- 1, s')
      | (Some (parent, newp), s') \<Rightarrow> do { np \<leftarrow> pcb_at s' newp; Some (sint (p_pid np), s') }) = Some (r, t)"
    by (auto elim!: bind_SomeE split: prod.splits option.splits)
  moreover obtain r' u where "x = (r', u)" by (cases x)
  ultimately have body: "fork_body E s = Some (r', t)"
    and r: "case r' of None \<Rightarrow> r = - 1 | Some (p, n) \<Rightarrow> \<exists>np. pcb_at t n = Some np \<and> r = sint (p_pid np)"
    by (auto split: option.splits elim!: bind_SomeE)
  from fork_body_kind[OF body cur] obtain newp where r': "r' = Some (a, newp)" by blast
  from fork_body_effect[OF body[unfolded r'] ok] cur obtain np where
    fresh: "newp \<noteq> NULL" "newp \<notin> fst ` set (k_procs s)"
    and view: "core_view t = core_view s @ [(newp, pcb_core np)]"
    and np: "forked_pcb E s a pp np"
    and rest: "k_pid_current t = k_pid_current s + 1" "k_irq_disabled t = k_irq_disabled s" by auto
  from fork_view_new[OF view fresh(2)] obtain q where q: "pcb_at t newp = Some q" "pcb_core q = pcb_core np"
    by blast
  have f: "forked_pcb E s a pp q" by (rule forked_pcb_core[OF q(2) np])
  have "pcb_at s newp = None" using fresh(2) by (simp add: pcb_at_def map_of_eq_None_iff)
  moreover have "length (k_procs t) = length (k_procs s) + 1"
    using arg_cong[OF view, of length] by (simp add: core_view_def)
  moreover have "r = sint (k_pid_current s)" using r r' q(1) f by (auto simp: forked_pcb_def)
  ultimately show ?thesis using fork_view_old[OF view] rest fresh(1) q(1) f by blast
qed

lemma sim_run_current:
  "current_pcb sim_run = Some 1" "pcb_at sim_run 1 = Some (sim_pcb 1 [] NULL 0x4000 0x101 [0x100000])"
  by (simp_all add: sim_run_def sim_root_def current_pcb_def pcb_at_def sim_tcb_def)

lemma sim_run_main: "k_current sim_run = p_main_thread (sim_pcb 1 [] NULL 0x4000 0x101 [0x100000])"
  by (simp add: sim_run_def sim_pcb_def)

theorem fork_creates_child_witness:
  "\<exists>newp np. pcb_at sim_run newp = None \<and> pcb_at sim_forked newp = Some np \<and> p_parent np = 1 \<and> p_pid np = 2"
  using fork_creates_child[OF sim_forked_fork sim_env_ok sim_run_current sim_run_main]
  by (auto simp: forked_pcb_def sim_run_def sim_root_def)

text \<open>
  Fork from a thread that is not the main thread of its process returns -1 and creates
  nothing, but it returns from between \<open>local_irq_save\<close> and \<open>local_irq_restore\<close>: whatever
  the flag was, the interrupts are off afterwards.
\<close>

theorem fork_refused_leaves_irqs_off:
  assumes "current_pcb s = Some a" and "pcb_at s a = Some pp" and "k_current s \<noteq> p_main_thread pp"
  shows "\<exists>t. do_fork E s = Some (- 1, t) \<and> k_procs t = k_procs s \<and>
    k_pid_current t = k_pid_current s \<and> k_irq_disabled t"
  using fork_body_refused[OF assms] by (simp add: do_fork_def)

definition sim_thread :: "sim_mm kstate" where
  "sim_thread = sim_run\<lparr>k_tcbs := (k_tcbs sim_run)(0x201 \<mapsto> sim_tcb ''worker'' 1), k_current := 0x201,
     k_irq_disabled := False\<rparr>"

theorem fork_refused_witness:
  "\<not> k_irq_disabled sim_thread \<and>
   (\<exists>t. do_fork sim_env sim_thread = Some (- 1, t) \<and> k_irq_disabled t)"
  using fork_refused_leaves_irqs_off[of sim_thread 1 "sim_pcb 1 [] NULL 0x4000 0x101 [0x100000]" sim_env]
  by (auto simp: sim_thread_def sim_run_def sim_root_def current_pcb_def pcb_at_def sim_tcb_def sim_pcb_def)

lemma set_name_overflow: "PROC_NAME_LEN \<le> length nm \<Longrightarrow> set_name a nm s = None"
  by (simp add: set_name_def)

text \<open>
  Each fork makes the name eight characters longer, at least, and \<open>name\<close> has 80: when the
  parent's name has 72 characters, fork by its main thread writes past the array. (The names are
  shortened by nothing but exec, so a chain of ten forks gets there.)
\<close>

theorem fork_name_overflow:
  assumes "current_pcb s = Some a" and "pcb_at s a = Some pp" and "k_current s = p_main_thread pp"
    and "72 \<le> length (p_name pp)"
  shows "do_fork E s = None"
proof -
  have len: "PROC_NAME_LEN \<le> length (child_name pp i)" for i
    using assms(4) length_show_int[of "sint i"] by (simp add: child_name_def PROC_NAME_LEN_def)
  have "fork_body E s = None"
    using assms(1-3) by (auto simp: fork_body_def local_irq_save_def Let_def case_prod_unfold
        set_name_overflow[OF len] split: bind_split)
  then show ?thesis by (simp add: do_fork_def)
qed

section \<open>Properties of exit and waitpid\<close>

lemma release_proc_pages_pcb:
  assumes "release_proc_pages E a s = Some t" and "pcb_at s a = Some p"
  shows "pcb_at t a = Some (p\<lparr>p_page_list := []\<rparr>)"
proof -
  have fr: "pcb_at (fold (release_page E) xs u) = pcb_at u" for xs and u
    by (induction xs arbitrary: u) (simp_all add: release_page_def Let_def)
  show ?thesis using assms fr[of "p_page_list p" s]
    by (auto simp: release_proc_pages_def upd_pcb_Some elim!: bind_SomeE)
qed

lemma do_exit_zombie:
  assumes ex: "do_exit E st s = Some t" and ok: "kenv_ok E" and cur: "current_pcb s = Some a"
  shows "\<exists>z. pcb_at t a = Some z \<and> p_state z = PROC_STATE_ZOMBIE \<and> p_exit_status z = st \<and>
    p_page_list z = []"
proof -
  let ?s1 = "(fold (ke_do_close E) [0..<FD_MAX] s)\<lparr>k_irq_disabled := True\<rparr>"
  from ex cur obtain s2 s3 pp where
    u2: "upd_pcb a (\<lambda>p. p\<lparr>p_state := PROC_STATE_ZOMBIE, p_exit_status := st\<rparr>) ?s1 = Some s2"
    and u3: "release_proc_pages E a (ke_serial_cleanup E s2) = Some s3"
    and t: "t = ke_thread_exit E (ke_do_kill E pp s3)"
    by (auto simp: do_exit_def bind_eq_Some_conv split: if_splits)
  from u2 obtain y where "pcb_at s2 a = Some (y\<lparr>p_state := PROC_STATE_ZOMBIE, p_exit_status := st\<rparr>)"
    by (auto simp: upd_pcb_Some) (simp add: pcb_at_def)
  then obtain q where "pcb_at s2 a = Some q" "p_state q = PROC_STATE_ZOMBIE" "p_exit_status q = st"
    by simp
  moreover have life: "same_life s2 (ke_serial_cleanup E s2)" "same_life s3 (ke_do_kill E pp s3)"
      "same_life (ke_do_kill E pp s3) t"
    using ok t by (simp_all add: kenv_ok_def)
  ultimately obtain q' where "pcb_at (ke_serial_cleanup E s2) a = Some q'"
      "p_state q' = PROC_STATE_ZOMBIE" "p_exit_status q' = st"
    using same_life_Some[OF life(1)] by metis
  from release_proc_pages_pcb[OF u3 this(1)] this(2,3)
  obtain z where z: "pcb_at s3 a = Some z" "p_state z = PROC_STATE_ZOMBIE" "p_exit_status z = st"
      "p_page_list z = []" by simp
  obtain z1 where z1: "pcb_at (ke_do_kill E pp s3) a = Some z1" "p_state z1 = PROC_STATE_ZOMBIE"
      "p_exit_status z1 = st" "p_page_list z1 = []"
    using same_life_Some[OF life(2) z(1)] z(2-4) by metis
  show ?thesis using same_life_Some[OF life(3) z1(1)] z1(2-4) by metis
qed

text \<open>
  C7. exit never returns for the root process (it panics), and for any other process it leaves
  a zombie: the PCB stays in the table with its exit status and no physical page, the pids and
  parents of all processes are as before.
\<close>

theorem exit_leaves_zombie:
  assumes ok: "kenv_ok E" and cur: "current_pcb s = Some a" "pcb_at s a = Some p"
  shows "(p_parent p = NULL \<longrightarrow> do_exit E st s = None) \<and>
    (\<forall>t. do_exit E st s = Some t \<longrightarrow> same_procs s t \<and>
       (\<exists>z. pcb_at t a = Some z \<and> p_state z = PROC_STATE_ZOMBIE \<and> p_exit_status z = st \<and>
            p_page_list z = []))"
proof (intro conjI allI impI)
  show "do_exit E st s = None" if "p_parent p = NULL" using cur that by (simp add: do_exit_def)
  fix t assume t: "do_exit E st s = Some t"
  show "same_procs s t" by (rule do_exit_same_procs[OF t ok])
  show "\<exists>z. pcb_at t a = Some z \<and> p_state z = PROC_STATE_ZOMBIE \<and> p_exit_status z = st \<and>
            p_page_list z = []" by (rule do_exit_zombie[OF t ok cur(1)])
qed

text \<open>The child of \<open>sim_forked\<close> runs, and exits with status 7.\<close>

definition sim_child :: "sim_mm kstate" where
  "sim_child = sim_forked\<lparr>k_current := 0x102\<rparr>"

definition sim_dead :: "sim_mm kstate" where
  "sim_dead = sim_child\<lparr>k_procs := [(1, sim_pcb 1 [] NULL 0x4000 0x101 [0x100000]),
       (2, (sim_pcb 2 ''_child_2'' 1 0x8000 0x102 [])
             \<lparr>p_state := PROC_STATE_ZOMBIE, p_exit_status := 7\<rparr>)]\<rparr>"

lemma sim_child_current:
  "current_pcb sim_child = Some 2" "pcb_at sim_child 2 = Some (sim_pcb 2 ''_child_2'' 1 0x8000 0x102 [])"
  by (simp_all add: sim_child_def sim_forked_def current_pcb_def pcb_at_def sim_tcb_def)

lemma fold_id: "fold (\<lambda>i s. s) xs s = s"
  by (induction xs) auto

lemma sim_env_exit:
  "ke_do_close sim_env = (\<lambda>i s. s)" "ke_serial_cleanup sim_env = (\<lambda>s. s)"
  "ke_thread_exit sim_env = (\<lambda>s. s)" "ke_do_kill sim_env = (\<lambda>p s. s)"
  by (simp_all add: sim_env_def)

lemma sim_dead_exit: "do_exit sim_env 7 sim_child = Some sim_dead"
  by (simp add: do_exit_def sim_child_current sim_env_exit fold_id release_proc_pages_def upd_pcb_def)
     (simp add: sim_dead_def sim_child_def sim_forked_def sim_run_def sim_root_def sim_boot_def pcb_at_def
      sim_pcb_def)

theorem exit_leaves_zombie_witness:
  "\<exists>z. pcb_at sim_dead 2 = Some z \<and> p_state z = PROC_STATE_ZOMBIE \<and> p_exit_status z = 7"
  using exit_leaves_zombie[OF sim_env_ok sim_child_current, of 7] sim_dead_exit by blast

text \<open>The status macros of \<open>sys/wait.h\<close> as the shell uses them.\<close>

definition WEXITSTATUS :: "u32 \<Rightarrow> u32" where "WEXITSTATUS w = drop_bit 8 w AND 0xff"
definition WTERMSIG :: "u32 \<Rightarrow> u32" where "WTERMSIG w = w AND 0x7f"

lemma status_masks: "(0xff :: u32) = mask 8" "(0x7f :: u32) = mask 7"
  by (simp_all add: mask_eq_exp_minus_1)

lemma WEXITSTATUS_status: "WEXITSTATUS (status_byte c) = p_exit_status c AND 0xff"
  unfolding WEXITSTATUS_def status_byte_def status_masks
  by (intro bit_word_eqI) (auto simp: bit_simps)

lemma WTERMSIG_status: "WTERMSIG (status_byte c) = 0"
  unfolding WTERMSIG_def status_byte_def status_masks
  by (intro bit_word_eqI) (auto simp: bit_simps)

lemma WEXITSTATUS_other: "WEXITSTATUS (WIFEXITED_WORD OR status_byte c) = 0xff"
  unfolding WEXITSTATUS_def WIFEXITED_WORD_def status_masks
  by (intro bit_word_eqI) (auto simp: bit_simps)

lemma reap_child_effect:
  assumes "reap_child E child c w word s = Some t" and inv: "proc_inv s"
  shows "(w \<noteq> NULL \<longrightarrow> k_umem t w = word) \<and>
    (\<forall>b. pcb_at t b = (if b = child \<and> find_proc_by_parent child s = NULL then None else pcb_at s b))"
proof -
  from assms(1) obtain mm where
    "(if find_proc_by_parent child (put_wstatus w word (s\<lparr>k_mm := mm\<rparr>)) = NULL
      then Some (remove_proc child (put_wstatus w word (s\<lparr>k_mm := mm\<rparr>)))
      else Some (put_wstatus w word (s\<lparr>k_mm := mm\<rparr>))) = Some t"
    unfolding reap_child_def Let_def by (rule bind_SomeE)
  moreover have "find_proc_by_parent child (put_wstatus w word (s\<lparr>k_mm := mm\<rparr>)) = find_proc_by_parent child s"
    for mm by (simp add: find_proc_by_parent_def)
  moreover have "distinct (map fst (k_procs s))" using proc_inv_keys[OF inv] by simp
  ultimately show ?thesis
    by (auto simp: remove_proc_def pcb_at_def map_of_remove_entry put_wstatus_def put_user_def split: if_splits)
qed

text \<open>
  C6. What waitpid gives for a child that has exited: the pid, the interrupt flag restored, a
  status word whose \<open>WEXITSTATUS\<close> is the low byte of the argument of exit and whose
  \<open>WTERMSIG\<close> is 0, and the child is off the table exactly when no process has it as parent;
  every other process stays.
\<close>

theorem waitpid_reaps_exited_child:
  assumes "kreachable E s" and "kenv_ok E"
    and "pcb_at s child = Some c" and "p_state c = PROC_STATE_ZOMBIE"
    and "p_ptrace_pending_req c = PTRACE_NO_REQUEST" and "w \<noteq> NULL"
    and "waitpid_leave E child pid w flags s = Some (r, t)"
  shows "r = sint pid \<and> k_irq_disabled t = flags \<and>
    WEXITSTATUS (k_umem t w) = p_exit_status c AND 0xff \<and> WTERMSIG (k_umem t w) = 0 \<and>
    (\<forall>b. pcb_at t b = (if b = child \<and> find_proc_by_parent child s = NULL then None else pcb_at s b))"
proof -
  from assms(3-5,7) obtain s1 where s1: "reap_child E child c w (status_byte c) s = Some s1"
    "r = sint pid" "t = local_irq_restore flags s1"
    by (auto simp: waitpid_leave_def elim!: bind_SomeE)
  from reap_child_effect[OF s1(1) kreachable_inv[OF assms(1,2)]] show ?thesis
    using assms(6) s1(2,3)
    by (auto simp: local_irq_restore_def pcb_at_def WEXITSTATUS_status WTERMSIG_status)
qed

lemma sim_dead_reachable: "kreachable sim_env sim_dead"
proof -
  have "kstep sim_env sim_forked sim_child"
    unfolding sim_child_def by (rule kstep.schedule) (simp add: sim_forked_def)
  with sim_forked_reachable have "kreachable sim_env sim_child" by (rule kreachable.step)
  then show ?thesis by (rule kreachable.step) (rule kstep.exit[OF sim_dead_exit])
qed

definition sim_zombie :: pcb where
  "sim_zombie = (sim_pcb 2 ''_child_2'' 1 0x8000 0x102 [])\<lparr>p_state := PROC_STATE_ZOMBIE, p_exit_status := 7\<rparr>"

lemma sim_dead_pcbs:
  "pcb_at sim_dead 2 = Some sim_zombie" "p_state sim_zombie = PROC_STATE_ZOMBIE"
  "p_ptrace_pending_req sim_zombie = PTRACE_NO_REQUEST" "p_exit_status sim_zombie = 7"
  by (simp_all add: sim_dead_def pcb_at_def sim_zombie_def sim_pcb_def)

text \<open>The parent waits: the child is gone and the status word holds 0x700.\<close>

definition sim_reaped :: "sim_mm kstate" where
  "sim_reaped = sim_root\<lparr>k_procs := [(1, sim_pcb 1 [] NULL 0x4000 0x101 [0x100000])],
     k_tcbs := [0x101 \<mapsto> sim_tcb ''root_proc'' 1, 0x102 \<mapsto> sim_tcb ''_child_2'' 2],
     k_current := 0x102, k_pid_current := 3, k_umem := (\<lambda>_. 0)(0x3000 := 0x700),
     k_mm := \<lparr>sm_next_frame = 0x101000, sm_freed = [], sm_next_table = 0xC000, sm_tables = [0x4000]\<rparr>\<rparr>"

lemma sim_reap:
  "waitpid_leave sim_env 2 2 0x3000 True sim_dead = Some (2, sim_reaped)"
  by (simp add: waitpid_leave_def sim_dead_pcbs reap_child_def status_byte_def)
     (simp add: sim_zombie_def sim_pcb_def sim_env_def sim_dead_def sim_child_def sim_forked_def sim_run_def
      sim_root_def sim_boot_def put_wstatus_def put_user_def find_proc_by_parent_def remove_proc_def
      local_irq_restore_def sim_reaped_def)

theorem waitpid_reaps_exited_child_witness:
  "WEXITSTATUS (k_umem sim_reaped 0x3000) = 7 \<and> pcb_at sim_reaped 2 = None"
  using waitpid_reaps_exited_child[OF sim_dead_reachable sim_env_ok sim_dead_pcbs(1-3) _ sim_reap]
  by (simp add: sim_dead_pcbs find_proc_by_parent_def sim_dead_def sim_pcb_def)


text \<open>
  The status of a child that is neither a zombie nor stopped by ptrace when the wait is over
  is \<open>~0x7f\<close> with the status byte or'ed in, so its \<open>WEXITSTATUS\<close> is 0xff whatever the child left;
  the page table is freed and the PCB removed all the same.
\<close>

theorem waitpid_other_branch:
  assumes "kreachable E s" and "kenv_ok E"
    and "pcb_at s child = Some c" and "p_state c \<noteq> PROC_STATE_ZOMBIE"
    and "p_ptrace_pending_req c = PTRACE_NO_REQUEST" and "w \<noteq> NULL"
    and "waitpid_leave E child pid w flags s = Some (r, t)"
  shows "WEXITSTATUS (k_umem t w) = 0xff \<and> (find_proc_by_parent child s = NULL \<longrightarrow> pcb_at t child = None)"
proof -
  from assms(3-5,7) obtain s1 where s1: "reap_child E child c w (WIFEXITED_WORD OR status_byte c) s = Some s1"
    "t = local_irq_restore flags s1"
    by (auto simp: waitpid_leave_def elim!: bind_SomeE)
  from reap_child_effect[OF s1(1) kreachable_inv[OF assms(1,2)]] show ?thesis
    using assms(6) s1(2) by (simp add: local_irq_restore_def pcb_at_def WEXITSTATUS_other)
qed

text \<open>
  A zombie that has children is not removed by the wait that reaps it, and keeps its
  page-table pointer and its state: waitpid(-1) can find it again, and waiting again for its pid frees the
  page table a second time, which for a table that can be freed only once stops the kernel.
\<close>

theorem zombie_with_children_freed_twice:
  assumes "kreachable E s" and "kenv_ok E"
    and c: "pcb_at s child = Some c" "p_state c = PROC_STATE_ZOMBIE" "p_ptrace_pending_req c = PTRACE_NO_REQUEST"
    and kids: "find_proc_by_parent child s \<noteq> NULL"
    and lv: "waitpid_leave E child pid w flags s = Some (r, t)"
    and once: "\<And>m m'. ke_reset_root_pgtable E (p_pgtable c) True m = Some m' \<Longrightarrow>
                 ke_reset_root_pgtable E (p_pgtable c) True m' = None"
  shows "pcb_at t child = Some c \<and> waitpid_leave E child pid' w' flags' t = None"
proof -
  from c lv obtain s1 where s1: "reap_child E child c w (status_byte c) s = Some s1"
    "t = local_irq_restore flags s1"
    by (auto simp: waitpid_leave_def elim!: bind_SomeE)
  from reap_child_effect[OF s1(1) kreachable_inv[OF assms(1,2)]] kids c(1) s1(2)
  have at: "pcb_at t child = Some c" by simp
  from s1(1) obtain mm where mm: "ke_reset_root_pgtable E (p_pgtable c) True (k_mm s) = Some mm"
    and "(let u = put_wstatus w (status_byte c) (s\<lparr>k_mm := mm\<rparr>) in
        if find_proc_by_parent child u = NULL then Some (remove_proc child u) else Some u) = Some s1"
    unfolding reap_child_def by (rule bind_SomeE)
  then have "k_mm t = mm"
    by (auto simp: s1(2) Let_def remove_proc_def local_irq_restore_def put_wstatus_def put_user_def split: if_splits)
  then have "reap_child E child c w' v t = None" for w' v using once[OF mm] by (simp add: reap_child_def)
  then show ?thesis using at c by (simp add: waitpid_leave_def)
qed

section \<open>Properties of the other calls\<close>

text \<open>
  C8. sbrk keeps the heap between 0 and \<open>HEAP_SIZE\<close>, and its 32-bit arithmetic is exact: with a
  heap of size h in the bounds, the call grants the increment exactly when h + increment is at
  least 0 and below \<open>HEAP_SIZE\<close>, returns the old break and moves it; otherwise it returns -1, sets
  ENOMEM and leaves the table as it is. No increment wraps around into a success.
\<close>

theorem sbrk_bounds:
  assumes cur: "current_pcb s = Some a" "a \<noteq> NULL" "pcb_at s a = Some p"
    and h: "h = sint (p_heap_pointer p - p_heap_base p)" "0 \<le> h" "h < ke_HEAP_SIZE E"
    and size: "ke_HEAP_SIZE E \<le> 2 ^ 31"
  shows "if 0 \<le> h + sint increment \<and> h + sint increment < ke_HEAP_SIZE E
    then \<exists>t q. do_sbrk E increment s = Some (sint (p_heap_pointer p), t) \<and> pcb_at t a = Some q \<and>
      sint (p_heap_pointer q - p_heap_base q) = h + sint increment \<and> p_heap_base q = p_heap_base p
    else do_sbrk E increment s = Some (- 1, set_errno (ke_ENOMEM E) s)"
proof -
  define z where "z = h + sint increment"
  define req where "req = p_heap_pointer p - p_heap_base p + increment"
  have inc: "- (2 ^ 31) \<le> sint increment" "sint increment < 2 ^ 31"
    using sint_ge[of increment] sint_less[of increment] by simp_all
  have req: "sint req = signed_take_bit 31 z"
    unfolding req_def z_def h(1) by (simp add: sint_word_ariths)
  have in_range: "sint req = z" if "z < 2 ^ 31"
    using that inc h(2) unfolding req by (intro signed_take_bit_int_eq_self) (simp_all add: z_def)
  have wrapped: "sint req < 0" if "2 ^ 31 \<le> z"
  proof -
    have "req = word_of_int z" unfolding req_def z_def h(1) by simp
    moreover have "z < 2 ^ 32" using inc(2) h(3) size by (simp add: z_def)
    moreover have odd: "z div 2147483648 = 1" using that \<open>z < 2 ^ 32\<close> by simp
    ultimately have "sint req = z - 2 ^ 32"
      using that odd unfolding req
      by (subst signed_take_bit_eq_take_bit_minus) (auto simp: take_bit_int_eq_self bit_iff_odd)
    then show ?thesis using \<open>z < 2 ^ 32\<close> by simp
  qed
  have iff: "(ke_HEAP_SIZE E \<le> sint req \<or> sint req < 0) \<longleftrightarrow> \<not> (0 \<le> z \<and> z < ke_HEAP_SIZE E)"
    using in_range wrapped size by (cases "z < 2 ^ 31") auto
  show ?thesis
  proof (cases "0 \<le> z \<and> z < ke_HEAP_SIZE E")
    case True
    have "sint (p_heap_pointer p + increment - p_heap_base p) = z"
      using in_range True size by (simp add: req_def algebra_simps)
    with True show ?thesis
      using cur iff by (auto simp: do_sbrk_def z_def[symmetric] req_def[symmetric] upd_pcb_def pcb_at_def)
  next
    case False
    then show ?thesis using cur iff
      by (auto simp: do_sbrk_def z_def[symmetric] req_def[symmetric])
  qed
qed

section \<open>Concrete runs of the calls\<close>

definition sim_long :: "sim_mm kstate" where
  "sim_long = sim_run\<lparr>k_procs := [(1, sim_pcb 1 (replicate 72 CHR ''x'') NULL 0x4000 0x101 [])]\<rparr>"

theorem fork_name_overflow_witness: "do_fork sim_env sim_long = None"
  by (rule fork_name_overflow[of sim_long 1 "sim_pcb 1 (replicate 72 CHR ''x'') NULL 0x4000 0x101 []"])
     (simp_all add: sim_long_def sim_run_def sim_root_def current_pcb_def pcb_at_def sim_tcb_def sim_pcb_def)


lemma sim_early_leave: "\<exists>r t. waitpid_leave sim_env 2 2 0x3000 True sim_forked = Some (r, t)"
  by (simp add: waitpid_leave_def sim_pcbs reap_child_def Let_def)
     (simp add: sim_pcb_def sim_env_def sim_forked_def)

theorem waitpid_other_branch_witness:
  "\<exists>t. waitpid_leave sim_env 2 2 0x3000 True sim_forked = Some (2, t) \<and> WEXITSTATUS (k_umem t 0x3000) = 0xff"
proof -
  obtain r t where t: "waitpid_leave sim_env 2 2 0x3000 True sim_forked = Some (r, t)"
    using sim_early_leave by blast
  then have "r = 2" by (auto simp: waitpid_leave_def elim!: bind_SomeE)
  with waitpid_other_branch[OF sim_forked_reachable sim_env_ok sim_pcbs(2) _ _ _ t] t show ?thesis
    by (simp add: sim_pcb_def)
qed

text \<open>The child of \<open>sim_forked\<close> forks, then exits before its own child.\<close>

definition sim_grand :: "sim_mm kstate" where
  "sim_grand = sim_child\<lparr>k_procs := k_procs sim_forked @ [(3, sim_pcb 3 ''_child_2_child_3'' 2 0xC000 0x103 [])],
     k_tcbs := (k_tcbs sim_forked)(0x103 \<mapsto> sim_tcb ''_child_2_child_3'' 3), k_pid_current := 4,
     k_mm := \<lparr>sm_next_frame = 0x101000, sm_freed = [], sm_next_table = 0x10000, sm_tables = [0xC000, 0x8000, 0x4000]\<rparr>\<rparr>"

definition sim_orphan :: "sim_mm kstate" where
  "sim_orphan = sim_grand\<lparr>k_procs := [(1, sim_pcb 1 [] NULL 0x4000 0x101 [0x100000]), (2, sim_zombie),
     (3, sim_pcb 3 ''_child_2_child_3'' 2 0xC000 0x103 [])]\<rparr>"

lemma show_nat_3: "show_nat 3 = ''3''"
  by code_simp

lemma sim_grand_fork: "do_fork sim_env sim_child = Some (3, sim_grand)"
  by (simp add: do_fork_def fork_body_def duplicate_process_def set_name_def child_name_def
      show_int_def show_nat_3 local_irq_save_def local_irq_restore_def current_pcb_def sim_child_def
      sim_defs sim_run_def sim_forked_def sim_grand_def sim_root_def sim_pcb_def sim_tcb_def PROC_NAME_LEN_def)

lemma sim_orphan_exit: "do_exit sim_env 7 sim_grand = Some sim_orphan"
proof -
  have "current_pcb sim_grand = Some 2" "pcb_at sim_grand 2 = Some (sim_pcb 2 ''_child_2'' 1 0x8000 0x102 [])"
    by (simp_all add: sim_grand_def sim_child_def sim_forked_def current_pcb_def pcb_at_def sim_tcb_def)
  then show ?thesis
    by (simp add: do_exit_def sim_env_exit fold_id release_proc_pages_def upd_pcb_def)
       (simp add: sim_orphan_def sim_zombie_def sim_grand_def sim_child_def sim_forked_def sim_run_def
        sim_root_def sim_boot_def pcb_at_def sim_pcb_def)
qed

lemma sim_orphan_reachable: "kreachable sim_env sim_orphan"
proof -
  have "kstep sim_env sim_forked sim_child"
    unfolding sim_child_def by (rule kstep.schedule) (simp add: sim_forked_def)
  with sim_forked_reachable have "kreachable sim_env sim_child" by (rule kreachable.step)
  moreover have "kstep sim_env sim_child sim_grand"
    by (rule kstep.fork[OF sim_grand_fork]) (simp add: sim_child_def sim_forked_def)
  ultimately have "kreachable sim_env sim_grand" by (rule kreachable.step)
  then show ?thesis by (rule kreachable.step) (rule kstep.exit[OF sim_orphan_exit])
qed

lemma sim_orphan_zombie: "pcb_at sim_orphan 2 = Some sim_zombie"
    "find_proc_by_parent 2 sim_orphan \<noteq> NULL"
  by (simp_all add: sim_orphan_def pcb_at_def find_proc_by_parent_def sim_zombie_def sim_pcb_def)

lemma sim_orphan_leave: "\<exists>r t. waitpid_leave sim_env 2 2 0x3000 True sim_orphan = Some (r, t)"
  by (simp add: waitpid_leave_def sim_orphan_zombie sim_dead_pcbs reap_child_def Let_def)
     (simp add: sim_zombie_def sim_pcb_def sim_env_def sim_orphan_def sim_grand_def)

lemma sim_table_once:
  "ke_reset_root_pgtable sim_env p True m = Some m' \<Longrightarrow> ke_reset_root_pgtable sim_env p True m' = None"
  by (auto simp: sim_env_def split: if_splits)

theorem zombie_with_children_witness:
  "\<exists>t. waitpid_leave sim_env 2 2 0x3000 True sim_orphan = Some (2, t) \<and>
       waitpid_leave sim_env 2 2 0x3000 True t = None"
proof -
  obtain r t where t: "waitpid_leave sim_env 2 2 0x3000 True sim_orphan = Some (r, t)"
    using sim_orphan_leave by blast
  then have "r = 2" by (auto simp: waitpid_leave_def elim!: bind_SomeE)
  moreover have "waitpid_leave sim_env 2 2 0x3000 True t = None"
    by (rule zombie_with_children_freed_twice[OF sim_orphan_reachable sim_env_ok sim_orphan_zombie(1)
        sim_dead_pcbs(2,3) sim_orphan_zombie(2) t, THEN conjunct2]) (rule sim_table_once)
  ultimately show ?thesis using t by blast
qed

theorem sbrk_bounds_witness:
  "do_sbrk sim_env 0x10000 sim_run = Some (- 1, set_errno 12 sim_run) \<and>
   (\<exists>t. do_sbrk sim_env 0xFFFF sim_run = Some (0, t))"
proof -
  have h: "(0 :: int) = sint (p_heap_pointer (sim_pcb 1 [] NULL 0x4000 0x101 [0x100000]) -
      p_heap_base (sim_pcb 1 [] NULL 0x4000 0x101 [0x100000]))" by (simp add: sim_pcb_def)
  have e: "ke_HEAP_SIZE sim_env = 0x10000" "ke_ENOMEM sim_env = 12"
    "p_heap_pointer (sim_pcb 1 [] NULL 0x4000 0x101 [0x100000]) = 0"
    by (simp_all add: sim_env_def sim_pcb_def)
  show ?thesis
    using sbrk_bounds[OF sim_run_current(1) _ sim_run_current(2) h, of sim_env "0x10000"]
      sbrk_bounds[OF sim_run_current(1) _ sim_run_current(2) h, of sim_env "0xFFFF"]
    by (auto simp: e)
qed

subsection \<open>File descriptors\<close>

lemma free_fd_from_spec:
  "(free_fd_from i xs = - 1 \<and> - 1 \<notin> set xs) \<or>
   (\<exists>k < length xs. free_fd_from i xs = int (i + k) \<and> xs ! k = - 1 \<and> (\<forall>j < k. xs ! j \<noteq> - 1))"
proof (induction i xs rule: free_fd_from.induct)
  case (2 i x xs)
  show ?case
  proof (cases "x = - 1")
    case True
    then show ?thesis by (intro disjI2 exI[of _ 0]) simp
  next
    case False
    from 2[OF False] show ?thesis
    proof
      assume "\<exists>k < length xs. free_fd_from (Suc i) xs = int (Suc i + k) \<and> xs ! k = - 1 \<and> (\<forall>j < k. xs ! j \<noteq> - 1)"
      then obtain k where k: "k < length xs" "free_fd_from (Suc i) xs = int (Suc i + k)" "xs ! k = - 1"
        "\<forall>j < k. xs ! j \<noteq> - 1" by blast
      have "\<forall>j < Suc k. (x # xs) ! j \<noteq> - 1" using False k(4) by (auto simp: less_Suc_eq_0_disj)
      with k False show ?thesis by (intro disjI2 exI[of _ "Suc k"]) simp
    qed (use False in simp)
  qed
qed simp

text \<open>
  C31. A new descriptor is the lowest free one: with a table of \<open>FD_MAX\<close> entries, registering a
  global descriptor gives the least index that holds -1, stores it there and touches no
  other entry; when no entry is free the result is -1, errno is ENFILE and the table is as before.
\<close>

theorem register_fd_lowest:
  assumes cur: "current_pcb s = Some a" "a \<noteq> NULL" "pcb_at s a = Some p"
    and len: "length (p_fd_array p) = FD_MAX"
  shows "(- 1 \<notin> set (p_fd_array p) \<and> proc_register_fd E gfd s = Some (- 1, set_errno (ke_ENFILE E) s)) \<or>
    (\<exists>k t. k < FD_MAX \<and> p_fd_array p ! k = - 1 \<and> (\<forall>j < k. p_fd_array p ! j \<noteq> - 1) \<and>
       proc_register_fd E gfd s = Some (int k, t) \<and>
       pcb_at t a = Some (p\<lparr>p_fd_array := (p_fd_array p)[k := gfd]\<rparr>))"
  using free_fd_from_spec[of 0 "p_fd_array p"]
proof
  assume "free_fd_from 0 (p_fd_array p) = - 1 \<and> - 1 \<notin> set (p_fd_array p)"
  then show ?thesis using cur len by (simp add: proc_register_fd_def proc_new_fd_def)
next
  assume "\<exists>k < length (p_fd_array p). free_fd_from 0 (p_fd_array p) = int (0 + k) \<and>
     p_fd_array p ! k = - 1 \<and> (\<forall>j < k. p_fd_array p ! j \<noteq> - 1)"
  then obtain k where "k < FD_MAX" "free_fd_from 0 (p_fd_array p) = int k" "p_fd_array p ! k = - 1"
     "\<forall>j < k. p_fd_array p ! j \<noteq> - 1" using len by auto
  then show ?thesis using cur len
    by (intro disjI2 exI[of _ k])
       (simp add: proc_register_fd_def proc_new_fd_def Let_def upd_pcb_def)
qed

theorem register_fd_lowest_witness:
  "\<exists>t. proc_register_fd sim_env 5 sim_run = Some (3, t)"
proof -
  let ?p = "sim_pcb 1 [] NULL 0x4000 0x101 [0x100000]"
  have len: "length (p_fd_array ?p) = FD_MAX" by (simp add: sim_pcb_def sim_fds_def FD_MAX_def)
  have fds: "p_fd_array ?p = 0 # 1 # 2 # - 1 # replicate 60 (- 1)"
    by (simp add: sim_pcb_def sim_fds_def numeral_eq_Suc)
  from register_fd_lowest[OF sim_run_current(1) _ sim_run_current(2) len, of sim_env 5]
  obtain k t where k: "p_fd_array ?p ! k = - 1" "\<forall>j < k. p_fd_array ?p ! j \<noteq> - 1"
    "proc_register_fd sim_env 5 sim_run = Some (int k, t)"
    by (auto simp: fds)
  have "\<not> k < 3"
  proof
    assume "k < 3"
    then have "k = 0 \<or> k = 1 \<or> k = 2" by auto
    with k(1) show False by (auto simp: fds)
  qed
  moreover have "\<not> 3 < k" using k(2) by (auto simp: fds)
  ultimately have "k = 3" by simp
  with k(3) show ?thesis by auto
qed

section \<open>The page reference counts\<close>

definition page_refs :: "'m kstate \<Rightarrow> frame \<Rightarrow> int" where
  "page_refs s pg = sum_list (map (\<lambda>(a, p). int (count_list (p_page_list p) pg)) (k_procs s))"

text \<open>Each counter is the number of entries for the page in the page lists of all processes.\<close>

definition refs_ok :: "'m kstate \<Rightarrow> bool" where
  "refs_ok s \<longleftrightarrow> (\<forall>pg. k_refcount s pg = page_refs s pg)"

lemma sum_upd_entry:
  assumes "map_of xs a = Some p"
  shows "sum_list (map (\<lambda>(a, p). g p) (upd_entry a f xs))
    = sum_list (map (\<lambda>(a, p). g p) xs) - g p + (g (f p) :: int)"
  using assms by (induction xs) (auto split: if_splits)

lemma page_refs_upd:
  assumes "upd_pcb a f s = Some t" and "pcb_at s a = Some p"
  shows "page_refs t pg = page_refs s pg - int (count_list (p_page_list p) pg)
    + int (count_list (p_page_list (f p)) pg)"
proof -
  have "k_procs t = upd_entry a f (k_procs s)" using assms(1) by (auto simp: upd_pcb_Some)
  then show ?thesis
    using sum_upd_entry[of "k_procs s" a p "\<lambda>p. int (count_list (p_page_list p) pg)" f] assms(2)
    by (simp add: page_refs_def pcb_at_def)
qed

lemma page_refs_frame [simp]:
  "page_refs (s\<lparr>k_mm := m\<rparr>) = page_refs s"
  "page_refs (s\<lparr>k_mm := m, k_refcount := r\<rparr>) = page_refs s"
  by (simp_all add: page_refs_def fun_eq_iff)

lemma add_page_refs:
  assumes "add_page_to_proc E a pg s = Some t" and "refs_ok s"
  shows "refs_ok t"
proof -
  from assms(1) obtain mm where
    u: "upd_pcb a (\<lambda>p. p\<lparr>p_page_list := p_page_list p @ [pg]\<rparr>)
       (s\<lparr>k_mm := mm, k_refcount := (k_refcount s)(pg := k_refcount s pg + 1)\<rparr>) = Some t"
    unfolding add_page_to_proc_def link_page_def by (elim bind_SomeE) simp
  then obtain p where p: "pcb_at (s\<lparr>k_mm := mm, k_refcount := (k_refcount s)(pg := k_refcount s pg + 1)\<rparr>) a = Some p"
    by (auto simp: upd_pcb_Some)
  have "k_refcount t = (k_refcount s)(pg := k_refcount s pg + 1)" using u by (auto simp: upd_pcb_Some)
  then show ?thesis using assms(2) by (auto simp: refs_ok_def page_refs_upd[OF u p])
qed

lemma fold_release_refcount:
  "k_refcount (fold (release_page E) xs s) pg = k_refcount s pg - int (count_list xs pg)"
  by (induction xs arbitrary: s) (auto simp: release_page_def Let_def)

lemma fold_release_procs [simp]: "k_procs (fold (release_page E) xs s) = k_procs s"
  by (induction xs arbitrary: s) (simp_all add: release_page_def Let_def)

text \<open>What is handed back to the allocator, seen through an allocator that keeps a log.\<close>

lemma fold_release_log:
  assumes "ke_free_node E = id" and "ke_free_page E = (\<lambda>f m. f # m)"
    and "\<And>pg. int (count_list xs pg) \<le> k_refcount s pg"
  shows "count_list (k_mm (fold (release_page E) xs s)) pg = count_list (k_mm s) pg +
    (if pg \<in> set xs \<and> k_refcount s pg = int (count_list xs pg) then 1 else 0)"
  using assms(3)
proof (induction xs arbitrary: s)
  case (Cons x xs)
  let ?s = "release_page E x s"
  have ref: "k_refcount ?s = (k_refcount s)(x := k_refcount s x - 1)"
    and mm: "k_mm ?s = (if k_refcount s x = 1 then x # k_mm s else k_mm s)"
    by (simp_all add: release_page_def Let_def assms(1,2))
  have le: "int (count_list xs q) \<le> k_refcount ?s q" for q
    using Cons.prems[of q] by (auto simp: ref split: if_splits)
  have z: "count_list xs x = 0" if "k_refcount s x = 1" using le[of x] that by (simp add: ref)
  note ih = Cons.IH[OF le]
  show ?case
  proof (cases "pg = x")
    case False
    then show ?thesis using ih by (simp add: ref mm)
  next
    case True
    have ih': "count_list (k_mm (fold (release_page E) xs ?s)) x = count_list (k_mm ?s) x +
        (if x \<in> set xs \<and> k_refcount s x - 1 = int (count_list xs x) then 1 else 0)"
      using ih True by (simp add: ref)
    show ?thesis
    proof (cases "k_refcount s x = 1")
      case one: True
      then have "x \<notin> set xs" using z by (simp add: count_list_0_iff)
      then have a: "count_list (k_mm (fold (release_page E) xs ?s)) x = count_list (k_mm ?s) x"
        and b: "int (count_list (x # xs) x) = 1" using ih' z one by simp_all
      have "count_list (k_mm ?s) x = count_list (k_mm s) x + 1" using one by (simp add: mm)
      with a b one True show ?thesis by simp
    next
      case False
      have mem: "x \<in> set xs \<and> k_refcount s x - 1 = int (count_list xs x)
          \<longleftrightarrow> k_refcount s x = int (count_list (x # xs) x)"
        using False by (cases "x \<in> set xs") auto
      have "count_list (k_mm ?s) x = count_list (k_mm s) x" using False by (simp add: mm)
      with ih'[unfolded mem] True show ?thesis by simp
    qed
  qed
qed simp

text \<open>
  C11. Releasing the pages of a process keeps the reference counts exact (each counter is the
  number of page-list entries of all processes that name the page), and hands a page back to
  the allocator exactly when the last process using it lets it go, exactly once.
  The allocator is seen through the list of the frames given back.
\<close>

theorem release_frees_last_reference:
  assumes log: "ke_free_node E = id" "ke_free_page E = (\<lambda>f m. f # m)"
    and refs: "refs_ok s" and p: "pcb_at s a = Some p"
  shows "\<exists>t. release_proc_pages E a s = Some t \<and> refs_ok t \<and>
    (\<forall>pg. count_list (k_mm t) pg = count_list (k_mm s) pg +
       (if pg \<in> set (p_page_list p) \<and> page_refs t pg = 0 then 1 else 0))"
proof -
  let ?u = "fold (release_page E) (p_page_list p) s"
  have pu: "pcb_at ?u a = Some p" using p by (simp add: pcb_at_def)
  obtain t where t: "upd_pcb a (\<lambda>p. p\<lparr>p_page_list := []\<rparr>) ?u = Some t"
    using pu by (simp add: upd_pcb_def)
  have refs_t: "page_refs t pg = k_refcount s pg - int (count_list (p_page_list p) pg)" for pg
    using page_refs_upd[OF t pu, of pg] refs by (simp add: refs_ok_def page_refs_def)
  have fields: "k_refcount t = k_refcount ?u" "k_mm t = k_mm ?u" using t by (auto simp: upd_pcb_Some)
  have "refs_ok t" by (simp add: refs_ok_def fields fold_release_refcount refs_t)
  moreover have "int (count_list (p_page_list p) pg) \<le> k_refcount s pg" for pg
  proof -
    have nn: "0 \<le> (\<Sum>x\<leftarrow>xs. (case x of (a, p) \<Rightarrow> int (count_list (p_page_list p) pg)))" for xs :: "(addr \<times> pcb) list"
      by (induction xs) auto
    have "map_of xs a = Some p \<Longrightarrow> int (count_list (p_page_list p) pg)
        \<le> (\<Sum>x\<leftarrow>xs. (case x of (a, p) \<Rightarrow> int (count_list (p_page_list p) pg)))" for xs
    proof (induction xs)
      case (Cons x xs)
      then show ?case using nn[of xs] by (cases x) (auto split: if_splits)
    qed simp
    then show ?thesis using refs p by (simp add: refs_ok_def page_refs_def pcb_at_def)
  qed
  note logged = fold_release_log[OF log this]
  have "count_list (k_mm t) pg = count_list (k_mm s) pg +
       (if pg \<in> set (p_page_list p) \<and> page_refs t pg = 0 then 1 else 0)" for pg
    using logged[of pg] by (simp add: fields refs_t)
  ultimately show ?thesis using t p by (auto simp: release_proc_pages_def)
qed

text \<open>Two processes share a page, as after a fork of a process with that page.\<close>

definition log_env :: "frame list kenv" where
  "log_env = \<lparr>ke_HEAP_SIZE = 0x10000, ke_PAGE_SIZE = 0x1000, ke_PAGE_SHIFT = 12,
     ke_THREAD_STACK_SIZE = 0x80, ke_ALIGN_UP = (\<lambda>x a. (x + a - 1) div a * a),
     ke_USER_SPACE_VADDR = 0x1000, ke_root_proc_start = 0x8000, ke_root_proc_size = 0x1000,
     ke_STDIN = 0, ke_STDOUT = 1, ke_STDERR = 2,
     ke_ECHILD = 10, ke_ENOMEM = 12, ke_ESRCH = 3, ke_ENFILE = 23, ke_WNOHANG = 1,
     ke_args_base = 0xBFFFF000,
     ke_malloc_pcb = (\<lambda>s. NULL), ke_malloc_node = Some, ke_free_node = id,
     ke_new_root_pgtable = (\<lambda>m. Some (0x4000, m)),
     ke_pgtable_copy_kernel_area = (\<lambda>t m. m),
     ke_reset_root_pgtable = (\<lambda>t remove m. Some m),
     ke_get_free_page = (\<lambda>m. (0x100000, m)), ke_free_page = (\<lambda>f m. f # m),
     ke_create_mapping = (\<lambda>t v p n c m. Some m),
     ke_duplicate_user_space = (\<lambda>a b s. Some s),
     ke_vfs_clone_fd = (\<lambda>old new. (False, old)),
     ke_user_thread = (\<lambda>f n arg a s. (a, s)),
     ke_copy_context = (\<lambda>new old s. s), ke_raise_softirq = (\<lambda>s. s), ke_ready = (\<lambda>t s. s),
     ke_thread_join = (\<lambda>t s. s), ke_thread_exit = (\<lambda>s. s), ke_do_close = (\<lambda>i s. s),
     ke_serial_cleanup = (\<lambda>s. s), ke_do_kill = (\<lambda>p s. s)\<rparr>"

definition log_state :: "frame list kstate" where
  "log_state = \<lparr>k_procs = [(1, sim_pcb 1 [] NULL 0x4000 0x101 [0x5000, 0x6000]),
       (2, sim_pcb 2 [] 1 0x8000 0x102 [0x6000])], k_tcbs = (\<lambda>_. None), k_pid_current = 3,
     k_root_process = 1, k_current = NULL, k_irq_disabled = False, k_errno_addr = NULL,
     k_umem = (\<lambda>_. 0), k_refcount = (\<lambda>_. 0)(0x5000 := 1, 0x6000 := 2), k_log = [], k_mm = []\<rparr>"

theorem release_frees_last_reference_witness:
  "\<exists>t. release_proc_pages log_env 1 log_state = Some t \<and>
     count_list (k_mm t) 0x5000 = 1 \<and> k_refcount t 0x6000 = 1"
proof -
  have refs: "refs_ok log_state"
    by (auto simp: refs_ok_def page_refs_def log_state_def sim_pcb_def)
  have p: "pcb_at log_state 1 = Some (sim_pcb 1 [] NULL 0x4000 0x101 [0x5000, 0x6000])"
    by (simp add: pcb_at_def log_state_def)
  have env: "ke_free_node log_env = id" "ke_free_page log_env = (\<lambda>f m. f # m)"
    by (simp_all add: log_env_def)
  obtain t where t: "release_proc_pages log_env 1 log_state = Some t" "refs_ok t"
    and c: "count_list (k_mm t) 0x5000 = count_list (k_mm log_state) 0x5000 +
       (if 0x5000 \<in> set (p_page_list (sim_pcb 1 [] NULL 0x4000 0x101 [0x5000, 0x6000])) \<and> page_refs t 0x5000 = 0
        then 1 else 0)"
    using release_frees_last_reference[OF env refs p] by blast
  have pr: "k_procs t = upd_entry 1 (\<lambda>p. p\<lparr>p_page_list := []\<rparr>) (k_procs log_state)"
    using t(1) by (auto simp: release_proc_pages_def upd_pcb_Some elim!: bind_SomeE)
  have "page_refs t 0x5000 = 0" "page_refs t 0x6000 = 1"
    by (simp_all add: page_refs_def pr log_state_def sim_pcb_def)
  then show ?thesis using t c by (auto simp: refs_ok_def log_state_def sim_pcb_def)
qed

section \<open>The dumps\<close>

text \<open>
  \<open>do_ps\<close> returns inside its loop when a process has no thread besides its main thread:
  whatever processes come after the first such process, they are not listed. With a first
  process of that kind the output is one line, however many processes there are.
\<close>

theorem ps_stops_early:
  assumes "k_procs s = (a, p) # ps" and "p_threads p = []" and "k_tcbs s (p_main_thread p) = Some m"
  shows "\<exists>t. do_ps s = Some t \<and> k_log t = k_log s @ [PsSeparator,
     PsMain (p_pid p) (t_tid m) (t_priority m) (t_name m), PsSeparator]"
  using assms by (simp add: do_ps_def klog_def)

theorem ps_stops_early_witness:
  "length (k_procs sim_forked) = 2 \<and> (\<exists>t. do_ps sim_forked = Some t \<and> length (k_log t) = 3)"
  using ps_stops_early[of sim_forked 1 "sim_pcb 1 [] NULL 0x4000 0x101 [0x100000]"
      "[(2, sim_pcb 2 ''_child_2'' 1 0x8000 0x102 [])]" "sim_tcb ''root_proc'' 1"]
  by (auto simp: sim_forked_def sim_run_def sim_root_def sim_boot_def sim_pcb_def)

text \<open>
  renice refuses priority 0 with -1; for a listed pid it sets the priority of that process'
  main thread and of no other thread; for an unknown pid it reports success (0) all the same.
\<close>

theorem renice_effect:
  assumes "kreachable E s" and "kenv_ok E"
  shows "do_renice pid 0 s = Some (- 1, klog RenicePriorityZero s) \<and>
    (pcb_at s a = Some p \<and> k_tcbs s (p_main_thread p) = Some m \<and> new_prio \<noteq> 0 \<longrightarrow>
      (\<exists>t. do_renice (p_pid p) new_prio s = Some (0, t) \<and> k_procs t = k_procs s \<and>
         k_tcbs t = (k_tcbs s)(p_main_thread p \<mapsto> m\<lparr>t_prio := new_prio\<rparr>))) \<and>
    ((\<forall>a p. pcb_at s a = Some p \<longrightarrow> p_pid p \<noteq> pid) \<and> new_prio \<noteq> 0 \<longrightarrow>
      do_renice pid new_prio s = Some (0, klog (ReniceNotFound pid) s))"
proof (intro conjI impI)
  note inv = kreachable_inv[OF assms]
  show "do_renice pid 0 s = Some (- 1, klog RenicePriorityZero s)" by (simp add: do_renice_def)
  show "\<exists>t. do_renice (p_pid p) new_prio s = Some (0, t) \<and> k_procs t = k_procs s \<and>
         k_tcbs t = (k_tcbs s)(p_main_thread p \<mapsto> m\<lparr>t_prio := new_prio\<rparr>)"
    if c: "pcb_at s a = Some p \<and> k_tcbs s (p_main_thread p) = Some m \<and> new_prio \<noteq> 0"
  proof -
    have "find_proc_by_pid (p_pid p) s = a"
      using c by_pid.unique[OF inv, of a p "p_pid p"] proc_inv_pid_inj[OF inv, of _ _ a p] by metis
    moreover have "a \<noteq> NULL" using c proc_inv_not_null[OF inv] by auto
    ultimately show ?thesis using c by (simp add: do_renice_def klog_def)
  qed
  show "do_renice pid new_prio s = Some (0, klog (ReniceNotFound pid) s)"
    if c: "(\<forall>a p. pcb_at s a = Some p \<longrightarrow> p_pid p \<noteq> pid) \<and> new_prio \<noteq> 0"
    using c by_pid.null_iff[OF inv] by (simp add: do_renice_def)
qed

theorem renice_effect_witness:
  "\<exists>t. do_renice 2 5 sim_forked = Some (0, t) \<and> map_option t_prio (k_tcbs t 0x102) = Some 5"
  using renice_effect[OF sim_forked_reachable sim_env_ok, of 2 2 "sim_pcb 2 ''_child_2'' 1 0x8000 0x102 []"
      "sim_tcb ''_child_2'' 2" 5]
  by (auto simp: sim_forked_def sim_tcb_def sim_pcb_def pcb_at_def)

end
