(* ===== verification/ExecProps.thy ===== *)
theory ExecProps
  imports KRun
begin

text \<open>
  Properties of \<open>execve\<close> (\<open>so3/kernel/process.c\<close>): the pages of the new image, what the loader
  copies, the arguments as the new program finds them, and the error paths.
\<close>

section \<open>A concrete program\<close>

text \<open>
  A file with a code section and a \<open>.bss\<close>, and an ELF reader that finds only this file; new
  frames hold the byte 0xAA.
\<close>

definition sim_text :: elf_section where
  "sim_text = \<lparr>sh_name = ''.text'', sh_type = 1, sh_addr = 0x1000, sh_offset = 0x40, sh_size = 8\<rparr>"

definition sim_bss :: elf_section where
  "sim_bss = \<lparr>sh_name = ''.bss'', sh_type = 8, sh_addr = 0x1008, sh_offset = 0x48, sh_size = 8\<rparr>"

definition sim_img :: elf_img_info where
  "sim_img = \<lparr>e_entry = 0x1000, e_sections = [sim_text, sim_bss],
     e_segments = [\<lparr>ph_type = 1, ph_offset = 0x40, ph_memsz = 0x10\<rparr>],
     segment_page_count = 1, file_buffer = ucast\<rparr>"

definition sim_xenv :: "sim_mm xenv" where
  "sim_xenv = \<lparr>xe_elf_load = (\<lambda>f m. (if f = ''ls.elf'' then Some sim_img else None, m)),
     xe_elf_clean = id, xe_malloc = (\<lambda>m. (0x20000, m)), xe_free = (\<lambda>a m. m),
     xe_user_bytes = (\<lambda>m v. 0xAA), xe_flush_dcache = id, xe_PT_LOAD = 1, xe_SHT_NOBITS = 8,
     xe_ENOENT = 2, xe_EINVAL = 22\<rparr>"

definition exec_env :: "sim_mm kenv" where
  "exec_env = sim_env\<lparr>ke_HEAP_SIZE := 0x1000,
     ke_user_thread := (\<lambda>f n arg a s. (a + 0x200, s\<lparr>k_tcbs := (k_tcbs s)(a + 0x200 \<mapsto>
        \<lparr>t_tid = 2, t_name = n, t_prio = 10, t_priority = 10, t_pcb = a, t_joinQueue = []\<rparr>)\<rparr>))\<rparr>"

lemma sim_pages:
  "stack_pages exec_env = 1" "heap_pages exec_env = 1" "ke_PAGE_SIZE exec_env = 0x1000"
  "ke_args_base exec_env = 0xBFFFF000"
  by (simp_all add: stack_pages_def heap_pages_def exec_env_def sim_env_def PROC_THREAD_MAX_def)

lemma sim_loaded: "loaded_section sim_xenv sim_img sec \<longleftrightarrow> sec = sim_text"
  by (auto simp: loaded_section_def sim_img_def sim_xenv_def sim_text_def sim_bss_def supported_section_names_def)

definition sim_exec :: "(addr \<Rightarrow> u32) \<Rightarrow> sim_mm kstate" where
  "sim_exec u = sim_run\<lparr>k_irq_disabled := True, k_umem := u,
     k_procs := [(1, sim_pcb 1 ''ls.elf'' NULL 0x4000 0x101 [0x100000])]\<rparr>"

lemma sim_exec_facts:
  "current_pcb (sim_exec u) = Some 1"
  "pcb_at (sim_exec u) 1 = Some (sim_pcb 1 ''ls.elf'' NULL 0x4000 0x101 [0x100000])"
  "set_name 1 ''ls.elf'' (sim_run\<lparr>k_irq_disabled := True\<rparr>) = Some (sim_exec (k_umem sim_run))"
  by (simp_all add: sim_exec_def sim_run_def sim_root_def current_pcb_def pcb_at_def sim_tcb_def sim_pcb_def
      set_name_def PROC_NAME_LEN_def upd_pcb_def)

lemma sim_image: "\<exists>t. new_image exec_env sim_img 1 (sim_exec u) = Some t \<and>
   k_tcbs t = k_tcbs sim_run \<and> k_current t = 0x101 \<and> (\<exists>p. k_procs t = [(1, p)])"
  by (simp add: new_image_def exec_env_def sim_defs sim_exec_def sim_run_def sim_root_def sim_pcb_def sim_img_def
      release_proc_pages_def release_page_def)

lemma sim_setup:
  assumes args: "args \<noteq> []" and fit: "args_size args (env_list envp) \<le> 0x1000"
  shows "\<exists>mem t. setup_proc_image_replace exec_env sim_xenv sim_img 1 (length args) (Some args) envp
     (sim_exec (k_umem sim_run)) = Some (mem, t) \<and>
     k_tcbs t = k_tcbs sim_run \<and> k_current t = 0x101 \<and> (\<exists>p. k_procs t = [(1, p)])"
proof -
  obtain t where t: "new_image exec_env sim_img 1 (sim_exec (k_umem sim_run)) = Some t"
    "k_tcbs t = k_tcbs sim_run" "k_current t = 0x101" "\<exists>p. k_procs t = [(1, p)]" using sim_image by blast
  from fit args args_roundtrip[of "''ls.elf''" args envp "0x1000" "0x20000" "Some args" "0xBFFFF000" "\<lambda>i. 0xAA"]
  obtain m m' where "preserve_args_and_env 0x1000 0x20000 ''ls.elf'' (length args) (Some args) envp = Some (Inr m)"
    "post_setup_image 0x1000 0x20000 0xBFFFF000 m (\<lambda>i. 0xAA) = Some m'"
    by (auto simp: arg_list_def)
  then show ?thesis
    using t by (simp add: setup_proc_image_replace_def sim_exec_facts save_args_def sim_xenv_def sim_pages Let_def
        sim_pcb_def)
qed

lemma sim_args_fit: "args_size [''ls''] (env_list None) \<le> 0x1000" "args_size [''ls'', ''-l''] (env_list None) \<le> 0x1000"
  by (simp_all add: args_size_def strings_start_def str_off_def env_list_def)

lemma sim_execve:
  assumes "args \<noteq> []" "args_size args (env_list envp) \<le> 0x1000"
  shows "\<exists>mem t. do_execve exec_env sim_xenv ''ls.elf'' (Some args) envp sim_run = Some (0, Some mem, t)"
proof -
  obtain mem t p where stp: "setup_proc_image_replace exec_env sim_xenv sim_img 1 (length args) (Some args) envp
     (sim_exec (k_umem sim_run)) = Some (mem, t)"
    and t: "k_tcbs t = k_tcbs sim_run" "k_current t = 0x101" "k_procs t = [(1, p)]"
    using sim_setup[OF assms] by blast
  have start: "\<exists>t'. start_image exec_env 1 t = Some t'"
    by (simp add: start_image_def exec_env_def sim_env_def pcb_at_def upd_pcb_def t move_joiner_def
        sim_run_def sim_root_def sim_tcb_def Let_def)
  have cur: "current_pcb sim_run = Some 1" "\<exists>p. pcb_at sim_run 1 = Some p \<and> k_current sim_run = p_main_thread p"
    by (simp_all add: current_pcb_def pcb_at_def sim_run_def sim_root_def sim_tcb_def sim_pcb_def)
  have mm: "k_mm (sim_exec u) = k_mm sim_run" "sim_exec u\<lparr>k_mm := k_mm sim_run\<rparr> = sim_exec u" for u
    by (simp_all add: sim_exec_def sim_run_def)
  have "t\<lparr>k_mm := k_mm t\<rparr> = t" by simp
  then show ?thesis
    using stp start cur
    by (auto simp: do_execve_def local_irq_save_def sim_exec_facts count_args_def mm sim_xenv_def Let_def)
qed

section \<open>The image of the process\<close>

text \<open>
  Replacing the image of a process gives exactly its stack, the segments of the file, the heap
  and one page of arguments: the frames of the old image are gone from its page list, the page
  count is the number of frames it holds, the heap is empty and starts after stack and segments,
  the stack ends at the page of the arguments; its pid, name, parent, descriptors and state are
  kept, and so are all other processes.
\<close>

theorem exec_image_layout:
  assumes "setup_proc_image_replace E X img a argc argv envp s = Some (mem, t)"
    and "pcb_at s a = Some p"
  shows "\<exists>q. pcb_at t a = Some q \<and>
    length (p_page_list q) = unat (stack_pages E) + unat (segment_page_count img) + unat (heap_pages E) + 1 \<and>
    p_page_count q = of_nat (length (p_page_list q)) \<and>
    p_bin_image_entry q = e_entry img \<and> p_stack_top q = ke_args_base E \<and>
    p_heap_base q = (stack_pages E + segment_page_count img + 1) * ke_PAGE_SIZE E \<and>
    p_heap_pointer q = p_heap_base q \<and>
    p_pid q = p_pid p \<and> p_name q = p_name p \<and> p_parent q = p_parent p \<and>
    p_fd_array q = p_fd_array p \<and> p_state q = p_state p \<and>
    (\<forall>b. b \<noteq> a \<longrightarrow> pcb_at t b = pcb_at s b)"
proof -
  from setup_effect[OF assms(1)] obtain fs where
    "length fs = unat (stack_pages E) + unat (segment_page_count img) + unat (heap_pages E) + 1"
    "pcb_effect a (image_pcb E img fs) s t" by blast
  then show ?thesis using assms(2)
    by (intro exI[of _ "image_pcb E img fs p"]) (simp add: pcb_effect_def image_pcb_def)
qed

theorem exec_image_layout_witness:
  "\<exists>mem t q. setup_proc_image_replace exec_env sim_xenv sim_img 1 1 (Some [''ls'']) None
      (sim_exec (k_umem sim_run)) = Some (mem, t) \<and> pcb_at t 1 = Some q \<and>
    length (p_page_list q) = 4 \<and> p_heap_base q = 0x3000"
proof -
  obtain mem t where run: "setup_proc_image_replace exec_env sim_xenv sim_img 1 1 (Some [''ls'']) None
      (sim_exec (k_umem sim_run)) = Some (mem, t)" using sim_setup[of "[''ls'']" None] sim_args_fit(1) by auto
  from exec_image_layout[OF run sim_exec_facts(2)] run show ?thesis
    by (auto simp: sim_pages) (auto simp: sim_img_def)
qed

text \<open>
  C29. What the loader copies: an address inside a section that is copied holds the file's byte,
  when no other copied section covers it, and every other address keeps what it held. So a
  \<open>.bss\<close> section is not cleared: it holds what its frames held.
\<close>

theorem loader_copies_sections:
  assumes "\<And>x y. loaded_section X img x \<Longrightarrow> loaded_section X img y \<Longrightarrow> covers x a \<Longrightarrow> covers y a \<Longrightarrow> x = y"
  shows "(\<forall>sec. loaded_section X img sec \<longrightarrow> covers sec a \<longrightarrow>
      load_process X img m a = file_buffer img (sh_offset sec + (a - sh_addr sec))) \<and>
    ((\<forall>sec. loaded_section X img sec \<longrightarrow> \<not> covers sec a) \<longrightarrow> load_process X img m a = m a)"
  using assms load_process_at load_process_other by metis

theorem loader_copies_sections_witness:
  "load_process sim_xenv sim_img (\<lambda>_. 0xAA) 0x1002 = 0x42 \<and>
   load_process sim_xenv sim_img (\<lambda>_. 0xAA) 0x1008 = 0xAA"
  using loader_copies_sections[of sim_xenv sim_img "0x1002" "\<lambda>_. 0xAA"]
    loader_copies_sections[of sim_xenv sim_img "0x1008" "\<lambda>_. 0xAA"]
  by (simp add: sim_loaded covers_def) (simp add: sim_text_def sim_img_def)

section \<open>The new program and its arguments\<close>

text \<open>
  C13. The program finds its arguments: after a successful \<open>execve\<close> with arguments that fit a page, the
  page at the top of the user memory holds their number, the addresses of the arguments and of
  the environment strings and the strings themselves, when no section of the file is loaded into
  that page.
\<close>

theorem execve_passes_arguments:
  assumes run: "do_execve E X fn (Some args) envp s = Some (0, Some mem, t)"
    and args: "args \<noteq> []" and fit: "args_size args (env_list envp) \<le> unat (ke_PAGE_SIZE E)"
    and heap: "\<And>mm. unat (fst (xe_malloc X mm)) + unat (ke_PAGE_SIZE E) < 2 ^ 32"
    and apart: "\<And>m img m' sec i. xe_elf_load X fn m = (Some img, m') \<Longrightarrow> loaded_section X img sec \<Longrightarrow>
       i < unat (ke_PAGE_SIZE E) \<Longrightarrow> \<not> covers sec (ke_args_base E + of_nat i)"
  defines "pg \<equiv> \<lambda>i. mem (ke_args_base E + of_nat i)" and "n \<equiv> unat (ke_PAGE_SIZE E)"
  shows "read_word pg 0 = of_nat (length args) \<and> strings_at n (ke_args_base E) pg 4 args \<and>
    strings_at n (ke_args_base E) pg (4 + 4 * length args) (env_list envp) \<and>
    read_word pg (4 + 4 * length args + 4 * length (env_list envp)) = 0"
  using run
proof (cases rule: do_execve_cases)
  case (success a p s1 img mm m0 s2)
  let ?pg = "\<lambda>i. m0 (ke_args_base E + of_nat i)"
  have base: "read_word ?pg 0 = of_nat (length args) \<and> strings_at n (ke_args_base E) ?pg 4 args \<and>
    strings_at n (ke_args_base E) ?pg (4 + 4 * length args) (env_list envp) \<and>
    read_word ?pg (4 + 4 * length args + 4 * length (env_list envp)) = 0"
    unfolding n_def
    by (rule setup_args[OF _ args fit heap]) (use success(7) in \<open>simp add: count_args_def\<close>)
  have pg: "pg i = ?pg i" if "i < n" for i
    using load_process_other[of X img "ke_args_base E + of_nat i" m0] apart[OF success(4)] that success(6)
    by (auto simp: pg_def n_def)
  have size: "4 + 4 * length args + 4 * (length (env_list envp) + 1) \<le> n"
    using fit str_off_ge[of "strings_start args (env_list envp)" "args @ env_list envp"]
    unfolding args_size_def strings_start_def n_def by (meson le_trans)
  show ?thesis by (rule args_page_cong[OF base size pg])
qed simp

theorem execve_passes_arguments_witness:
  "\<exists>mem t. do_execve exec_env sim_xenv ''ls.elf'' (Some [''ls'', ''-l'']) None sim_run = Some (0, Some mem, t) \<and>
    strings_at 0x1000 0xBFFFF000 (\<lambda>i. mem (0xBFFFF000 + of_nat i)) 4 [''ls'', ''-l'']"
proof -
  obtain mem t where run: "do_execve exec_env sim_xenv ''ls.elf'' (Some [''ls'', ''-l'']) None sim_run
      = Some (0, Some mem, t)" using sim_execve[of "[''ls'', ''-l'']" None] sim_args_fit(2) by auto
  have far: "\<not> covers sim_text (0xBFFFF000 + of_nat i)" if "i < 0x1000" for i
  proof -
    have "unat (0xBFFFF000 + of_nat i :: addr) = 0xBFFFF000 + i"
      using unat_page_address[of "0xBFFFF000" i] that by simp
    moreover have "unat (0xBFFFE000 + of_nat i :: addr) = 0xBFFFE000 + i"
      using unat_page_address[of "0xBFFFE000" i] that by simp
    ultimately show ?thesis by (simp add: covers_def sim_text_def word_less_nat_alt)
  qed
  have "strings_at (unat (ke_PAGE_SIZE exec_env)) (ke_args_base exec_env)
      (\<lambda>i. mem (ke_args_base exec_env + of_nat i)) 4 [''ls'', ''-l'']"
    by (rule execve_passes_arguments[OF run, THEN conjunct2, THEN conjunct1])
       (auto simp: sim_pages args_size_def strings_start_def str_off_def env_list_def sim_xenv_def far
          sim_loaded[unfolded sim_xenv_def] split: if_splits)
  then show ?thesis using run by (auto simp: sim_pages)
qed

text \<open>
  A file that cannot be loaded makes \<open>execve\<close> fail with \<open>ENOENT\<close> and the interrupts as they were,
  but the process has already taken the name of the file; nothing else of it has changed.
\<close>

theorem execve_missing_file:
  assumes run: "do_execve E X fn argv envp s = Some (r, m, t)"
    and missing: "\<And>mm. fst (xe_elf_load X fn mm) = None" and cur: "current_pcb s = Some a"
  shows "r = - 1 \<and> m = None \<and> k_irq_disabled t = k_irq_disabled s \<and>
    (k_errno_addr s \<noteq> NULL \<longrightarrow> k_umem t (k_errno_addr s) = xe_ENOENT X) \<and>
    (\<forall>b. pcb_at t b = (if b = a then map_option (\<lambda>p. p\<lparr>p_name := fn\<rparr>) (pcb_at s a) else pcb_at s b))"
  using run
proof (cases rule: do_execve_cases)
  case (failed b p s1 mm)
  then have b: "b = a" using cur by simp
  from failed(3) have s1: "s1 = s\<lparr>k_irq_disabled := True,
      k_procs := upd_entry a (\<lambda>p. p\<lparr>p_name := fn\<rparr>) (k_procs s)\<rparr>"
    by (auto simp: set_name_def upd_pcb_Some b split: if_splits)
  show ?thesis using failed(5,6)
    unfolding failed(7) s1 set_errno_def put_user_def local_irq_restore_def by (auto simp: pcb_at_def)
next
  case (success b p s1 img mm m0 s2)
  then show ?thesis using missing[of "k_mm s1"] by simp
qed

theorem execve_missing_file_witness:
  "\<exists>m t. do_execve exec_env sim_xenv ''no.elf'' None None sim_run = Some (- 1, m, t) \<and>
    map_option p_name (pcb_at t 1) = Some ''no.elf'' \<and> k_umem t 0x2000 = 2"
proof -
  have cur: "current_pcb sim_run = Some 1" "pcb_at sim_run 1 = Some (sim_pcb 1 [] NULL 0x4000 0x101 [0x100000])"
    "k_current sim_run = 0x101" "k_errno_addr sim_run = 0x2000"
    by (simp_all add: current_pcb_def pcb_at_def sim_run_def sim_root_def sim_tcb_def sim_boot_def)
  have no: "fst (xe_elf_load sim_xenv ''no.elf'' mm) = None" for mm by (simp add: sim_xenv_def)
  have "\<exists>r m t. do_execve exec_env sim_xenv ''no.elf'' None None sim_run = Some (r, m, t)"
    by (simp add: do_execve_def cur local_irq_save_def set_name_def PROC_NAME_LEN_def upd_pcb_def sim_pcb_def
        sim_xenv_def)
  then obtain r m t where run: "do_execve exec_env sim_xenv ''no.elf'' None None sim_run = Some (r, m, t)"
    by blast
  from execve_missing_file[OF run no cur(1)] run show ?thesis
    by (simp add: cur) (simp add: sim_xenv_def sim_pcb_def)
qed

text \<open>
  Arguments that do not fit never reach a new program: the only result of \<open>execve\<close> is then that of a
  missing file, as \<open>preserve_args_and_env\<close> overruns its page before it checks.
\<close>

theorem execve_args_overrun:
  assumes run: "do_execve E X fn (Some args) envp s = Some (r, m, t)"
    and args: "args \<noteq> []" and big: "unat (ke_PAGE_SIZE E) < args_size args (env_list envp)"
  shows "r = - 1"
  using run
proof (cases rule: do_execve_cases)
  case (success a p s1 img mm m0 s2)
  from success(7) have False
  proof (cases rule: setup_cases)
    case (1 cur c q u1 u2)
    have "preserve_args_and_env (unat (ke_PAGE_SIZE E)) b nm (length args) (Some args) envp = None" for b nm
      using preserve_too_big[of _ nm args envp "Some args" b] big args by (simp add: arg_list_def)
    then show False using 1(3) by (auto simp: save_args_def count_args_def split: if_splits prod.splits)
  qed
  then show ?thesis ..
qed

theorem execve_args_overrun_witness:
  "do_execve exec_env sim_xenv ''ls.elf'' (Some [replicate 0x1000 (CHR ''x'')]) None sim_run \<noteq> Some (0, m, t)"
  using execve_args_overrun[of exec_env sim_xenv "''ls.elf''" "[replicate 0x1000 (CHR ''x'')]" None sim_run 0 m t]
  by (auto simp: sim_pages args_size_def strings_start_def str_off_def env_list_def)

text \<open>
  The error that \<open>preserve_args_and_env\<close> does return goes unnoticed: the test for a negative pointer does
  not see \<open>NULL\<close>, and the image is set up with an argument page that holds whatever its frame held.
\<close>

theorem setup_ignores_args_error:
  assumes "setup_proc_image_replace E X img a argc None envp s = Some (mem, t)" and "0 < argc"
  shows "mem = xe_user_bytes X (k_mm t)"
  using assms(1)
proof (cases rule: setup_cases)
  case (1 cur c q u1 u2)
  have "q = None" using 1(3) assms(2) by (auto simp: save_args_def)
  then show ?thesis using 1(5) by auto
qed

theorem setup_ignores_args_error_witness:
  "\<exists>mem t. setup_proc_image_replace exec_env sim_xenv sim_img 1 1 None None (sim_exec (k_umem sim_run)) = Some (mem, t) \<and>
    mem = xe_user_bytes sim_xenv (k_mm t)"
proof -
  define u where "u = k_umem (set_errno (xe_EINVAL sim_xenv) (sim_exec (k_umem sim_run)))"
  have u: "set_errno (xe_EINVAL sim_xenv) (sim_exec (k_umem sim_run)) = sim_exec u"
    unfolding u_def set_errno_def put_user_def by (simp add: sim_exec_def)
  obtain t where "new_image exec_env sim_img 1 (sim_exec u) = Some t" using sim_image by blast
  then have run: "setup_proc_image_replace exec_env sim_xenv sim_img 1 1 None None (sim_exec (k_umem sim_run)) =
      Some (xe_user_bytes sim_xenv (k_mm t), t)"
    using u by (simp add: setup_proc_image_replace_def sim_exec_facts save_args_def Let_def)
  from setup_ignores_args_error[OF run] run show ?thesis by auto
qed

end
