(* ===== verification/Memsim.thy ===== *)
theory Memsim
  imports Prelude
begin

text \<open>
  The paged-memory simulator \<open>l6-mem-pte/usr/src/memsim.c\<close>: a page table of 16-bit
  entries, a main memory of bytes, the byte accessors and the program's own tests.
  The two compile-time switches of the file are fields of a configuration record, so
  that the three configurations its comment lists (steps 2, 3 and 4) are all covered.
\<close>

section \<open>Configuration and macros\<close>

record mem_config =
  MEMORY_SIZE_SMALL :: bool
  MEMORY_PTE_ATTRIBUTES_ACTIVE :: bool

definition step2 :: mem_config where
  "step2 = \<lparr>MEMORY_SIZE_SMALL = True, MEMORY_PTE_ATTRIBUTES_ACTIVE = False\<rparr>"

definition step3 :: mem_config where
  "step3 = \<lparr>MEMORY_SIZE_SMALL = True, MEMORY_PTE_ATTRIBUTES_ACTIVE = True\<rparr>"

definition step4 :: mem_config where
  "step4 = \<lparr>MEMORY_SIZE_SMALL = False, MEMORY_PTE_ATTRIBUTES_ACTIVE = False\<rparr>"

definition MEMORY_PAGE_NUM :: "mem_config \<Rightarrow> nat" where
  "MEMORY_PAGE_NUM c = (if MEMORY_SIZE_SMALL c then 256 else 64)"

definition MEMORY_PAGE_SIZE :: "mem_config \<Rightarrow> nat" where
  "MEMORY_PAGE_SIZE c = (if MEMORY_SIZE_SMALL c then 256 else 1024)"

definition VALID_BIT :: u16 where "VALID_BIT = push_bit 0 1"
definition VALID_POS :: nat where "VALID_POS = 0"
definition RWX_BITS :: u16 where "RWX_BITS = 0x06"
definition RWX_POS :: nat where "RWX_POS = 1"
definition R_PATTERN :: u16 where "R_PATTERN = 1"
definition W_PATTERN :: u16 where "W_PATTERN = 2"
definition X_PATTERN :: u16 where "X_PATTERN = 3"
definition RWX_PATTERN :: u16 where "RWX_PATTERN = 0"

lemmas pte_macros = VALID_BIT_def VALID_POS_def RWX_BITS_def RWX_POS_def
  R_PATTERN_def W_PATTERN_def X_PATTERN_def RWX_PATTERN_def

text \<open>
  The index macros. C's \<open>>>\<close> binds tighter than \<open>&\<close>, so \<open>(x) >> (8) & (0xFF)\<close> shifts
  first. The results are array indices, hence \<open>nat\<close>.
\<close>

definition HIGH8 :: "'a::len word \<Rightarrow> nat" where
  "HIGH8 x = unat (drop_bit 8 x AND 0xFF)"

definition LOW8 :: "'a::len word \<Rightarrow> nat" where
  "LOW8 x = unat (x AND 0xFF)"

definition HIGH6 :: "'a::len word \<Rightarrow> nat" where
  "HIGH6 x = unat (drop_bit 3 x AND 0x7)"

definition LOW10 :: "'a::len word \<Rightarrow> nat" where
  "LOW10 x = unat (x AND 0x3FF)"

section \<open>State\<close>

datatype mem_msg =
    UnableToRead
  | UnableToWrite
  | PageNotMapped u32
  | DebugDisabled
  | ErrorVaddr
  | TestFailed nat
  | TestSuccessful
  | ReadonlyTestFailed u16
  | ValidBitTestFailed u16
  | Step3TestsPassed

record memsim =
  page_table :: "u16 list"
  main_mem :: "u8 list list"
  mem_out :: "mem_msg list"

definition mem_print :: "mem_msg \<Rightarrow> memsim \<Rightarrow> memsim" where
  "mem_print e m = m\<lparr>mem_out := mem_out m @ [e]\<rparr>"

text \<open>The C globals: both arrays start zeroed.\<close>

definition mem_start :: "mem_config \<Rightarrow> memsim" where
  "mem_start c = \<lparr>page_table = replicate (MEMORY_PAGE_NUM c) 0,
     main_mem = replicate (MEMORY_PAGE_NUM c) (replicate (MEMORY_PAGE_SIZE c) 0),
     mem_out = []\<rparr>"

section \<open>Operations\<close>

text \<open>
  \<open>virt_to_pte\<close>: the result is the return code and the value stored through the
  pointer \<open>pte\<close>; the flag says whether that pointer is not \<open>NULL\<close>.
\<close>

definition virt_to_pte :: "mem_config \<Rightarrow> memsim \<Rightarrow> u16 \<Rightarrow> bool \<Rightarrow> int \<times> u16 option" where
  "virt_to_pte c m vaddr pte_ok =
     (if \<not> pte_ok then (-1, None)
      else if MEMORY_SIZE_SMALL c then (0, Some (page_table m ! HIGH8 vaddr))
      else (0, Some (page_table m ! HIGH6 vaddr)))"

text \<open>The local \<open>pte\<close> of the accessors, filled by a call that is given a valid pointer.\<close>

definition local_pte :: "mem_config \<Rightarrow> memsim \<Rightarrow> u32 \<Rightarrow> u16" where
  "local_pte c m vaddr = the (snd (virt_to_pte c m (ucast vaddr) True))"

definition mem_cell :: "mem_config \<Rightarrow> u16 \<Rightarrow> u32 \<Rightarrow> nat \<times> nat" where
  "mem_cell c pte vaddr =
     (if MEMORY_SIZE_SMALL c then (HIGH8 pte, LOW8 vaddr) else (HIGH6 pte, LOW10 vaddr))"

text \<open>The access-rights field, computed alike by both accessors.\<close>

definition rwx_of :: "u16 \<Rightarrow> u16" where
  "rwx_of pte = drop_bit RWX_POS (pte AND RWX_BITS)"

definition get_byte ::
  "mem_config \<Rightarrow> memsim \<Rightarrow> u32 \<Rightarrow> bool \<Rightarrow> int \<times> u8 option \<times> memsim" where
  "get_byte c m vaddr byte_ok =
     (if \<not> byte_ok then (-1, None, m)
      else let pte = local_pte c m vaddr; rwx = rwx_of pte in
        if MEMORY_PTE_ATTRIBUTES_ACTIVE c \<and> rwx \<noteq> R_PATTERN \<and> rwx \<noteq> RWX_PATTERN
        then (-1, None, mem_print UnableToRead m)
        else if MEMORY_PTE_ATTRIBUTES_ACTIVE c \<and> drop_bit VALID_POS pte AND 1 \<noteq> VALID_BIT
        then (-1, None, mem_print (PageNotMapped vaddr) m)
        else let (i, j) = mem_cell c pte vaddr in (0, Some (main_mem m ! i ! j), m))"

text \<open>
  \<open>store_byte\<close> tests validity with \<open>pte & ((1 << VALID_POS) >> VALID_POS) != VALID_BIT\<close>,
  which C reads as \<open>pte & (((1 << VALID_POS) >> VALID_POS) != VALID_BIT)\<close>.
\<close>

definition store_valid_test :: "u16 \<Rightarrow> bool" where
  "store_valid_test pte \<longleftrightarrow>
     pte AND (if drop_bit VALID_POS (push_bit VALID_POS 1) \<noteq> VALID_BIT then 1 else 0) \<noteq> 0"

definition mem_write :: "memsim \<Rightarrow> nat \<times> nat \<Rightarrow> u8 \<Rightarrow> memsim" where
  "mem_write m ij byte =
     m\<lparr>main_mem := (main_mem m)[fst ij := (main_mem m ! fst ij)[snd ij := byte]]\<rparr>"

definition store_byte :: "mem_config \<Rightarrow> memsim \<Rightarrow> u32 \<Rightarrow> u8 \<Rightarrow> int \<times> memsim" where
  "store_byte c m vaddr byte =
     (let pte = local_pte c m vaddr; rwx = rwx_of pte in
      if MEMORY_PTE_ATTRIBUTES_ACTIVE c \<and> rwx \<noteq> W_PATTERN \<and> rwx \<noteq> RWX_PATTERN
      then (-1, mem_print UnableToWrite m)
      else if MEMORY_PTE_ATTRIBUTES_ACTIVE c \<and> store_valid_test pte
      then (-1, mem_print (PageNotMapped vaddr) m)
      else (0, mem_write m (mem_cell c pte vaddr) byte))"

text \<open>\<open>print_page\<close> as compiled: \<open>DEBUG\<close> is 0, so only the hint is printed.\<close>

definition print_page :: "memsim \<Rightarrow> u16 \<Rightarrow> u8 \<Rightarrow> memsim" where
  "print_page m vaddr width = mem_print DebugDisabled m"

text \<open>\<open>init_page_table\<close>: the value the loop body leaves in entry \<open>i\<close>, and the loop.\<close>

definition init_pte :: "mem_config \<Rightarrow> nat \<Rightarrow> u16" where
  "init_pte c i =
     (let r_shift = (if MEMORY_SIZE_SMALL c then 8 else 10);
          p0 = push_bit r_shift (of_nat ((MEMORY_PAGE_NUM c - 1) - i));
          p1 = (if 10 \<le> i \<and> i \<le> 12 then p0 OR push_bit RWX_POS R_PATTERN else p0);
          p2 = p1 OR VALID_BIT;
          p3 = (if 5 \<le> i \<and> i \<le> 8 then p2 OR NOT VALID_BIT else p2)
      in if MEMORY_PTE_ATTRIBUTES_ACTIVE c then p3 else p0)"

definition init_page_table :: "mem_config \<Rightarrow> memsim \<Rightarrow> memsim" where
  "init_page_table c m =
     m\<lparr>page_table :=
         fold (\<lambda>i pt. pt[i := init_pte c i]) [0..<MEMORY_PAGE_NUM c] (page_table m)\<rparr>"

section \<open>The program's tests\<close>

text \<open>
  \<open>test_mem\<close>: the loop over the addresses, with the error counter; \<open>None\<close> for the early
  return after a failed read.
\<close>

fun test_mem_loop :: "mem_config \<Rightarrow> nat list \<Rightarrow> nat \<Rightarrow> memsim \<Rightarrow> nat option \<times> memsim" where
  "test_mem_loop c [] errs m = (Some errs, m)"
| "test_mem_loop c (a # as) errs m =
     (case get_byte c m (of_nat a) True of
        (r, b, m1) \<Rightarrow>
          if r < 0 then (None, mem_print ErrorVaddr m1)
          else test_mem_loop c as (if the b \<noteq> of_nat a AND 0xFF then Suc errs else errs) m1)"

definition test_mem :: "mem_config \<Rightarrow> memsim \<Rightarrow> int \<times> memsim" where
  "test_mem c m =
     (case test_mem_loop c [0..<MEMORY_PAGE_NUM c * MEMORY_PAGE_SIZE c] 0 m of
        (None, m1) \<Rightarrow> (-1, m1)
      | (Some errs, m1) \<Rightarrow>
          if errs > 0 then (-1, mem_print (TestFailed errs) m1)
          else (0, mem_print TestSuccessful m1))"

text \<open>\<open>test_mem_2\<close>: one iteration of the inner loop (\<open>None\<close>: an early return), then the loops.\<close>

definition test2_vaddr :: "nat \<Rightarrow> nat \<Rightarrow> u16" where
  "test2_vaddr i j = push_bit 8 (of_nat i) OR (push_bit 3 (of_nat j) AND 0xFF)"

definition test2_rw :: "mem_config \<Rightarrow> memsim \<Rightarrow> u16 \<Rightarrow> bool \<Rightarrow> memsim option \<times> memsim" where
  "test2_rw c m v writable =
     (case get_byte c m (ucast v) True of
        (r, b, m1) \<Rightarrow>
          if r < 0 then (None, mem_print (ReadonlyTestFailed v) m1)
          else (case store_byte c m1 (ucast v) 0x01 of
             (w, m2) \<Rightarrow>
               if (if writable then w < 0 else w \<noteq> -1)
               then (None, mem_print (ReadonlyTestFailed v) m2)
               else (Some m2, m2)))"

definition test2_step :: "mem_config \<Rightarrow> memsim \<Rightarrow> nat \<Rightarrow> nat \<Rightarrow> memsim option \<times> memsim" where
  "test2_step c m i j =
     (let v = test2_vaddr i j in
      if i = 10 \<or> i = 11 \<or> i = 12 then test2_rw c m v False
      else if i = 5 \<or> i = 6 \<or> i = 7 \<or> i = 8
      then (case get_byte c m (ucast v) True of
              (r, b, m1) \<Rightarrow>
                if r \<noteq> -1 then (None, mem_print (ValidBitTestFailed v) m1) else (Some m1, m1))
      else test2_rw c m v True)"

fun test2_loop :: "mem_config \<Rightarrow> (nat \<times> nat) list \<Rightarrow> memsim \<Rightarrow> int \<times> memsim" where
  "test2_loop c [] m = (0, m)"
| "test2_loop c ((i, j) # ps) m =
     (case test2_step c m i j of
        (None, m1) \<Rightarrow> (-1, m1)
      | (Some m1, _) \<Rightarrow> test2_loop c ps m1)"

definition test_mem_2 :: "mem_config \<Rightarrow> memsim \<Rightarrow> int \<times> memsim" where
  "test_mem_2 c m =
     test2_loop c (List.product [0..<MEMORY_PAGE_NUM c] [0..<MEMORY_PAGE_SIZE c]) m"

definition fill_mem :: "mem_config \<Rightarrow> nat list \<Rightarrow> memsim \<Rightarrow> memsim" where
  "fill_mem c as m = fold (\<lambda>a m. snd (store_byte c m (of_nat a) (of_nat a AND 0xFF))) as m"

definition memsim_main :: "mem_config \<Rightarrow> memsim" where
  "memsim_main c =
     (let m = init_page_table c (mem_start c) in
      if MEMORY_PTE_ATTRIBUTES_ACTIVE c
      then (case test_mem_2 c m of
              (r, m1) \<Rightarrow> if r = 0 then mem_print Step3TestsPassed m1 else m1)
      else snd (test_mem c
             (fill_mem c [0..<MEMORY_PAGE_NUM c * MEMORY_PAGE_SIZE c] m)))"

section \<open>Index macros as arithmetic\<close>

lemma HIGH8_nat [word_nat]: "HIGH8 x = unat x div 256 mod 256"
  unfolding HIGH8_def by (subst unat_and_numeral[where n = 8]) (simp_all add: unat_drop_bit_div)

lemma LOW8_nat [word_nat]: "LOW8 x = unat x mod 256"
  unfolding LOW8_def by (subst unat_and_numeral[where n = 8]) simp_all

lemma HIGH6_nat [word_nat]: "HIGH6 x = unat x div 8 mod 8"
  unfolding HIGH6_def by (subst unat_and_numeral[where n = 3]) (simp_all add: unat_drop_bit_div)

lemma LOW10_nat [word_nat]: "LOW10 x = unat x mod 1024"
  unfolding LOW10_def by (subst unat_and_numeral[where n = 10]) simp_all

lemma RWX_BITS_mask: "RWX_BITS = mask 3 AND NOT (mask 1)"
  by (simp add: RWX_BITS_def mask_eq_exp_minus_1)

lemma pte_low_bits: "(push_bit 8 x OR k) AND RWX_BITS = k AND RWX_BITS" for x k :: u16
  unfolding RWX_BITS_mask by (rule bit_word_eqI) (auto simp: bit_simps)

lemma pte_valid_bit: "(push_bit 8 x OR k) AND 1 = k AND 1" for x k :: u16
  by (rule bit_word_eqI) (auto simp: bit_simps)

lemma pte_row_6: "HIGH6 (push_bit 10 x) = 0" for x :: u16
proof -
  have "(7 :: u16) = mask 3" by (simp add: mask_eq_exp_minus_1)
  moreover have "drop_bit 3 (push_bit 10 x) AND mask 3 = (0 :: u16)"
    by (rule bit_word_eqI) (auto simp: bit_simps)
  ultimately show ?thesis by (simp add: HIGH6_def)
qed

lemma unat_push8: "n < 256 \<Longrightarrow> unat (push_bit 8 (of_nat n) :: u16) = n * 256"
proof -
  assume "n < 256"
  moreover have "push_bit 8 (of_nat n) = (of_nat (n * 256) :: u16)"
    by (simp add: push_bit_eq_mult)
  ultimately show ?thesis by (simp only: unat_of_nat_u16)
qed

lemma HIGH8_push: "n < 256 \<Longrightarrow> HIGH8 (push_bit 8 (of_nat n) :: u16) = n"
  by (simp add: HIGH8_nat unat_push8)

lemma HIGH8_push_or: "n < 256 \<Longrightarrow> HIGH8 (push_bit 8 (of_nat n) OR (k AND 0xFF) :: u16) = n"
proof -
  assume n: "n < 256"
  have m8: "(255 :: u16) = mask 8" by (simp add: mask_eq_exp_minus_1)
  have "drop_bit 8 (push_bit 8 (of_nat n) OR (k AND mask 8)) AND mask 8
      = drop_bit 8 (push_bit 8 (of_nat n) :: u16) AND mask 8"
    by (rule bit_word_eqI) (auto simp: bit_simps)
  then show ?thesis using HIGH8_push[OF n] by (simp only: HIGH8_def m8)
qed

section \<open>Well-formed memories and the table of \<open>init_page_table\<close>\<close>

definition mem_dims :: "mem_config \<Rightarrow> memsim \<Rightarrow> bool" where
  "mem_dims c m \<longleftrightarrow> length (page_table m) = MEMORY_PAGE_NUM c \<and>
     length (main_mem m) = MEMORY_PAGE_NUM c \<and>
     (\<forall>row \<in> set (main_mem m). length row = MEMORY_PAGE_SIZE c)"

definition mem_ready :: "mem_config \<Rightarrow> memsim \<Rightarrow> bool" where
  "mem_ready c m \<longleftrightarrow> mem_dims c m \<and>
     page_table m = map (init_pte c) [0..<MEMORY_PAGE_NUM c]"

lemma mem_dims_start: "mem_dims c (mem_start c)"
  by (auto simp: mem_dims_def mem_start_def)

lemma mem_ready_init [invar_intros]: "mem_dims c m \<Longrightarrow> mem_ready c (init_page_table c m)"
  by (auto simp: mem_ready_def mem_dims_def init_page_table_def fold_list_update_map)

lemma mem_ready_print [invar_intros]: "mem_ready c m \<Longrightarrow> mem_ready c (mem_print e m)"
  by (simp add: mem_ready_def mem_dims_def mem_print_def)

lemma mem_ready_write [invar_intros]: "mem_ready c m \<Longrightarrow> mem_ready c (mem_write m ij v)"
  by (cases "fst ij < length (main_mem m)")
     (auto simp: mem_ready_def mem_dims_def mem_write_def list_update_beyond
        dest!: set_update_subset_insert[THEN subsetD])

lemma mem_ready_store [invar_intros]: "mem_ready c m \<Longrightarrow> mem_ready c (snd (store_byte c m a v))"
  by (simp add: store_byte_def Let_def invar_intros)

lemma get_byte_state [frame]:
  "snd (snd (get_byte c m a k)) = m \<or> (\<exists>e. snd (snd (get_byte c m a k)) = mem_print e m)"
  by (auto simp: get_byte_def Let_def split: prod.splits)

lemma mem_ready_get [invar_intros]: "mem_ready c m \<Longrightarrow> mem_ready c (snd (snd (get_byte c m a k)))"
  using get_byte_state[of c m a k] by (auto simp: invar_intros)

lemma mem_ready_pte:
  "mem_ready c m \<Longrightarrow> i < MEMORY_PAGE_NUM c \<Longrightarrow> page_table m ! i = init_pte c i"
  by (simp add: mem_ready_def)

lemma page_num_simps [simp]:
  "MEMORY_SIZE_SMALL c \<Longrightarrow> MEMORY_PAGE_NUM c = 256"
  "MEMORY_SIZE_SMALL c \<Longrightarrow> MEMORY_PAGE_SIZE c = 256"
  "\<not> MEMORY_SIZE_SMALL c \<Longrightarrow> MEMORY_PAGE_NUM c = 64"
  "\<not> MEMORY_SIZE_SMALL c \<Longrightarrow> MEMORY_PAGE_SIZE c = 1024"
  by (simp_all add: MEMORY_PAGE_NUM_def MEMORY_PAGE_SIZE_def)

lemma step_simps [simp]:
  "MEMORY_SIZE_SMALL step2" "\<not> MEMORY_PTE_ATTRIBUTES_ACTIVE step2"
  "MEMORY_SIZE_SMALL step3" "MEMORY_PTE_ATTRIBUTES_ACTIVE step3"
  "\<not> MEMORY_SIZE_SMALL step4" "\<not> MEMORY_PTE_ATTRIBUTES_ACTIVE step4"
  by (simp_all add: step2_def step3_def step4_def)

section \<open>The locale of byte-addressed memories\<close>

text \<open>
  What the tests of \<open>main\<close> rely on: a read after a write returns the byte written when
  both addresses designate the same cell, and the old byte otherwise.
\<close>

locale byte_memory =
  fixes rd :: "'m \<Rightarrow> 'a \<Rightarrow> 'b"
    and wr :: "'m \<Rightarrow> 'a \<Rightarrow> 'b \<Rightarrow> 'm"
    and cell :: "'a \<Rightarrow> 'c"
    and ok :: "'m \<Rightarrow> bool"
  assumes rd_wr: "ok m \<Longrightarrow> rd (wr m a v) b = (if cell a = cell b then v else rd m b)"
    and ok_wr: "ok m \<Longrightarrow> ok (wr m a v)"
begin

lemma ok_fill: "ok m \<Longrightarrow> ok (fold (\<lambda>a m. wr m a (f a)) as m)"
  by (induction as arbitrary: m) (auto simp: ok_wr)

lemma fill_other:
  "ok m \<Longrightarrow> \<forall>x \<in> set as. cell x \<noteq> cell b \<Longrightarrow> rd (fold (\<lambda>a m. wr m a (f a)) as m) b = rd m b"
  by (induction as arbitrary: m) (auto simp: rd_wr ok_wr)

lemma fill_read:
  assumes "ok m" and "\<exists>x \<in> set as. cell x = cell b"
    and "\<forall>x \<in> set as. cell x = cell b \<longrightarrow> f x = w"
  shows "rd (fold (\<lambda>a m. wr m a (f a)) as m) b = w"
  using assms
proof (induction as arbitrary: m)
  case Nil
  then show ?case by simp
next
  case (Cons x as)
  show ?case
  proof (cases "\<exists>y \<in> set as. cell y = cell b")
    case True
    with Cons show ?thesis by (auto simp: ok_wr)
  next
    case False
    with Cons.prems show ?thesis by (auto simp: fill_other ok_wr rd_wr)
  qed
qed

end

section \<open>Where a byte lives\<close>

text \<open>The byte of an address and the store, as the locale wants them.\<close>

definition rd_byte :: "mem_config \<Rightarrow> memsim \<Rightarrow> u32 \<Rightarrow> u8" where
  "rd_byte c m a = the (fst (snd (get_byte c m a True)))"

definition wr_byte :: "mem_config \<Rightarrow> memsim \<Rightarrow> u32 \<Rightarrow> u8 \<Rightarrow> memsim" where
  "wr_byte c m a v = snd (store_byte c m a v)"

definition cell_of :: "mem_config \<Rightarrow> u32 \<Rightarrow> nat \<times> nat" where
  "cell_of c a = (if MEMORY_SIZE_SMALL c
     then (255 - unat a mod 65536 div 256, unat a mod 256) else (0, unat a mod 1024))"

lemma init_pte_small:
  "MEMORY_SIZE_SMALL c \<Longrightarrow> \<not> MEMORY_PTE_ATTRIBUTES_ACTIVE c \<Longrightarrow>
   init_pte c i = push_bit 8 (of_nat (255 - i))"
  by (simp add: init_pte_def)

lemma init_pte_large:
  "\<not> MEMORY_SIZE_SMALL c \<Longrightarrow> \<not> MEMORY_PTE_ATTRIBUTES_ACTIVE c \<Longrightarrow>
   init_pte c i = push_bit 10 (of_nat (63 - i))"
  by (simp add: init_pte_def)

lemma local_pte_ready:
  "mem_ready c m \<Longrightarrow> local_pte c m a =
     init_pte c (if MEMORY_SIZE_SMALL c then unat a mod 65536 div 256 else unat a mod 65536 div 8 mod 8)"
  by (simp add: local_pte_def virt_to_pte_def mem_ready_def word_nat unat_ucast_u32_u16)

lemma mem_cell_ready:
  assumes "mem_ready c m" and "\<not> MEMORY_PTE_ATTRIBUTES_ACTIVE c"
  shows "mem_cell c (local_pte c m a) a = cell_of c a"
proof (cases "MEMORY_SIZE_SMALL c")
  case True
  have "255 - unat a mod 65536 div 256 < 256" by simp
  from HIGH8_push[OF this] show ?thesis
    using True assms by (simp add: local_pte_ready init_pte_small mem_cell_def cell_of_def LOW8_nat)
next
  case False
  then show ?thesis
    using assms by (simp add: local_pte_ready init_pte_large mem_cell_def cell_of_def
        pte_row_6 LOW10_nat)
qed

lemma cell_of_range:
  "fst (cell_of c a) < MEMORY_PAGE_NUM c" "snd (cell_of c a) < MEMORY_PAGE_SIZE c"
  by (auto simp: cell_of_def)

lemma get_byte_ready:
  assumes "mem_ready c m" and "\<not> MEMORY_PTE_ATTRIBUTES_ACTIVE c"
  shows "get_byte c m a True =
     (0, Some (main_mem m ! fst (cell_of c a) ! snd (cell_of c a)), m)"
  using assms by (simp add: get_byte_def Let_def mem_cell_ready split: prod.split)

lemma store_byte_ready:
  assumes "mem_ready c m" and "\<not> MEMORY_PTE_ATTRIBUTES_ACTIVE c"
  shows "store_byte c m a v = (0, mem_write m (cell_of c a) v)"
  using assms by (simp add: store_byte_def Let_def mem_cell_ready)

lemma read_after_write:
  assumes "mem_ready c m" and "\<not> MEMORY_PTE_ATTRIBUTES_ACTIVE c"
  shows "rd_byte c (wr_byte c m a v) b = (if cell_of c a = cell_of c b then v else rd_byte c m b)"
proof -
  have m': "mem_ready c (mem_write m (cell_of c a) v)"
    using assms(1) by (rule mem_ready_write)
  have row: "length (main_mem m ! fst (cell_of c a)) = MEMORY_PAGE_SIZE c"
    and len: "length (main_mem m) = MEMORY_PAGE_NUM c"
    using assms(1) cell_of_range(1)[of c a] by (auto simp: mem_ready_def mem_dims_def)
  show ?thesis
    using assms m' row len cell_of_range[of c a] cell_of_range[of c b]
    by (auto simp: rd_byte_def wr_byte_def store_byte_ready get_byte_ready mem_write_def
        nth_list_update prod_eq_iff)
qed

lemma mem_ready_wr_byte [invar_intros]: "mem_ready c m \<Longrightarrow> mem_ready c (wr_byte c m a v)"
  by (simp add: wr_byte_def invar_intros)

interpretation small: byte_memory "rd_byte step2" "wr_byte step2" "cell_of step2" "mem_ready step2"
  by unfold_locales (auto simp: read_after_write invar_intros)

interpretation large: byte_memory "rd_byte step4" "wr_byte step4" "cell_of step4" "mem_ready step4"
  by unfold_locales (auto simp: read_after_write invar_intros)

lemma cell_of_step2:
  "cell_of step2 a = cell_of step2 b \<longleftrightarrow> unat a mod 65536 = unat b mod 65536"
proof -
  have low: "unat x mod 256 = unat x mod 65536 mod 256" for x :: u32
    by (simp add: mod_mod_cancel)
  have "255 - x div 256 = 255 - y div 256 \<and> x mod 256 = y mod 256 \<longleftrightarrow> x = y"
    if "x < 65536" "y < 65536" for x y :: nat
  proof -
    have "x div 256 \<le> 255" "y div 256 \<le> 255" using that by simp_all
    then show ?thesis
      by (metis div_mult_mod_eq diff_diff_cancel)
  qed
  then show ?thesis by (simp add: cell_of_def low)
qed

section \<open>The test of steps 2 and 4\<close>

lemma test_mem_loop_pass:
  assumes "mem_ready c m" and "\<not> MEMORY_PTE_ATTRIBUTES_ACTIVE c"
    and "\<forall>a \<in> set as. rd_byte c m (of_nat a) = of_nat a AND 0xFF"
  shows "test_mem_loop c as e m = (Some e, m)"
  using assms(3) by (induction as) (simp_all add: get_byte_ready[OF assms(1,2)] rd_byte_def)

definition low_byte :: "u32 \<Rightarrow> u8" where
  "low_byte a = ucast a AND 0xFF"

lemma low_byte_of_nat: "low_byte (of_nat a) = of_nat a AND 0xFF"
proof -
  have "ucast (of_nat a :: u32) = (of_nat a :: u8)"
    by (simp add: word_unat_eq_iff unsigned_ucast_eq unat_of_nat take_bit_eq_mod mod_mod_cancel)
  then show ?thesis by (simp add: low_byte_def)
qed

lemma low_byte_cell: "cell_of c x = cell_of c b \<Longrightarrow> low_byte x = low_byte b"
proof -
  assume "cell_of c x = cell_of c b"
  then have "unat x mod 256 = unat b mod 256"
    using mod_mod_cancel[of 256 1024 "unat x"] mod_mod_cancel[of 256 1024 "unat b"]
    by (simp add: cell_of_def split: if_splits)
  then have "(ucast x :: u8) = ucast b"
    by (simp add: word_unat_eq_iff unsigned_ucast_eq take_bit_eq_mod)
  then show ?thesis by (simp add: low_byte_def)
qed

lemma fill_mem_fold:
  "fill_mem c as m = fold (\<lambda>a m. wr_byte c m a (low_byte a)) (map of_nat as) m"
  by (simp add: fill_mem_def fold_map comp_def wr_byte_def low_byte_of_nat)

lemma main_test_passes:
  assumes "\<not> MEMORY_PTE_ATTRIBUTES_ACTIVE c"
    and loc: "byte_memory (rd_byte c) (wr_byte c) (cell_of c) (mem_ready c)"
  shows "mem_out (memsim_main c) = [TestSuccessful]"
proof -
  let ?m = "init_page_table c (mem_start c)"
  let ?as = "[0..<MEMORY_PAGE_NUM c * MEMORY_PAGE_SIZE c]"
  have ready: "mem_ready c ?m" by (intro invar_intros mem_dims_start)
  have ready': "mem_ready c (fill_mem c ?as ?m)"
    unfolding fill_mem_fold by (rule byte_memory.ok_fill[OF loc ready])
  have "rd_byte c (fill_mem c ?as ?m) (of_nat a) = of_nat a AND 0xFF" if "a \<in> set ?as" for a
    unfolding fill_mem_fold low_byte_of_nat[symmetric] using that
    by (intro byte_memory.fill_read[OF loc ready]) (auto dest: low_byte_cell)
  then have "test_mem_loop c ?as 0 (fill_mem c ?as ?m) = (Some 0, fill_mem c ?as ?m)"
    by (intro test_mem_loop_pass ready' assms(1)) blast
  moreover have "mem_out (fill_mem c as m) = mem_out m" if "mem_ready c m" for as m
    using that unfolding fill_mem_def
    by (induction as arbitrary: m) (simp_all add: store_byte_ready assms(1) mem_write_def
          mem_ready_write[unfolded mem_write_def])
  ultimately show ?thesis using ready assms(1)
    by (simp add: memsim_main_def test_mem_def mem_print_def init_page_table_def mem_start_def Let_def)
qed

section \<open>Step 3: the attribute bits\<close>

lemma init_pte_3:
  "init_pte step3 i =
     (if 5 \<le> i \<and> i \<le> 8 then - 1
      else push_bit 8 (of_nat (255 - i)) OR (if 10 \<le> i \<and> i \<le> 12 then 3 else 1))"
proof -
  have a: "(x OR VALID_BIT) OR NOT VALID_BIT = - 1" for x
    by (simp add: or.assoc)
  have b: "(x OR push_bit RWX_POS R_PATTERN) OR VALID_BIT = x OR 3" for x
    by (simp only: or.assoc) (simp add: pte_macros)
  show ?thesis
    by (simp only: init_pte_def Let_def step_simps page_num_simps if_True a)
       (auto simp: b simp flip: VALID_BIT_def, simp_all add: VALID_BIT_def)
qed

lemma init_pte_3_rwx:
  "rwx_of (init_pte step3 i) =
     (if 5 \<le> i \<and> i \<le> 8 then X_PATTERN else if 10 \<le> i \<and> i \<le> 12 then R_PATTERN else RWX_PATTERN)"
proof -
  have "rwx_of (push_bit 8 x OR 3) = R_PATTERN" "rwx_of (push_bit 8 x OR 1) = RWX_PATTERN"
    "rwx_of (- 1) = X_PATTERN" for x
    by (simp_all only: rwx_of_def pte_low_bits) (simp_all add: pte_macros)
  then show ?thesis by (simp add: init_pte_3)
qed

lemma init_pte_3_valid: "init_pte step3 i AND 1 = 1"
proof -
  have "(push_bit 8 x OR 3) AND 1 = 1" "(push_bit 8 x OR 1) AND 1 = 1" for x :: u16
    by (simp_all only: pte_valid_bit) simp_all
  then show ?thesis by (simp add: init_pte_3)
qed

lemma store_valid_test_dead: "\<not> store_valid_test pte"
  by (simp add: store_valid_test_def pte_macros)

definition page3 :: "u32 \<Rightarrow> nat" where
  "page3 a = unat a mod 65536 div 256"

lemma get_byte_3:
  assumes "mem_ready step3 m"
  shows "get_byte step3 m a True =
    (if 5 \<le> page3 a \<and> page3 a \<le> 8 then (-1, None, mem_print UnableToRead m)
     else case mem_cell step3 (local_pte step3 m a) a of (i, j) \<Rightarrow> (0, Some (main_mem m ! i ! j), m))"
  using assms by (auto simp: get_byte_def Let_def local_pte_ready init_pte_3_rwx init_pte_3_valid
      page3_def pte_macros)

lemma store_byte_3:
  assumes "mem_ready step3 m"
  shows "store_byte step3 m a v =
    (if 5 \<le> page3 a \<and> page3 a \<le> 8 \<or> 10 \<le> page3 a \<and> page3 a \<le> 12
     then (-1, mem_print UnableToWrite m)
     else (0, mem_write m (mem_cell step3 (local_pte step3 m a) a) v))"
  using assms by (auto simp: store_byte_def Let_def local_pte_ready init_pte_3_rwx
      store_valid_test_dead page3_def pte_macros)

lemma page3_test2: "i < 256 \<Longrightarrow> page3 (ucast (test2_vaddr i j)) = i"
proof -
  assume i: "i < 256"
  have "unat (test2_vaddr i j) div 256 mod 256 = i"
    using HIGH8_push_or[OF i] by (simp add: HIGH8_nat test2_vaddr_def)
  moreover have "unat (test2_vaddr i j) < 65536" by (rule unat_u16_less)
  ultimately show ?thesis by (simp add: page3_def unat_ucast_u16_u32)
qed

lemma test2_step_passes:
  assumes "mem_ready step3 m" and "i < 256"
  shows "\<exists>m'. test2_step step3 m i j = (Some m', m') \<and> mem_ready step3 m' \<and>
     (\<forall>a. PageNotMapped a \<in> set (mem_out m') \<longrightarrow> PageNotMapped a \<in> set (mem_out m))"
  using assms
  by (auto simp: test2_step_def test2_rw_def Let_def get_byte_3 store_byte_3 page3_test2
      mem_print_def mem_write_def mem_ready_print[unfolded mem_print_def]
      mem_ready_write[unfolded mem_write_def] split: prod.splits)

lemma test2_loop_passes:
  assumes "mem_ready step3 m" and "\<forall>p \<in> set ps. fst p < 256"
  shows "\<exists>m'. test2_loop step3 ps m = (0, m') \<and>
     (\<forall>a. PageNotMapped a \<in> set (mem_out m') \<longrightarrow> PageNotMapped a \<in> set (mem_out m))"
  using assms
proof (induction ps arbitrary: m)
  case Nil
  then show ?case by simp
next
  case (Cons p ps)
  obtain i j where p: "p = (i, j)" by (cases p)
  from Cons.prems p obtain m1 where "test2_step step3 m i j = (Some m1, m1)"
    and r: "mem_ready step3 m1"
    and o: "\<forall>a. PageNotMapped a \<in> set (mem_out m1) \<longrightarrow> PageNotMapped a \<in> set (mem_out m)"
    using test2_step_passes[of m i j] by auto
  then show ?case using Cons.IH[OF r] Cons.prems(2) p by fastforce
qed

text \<open>
  Index bounds. Whatever the address and whatever the page-table entry, in both memory
  sizes, the array indices the accessors compute are inside the page table and the memory.
\<close>

theorem memsim_indices_in_bounds:
  "mem_dims c m \<Longrightarrow>
     (if MEMORY_SIZE_SMALL c then HIGH8 v else HIGH6 v) < length (page_table m) \<and>
     fst (mem_cell c pte a) < length (main_mem m) \<and>
     (\<forall>row \<in> set (main_mem m). snd (mem_cell c pte a) < length row)"
  by (auto simp: mem_dims_def mem_cell_def word_nat less_trans[OF mod_less_divisor])

theorem memsim_indices_witness:
  "fst (mem_cell step4 0xFFFF 0x12345678) < length (main_mem (mem_start step4))"
  by (rule memsim_indices_in_bounds[OF mem_dims_start, THEN conjunct2, THEN conjunct1])

text \<open>
  Step 2 translation. After \<open>init_page_table\<close>, address \<open>v\<close> is read from the physical
  page \<open>255 - v / 256\<close> at offset \<open>v mod 256\<close> (the inverse mapping the comment promises).
\<close>

theorem step2_translation:
  "mem_dims step2 m \<Longrightarrow>
     get_byte step2 (init_page_table step2 m) v True =
       (0, Some (main_mem m ! (255 - unat v mod 65536 div 256) ! (unat v mod 256)),
        init_page_table step2 m)"
  by (simp add: get_byte_ready mem_ready_init cell_of_def) (simp add: init_page_table_def)

theorem step2_translation_witness:
  "get_byte step2 (init_page_table step2 (mem_start step2)) 0x0102 True =
     (0, Some 0, init_page_table step2 (mem_start step2))"
  using step2_translation[OF mem_dims_start, of "0x0102"] by (simp add: mem_start_def)

text \<open>
  C30. Step 2 memory. A byte stored at \<open>a\<close> is read back at \<open>b\<close> exactly when both addresses
  agree on 16 bits; every other address keeps its byte. Each of the 65536 bytes has its own cell.
\<close>

theorem step2_read_after_write:
  "mem_ready step2 m \<Longrightarrow>
     rd_byte step2 (wr_byte step2 m a v) b =
       (if unat a mod 65536 = unat b mod 65536 then v else rd_byte step2 m b)"
  by (simp only: small.rd_wr cell_of_step2)

theorem step2_read_after_write_witness:
  "rd_byte step2 (wr_byte step2 (init_page_table step2 (mem_start step2)) 0x10203 9) 0x0203 = 9"
  using step2_read_after_write[OF mem_ready_init[OF mem_dims_start], of "0x10203" 9 "0x0203"]
  by simp

text \<open>
  The tests of steps 2 and 4 succeed: \<open>main\<close> prints the success line and nothing else.
\<close>

theorem memsim_main_passes:
  "mem_out (memsim_main step2) = [TestSuccessful] \<and> mem_out (memsim_main step4) = [TestSuccessful]"
  by (simp add: main_test_passes small.byte_memory_axioms large.byte_memory_axioms)

text \<open>
  Step 4 aliases. The index macro \<open>HIGH6\<close> takes three bits at position 3, so every
  page-table entry of \<open>init_page_table\<close> designates row 0: two addresses share a cell
  whenever they agree modulo 1024, and a store changes no row but row 0.
\<close>

theorem step4_pages_alias:
  "mem_ready step4 m \<Longrightarrow>
     rd_byte step4 (wr_byte step4 m a v) b =
       (if unat a mod 1024 = unat b mod 1024 then v else rd_byte step4 m b) \<and>
     (\<forall>i. 0 < i \<longrightarrow> main_mem (wr_byte step4 m a v) ! i = main_mem m ! i)"
  by (auto simp: large.rd_wr cell_of_def) (simp add: wr_byte_def store_byte_ready mem_write_def cell_of_def)

theorem step4_pages_alias_witness:
  "rd_byte step4 (wr_byte step4 (init_page_table step4 (mem_start step4)) 0x0400 9) 0xF800 = 9"
  using step4_pages_alias[OF mem_ready_init[OF mem_dims_start], of "0x0400" 9 "0xF800"]
  by simp

text \<open>
  Step 3 passes its own test, and no read or store of the run ever raises a page fault:
  the pages the program means to invalidate keep their valid bit and fail on access rights.
\<close>

theorem step3_passes_without_page_fault:
  "\<exists>m'. test_mem_2 step3 (init_page_table step3 (mem_start step3)) = (0, m') \<and>
     (\<forall>a. PageNotMapped a \<notin> set (mem_out m')) \<and>
     list_all (\<lambda>pte. pte AND VALID_BIT = VALID_BIT)
       (page_table (init_page_table step3 (mem_start step3)))"
proof -
  let ?m = "init_page_table step3 (mem_start step3)"
  have ready: "mem_ready step3 ?m" by (intro invar_intros mem_dims_start)
  have "\<forall>p \<in> set (List.product [0..<MEMORY_PAGE_NUM step3] [0..<MEMORY_PAGE_SIZE step3]). fst p < 256"
    by auto
  from test2_loop_passes[OF ready this] obtain m' where "test_mem_2 step3 ?m = (0, m')"
    and "\<forall>a. PageNotMapped a \<in> set (mem_out m') \<longrightarrow> PageNotMapped a \<in> set (mem_out ?m)"
    by (auto simp: test_mem_2_def)
  moreover have "mem_out ?m = []" by (simp add: init_page_table_def mem_start_def)
  moreover have "list_all (\<lambda>pte. pte AND VALID_BIT = VALID_BIT) (page_table ?m)"
    using ready by (simp add: mem_ready_def list_all_iff VALID_BIT_def init_pte_3_valid)
  ultimately show ?thesis by simp
qed

text \<open>
  Stores ignore the valid bit. With attributes active, a store through an entry whose
  valid bit is clear and whose rights allow writing succeeds and writes the byte, while a
  read through the same entry reports a page fault.
\<close>

theorem store_ignores_valid_bit:
  assumes "MEMORY_PTE_ATTRIBUTES_ACTIVE c" and "local_pte c m a AND VALID_BIT = 0"
    and "rwx_of (local_pte c m a) = RWX_PATTERN"
  shows "store_byte c m a v = (0, mem_write m (mem_cell c (local_pte c m a) a) v) \<and>
     get_byte c m a True = (-1, None, mem_print (PageNotMapped a) m)"
  using assms by (auto simp: store_byte_def get_byte_def Let_def store_valid_test_dead pte_macros)

theorem store_ignores_valid_bit_witness:
  "store_byte step3 (mem_start step3) 0 7 = (0, mem_write (mem_start step3) (0, 0) 7)"
proof -
  have p: "local_pte step3 (mem_start step3) 0 = 0"
    by (simp add: local_pte_def virt_to_pte_def mem_start_def HIGH8_nat)
  then show ?thesis
    using store_ignores_valid_bit[of step3 "mem_start step3" 0 7]
    by (simp add: rwx_of_def RWX_PATTERN_def mem_cell_def word_nat)
qed

end
