(* ===== verification/MemReplace.thy ===== *)
theory MemReplace
  imports CLib
begin

text \<open>
  The page-replacement simulator of lab 7, \<open>usr/src/memreplace.c\<close>: the page table, the time
  stamps and the access counter, the two algorithms LRU and WSClock, and the interactive main
  loop. The calls to the graphical front end and to the console are events of an output list.
\<close>

section \<open>State\<close>

definition RESET :: int where "RESET = 2"
definition DELTA :: int where "DELTA = 2"
definition EXIT_MEMRPLC :: int where "EXIT_MEMRPLC = - 2"
definition PAGE_NB_MASK :: u8 where "PAGE_NB_MASK = 0xF0"
definition REF_BIT_MASK :: u8 where "REF_BIT_MASK = 4"
definition SWAP_BIT_MASK :: u8 where "SWAP_BIT_MASK = 2"
definition VALID_BIT_MASK :: u8 where "VALID_BIT_MASK = 1"

definition CHECK_MASK :: "u8 \<Rightarrow> u8 \<Rightarrow> bool" where "CHECK_MASK x m \<longleftrightarrow> x AND m = m"
definition SET_MASK :: "u8 \<Rightarrow> u8 \<Rightarrow> u8" where "SET_MASK x m = x OR m"
definition UNSET_MASK :: "u8 \<Rightarrow> u8 \<Rightarrow> u8" where "UNSET_MASK x m = x AND NOT m"

definition UNLOAD_PAGE :: "u8 \<Rightarrow> u8" where
  "UNLOAD_PAGE p = SET_MASK (UNSET_MASK p VALID_BIT_MASK) SWAP_BIT_MASK"

definition NB_PAGES :: nat where "NB_PAGES = 16"

datatype mr_event =
    NoValidPage
  | PrintMemory "nat list" "nat list"
  | Prompt
  | Usage
  | InvalidPage
  | GuiInit
  | GuiUpdate "u8 list"
  | GuiExit

record memrep =
  page_table :: "u8 list"
  tdu :: "u8 list"
  tvc :: u8
  mr_out :: "mr_event list"

definition mr_start :: memrep where
  "mr_start = \<lparr>page_table = replicate NB_PAGES 0, tdu = replicate NB_PAGES 0, tvc = 0, mr_out = []\<rparr>"

definition emit :: "mr_event \<Rightarrow> memrep \<Rightarrow> memrep" where
  "emit e m = m\<lparr>mr_out := mr_out m @ [e]\<rparr>"

section \<open>Least recently used\<close>

text \<open>The search loop of \<open>replaceLRU\<close>: the candidate so far (\<open>-1\<close> is \<open>None\<close>) and \<open>min\<close>.\<close>

fun lru_search :: "memrep \<Rightarrow> nat list \<Rightarrow> nat option \<times> u8 \<Rightarrow> nat option \<times> u8" where
  "lru_search m [] (cand, mn) = (cand, mn)"
| "lru_search m (i # is) (cand, mn) =
     (if CHECK_MASK (page_table m ! i) VALID_BIT_MASK \<and> (cand = None \<or> tdu m ! i < mn)
      then lru_search m is (Some i, if tdu m ! i < mn then tdu m ! i else mn)
      else lru_search m is (cand, mn))"

definition unload :: "nat option \<Rightarrow> memrep \<Rightarrow> memrep" where
  "unload c m = (case c of
     Some i \<Rightarrow> m\<lparr>page_table := (page_table m)[i := UNLOAD_PAGE (page_table m ! i)]\<rparr>
   | None \<Rightarrow> emit NoValidPage m)"

definition replaceLRU :: "memrep \<Rightarrow> memrep" where
  "replaceLRU m = unload (fst (lru_search m [0..<NB_PAGES] (None, tvc m))) m"

definition inc_compteur :: "nat \<Rightarrow> memrep \<Rightarrow> memrep" where
  "inc_compteur no_page m = m\<lparr>tdu := (tdu m)[no_page := tvc m], tvc := tvc m + 1\<rparr>"

section \<open>WSClock\<close>

text \<open>\<open>tvc - tdu[i]\<close> is a difference of \<open>int\<close>s: both operands are promoted.\<close>

definition age :: "memrep \<Rightarrow> nat \<Rightarrow> int" where
  "age m i = int (unat (tvc m)) - int (unat (tdu m ! i))"

fun wsc_search :: "nat list \<Rightarrow> nat option \<times> memrep \<Rightarrow> nat option \<times> memrep" where
  "wsc_search [] (cand, m) = (cand, m)"
| "wsc_search (i # is) (cand, m) =
     (if CHECK_MASK (page_table m ! i) VALID_BIT_MASK
      then let cand' = (if cand = None then Some i else cand) in
        if CHECK_MASK (page_table m ! i) REF_BIT_MASK
        then wsc_search is (cand', m\<lparr>page_table :=
               (page_table m)[i := UNSET_MASK (page_table m ! i) REF_BIT_MASK]\<rparr>)
        else if age m i > DELTA then (Some i, m)
        else wsc_search is (cand', m)
      else wsc_search is (cand, m))"

definition replaceWSC :: "memrep \<Rightarrow> memrep" where
  "replaceWSC m = (case wsc_search [0..<NB_PAGES] (None, m) of (c, m') \<Rightarrow> unload c m')"

definition updateTDU :: "memrep \<Rightarrow> memrep" where
  "updateTDU m = m\<lparr>tdu := fold (\<lambda>i t. if CHECK_MASK (page_table m ! i) REF_BIT_MASK
      then t[i := tvc m] else t) [0..<NB_PAGES] (tdu m)\<rparr>"

section \<open>Initialisation and display\<close>

definition or_entry :: "nat \<Rightarrow> u8 \<Rightarrow> u8 list \<Rightarrow> u8 list" where
  "or_entry i v pt = pt[i := (pt ! i) OR v]"

definition init_page_table :: "memrep \<Rightarrow> memrep" where
  "init_page_table m = m\<lparr>page_table :=
     or_entry 3 SWAP_BIT_MASK (or_entry 2 VALID_BIT_MASK (or_entry 1 VALID_BIT_MASK (or_entry 0 VALID_BIT_MASK
       (fold (\<lambda>i. or_entry i (push_bit 4 (of_nat i AND 0xF))) [0..<NB_PAGES] (page_table m)))))\<rparr>"

definition print_memory :: "memrep \<Rightarrow> memrep" where
  "print_memory m = emit (PrintMemory
      (filter (\<lambda>i. page_table m ! i AND VALID_BIT_MASK \<noteq> 0) [0..<NB_PAGES])
      (filter (\<lambda>i. page_table m ! i AND VALID_BIT_MASK = 0 \<and> page_table m ! i AND SWAP_BIT_MASK \<noteq> 0)
         [0..<NB_PAGES])) m"

section \<open>The main loop\<close>

text \<open>
  Standard input is the string of the characters still to read. At its end \<open>fgets\<close> fails and
  the program reads an array it has not written, which has no defined result: \<open>None\<close>.
\<close>

definition ask_user_page_no :: "string \<Rightarrow> (int \<times> string) option" where
  "ask_user_page_no stdin = (case fgets 4 stdin of None \<Rightarrow> None
     | Some (input, rest) \<Rightarrow> Some
        (if hd input = CHR ''E'' \<or> hd input = CHR ''e'' then EXIT_MEMRPLC
         else if \<not> isdigit (hd input) then - 1 else atoi input, rest))"

text \<open>What the loop does for a page number in range.\<close>

definition access_page :: "bool \<Rightarrow> bool \<Rightarrow> nat \<Rightarrow> memrep \<Rightarrow> memrep" where
  "access_page LRU_run gui_run page_no m =
     (let m1 = (if LRU_run
          then inc_compteur page_no
             (if page_table m ! page_no AND VALID_BIT_MASK = 0 then replaceLRU m else m)
          else (\<lambda>x. x\<lparr>tvc := tvc x + 1\<rparr>) (updateTDU
             (if page_table m ! page_no AND VALID_BIT_MASK = 0 then replaceWSC m else m)));
          p = UNSET_MASK (SET_MASK (page_table m1 ! page_no) (VALID_BIT_MASK OR REF_BIT_MASK)) SWAP_BIT_MASK;
          m2 = print_memory (m1\<lparr>page_table := (page_table m1)[page_no := p]\<rparr>)
      in if gui_run then emit (GuiUpdate (page_table m2)) m2 else m2)"

lemma ask_consumes: "ask_user_page_no stdin = Some (n, rest) \<Longrightarrow> length rest < length stdin"
  using read_line_rest[of 3 stdin]
  by (auto simp: ask_user_page_no_def fgets_def case_prod_unfold split: if_splits)

function mr_loop :: "bool \<Rightarrow> bool \<Rightarrow> string \<Rightarrow> memrep \<Rightarrow> memrep option" where
  "mr_loop LRU_run gui_run stdin m =
     (case ask_user_page_no stdin of None \<Rightarrow> None
      | Some (page_no, rest) \<Rightarrow>
          let m' = emit Prompt m in
          if page_no = EXIT_MEMRPLC then Some (emit GuiExit m')
          else if page_no \<ge> 0 \<and> page_no < int NB_PAGES
          then mr_loop LRU_run gui_run rest (access_page LRU_run gui_run (nat page_no) m')
          else mr_loop LRU_run gui_run rest (emit InvalidPage m'))"
  by pat_completeness auto

termination
  by (relation "measure (\<lambda>(l, g, s, m). length s)") (auto dest: ask_consumes)

declare mr_loop.simps [simp del]

text \<open>
  \<open>main\<close>: the arguments after the program's name; the result is the exit status with the final
  state. \<open>mr_boot\<close> is the state in which the loop starts.
\<close>

definition mr_boot :: "bool \<Rightarrow> memrep" where
  "mr_boot gui_run =
     (let m0 = (if gui_run then emit GuiInit mr_start else mr_start);
          m1 = print_memory (init_page_table m0)
      in if gui_run then emit (GuiUpdate (page_table m1)) m1 else m1)"

definition mr_main :: "string list \<Rightarrow> string \<Rightarrow> (int \<times> memrep) option" where
  "mr_main args stdin =
     (let n = length args;
          LRU_run = (1 \<le> n \<and> args ! 0 = ''LRU'');
          is_valid = (1 \<le> n \<and> n \<le> 2 \<and> (args ! 0 = ''LRU'' \<or> args ! 0 = ''WSC''));
          gui_run = (\<not> (n = 2 \<and> args ! 1 = ''--ng''))
      in if \<not> is_valid then Some (1, emit Usage mr_start)
         else map_option (Pair 0) (mr_loop LRU_run gui_run stdin (mr_boot gui_run)))"

section \<open>The bits of an entry\<close>

lemmas mask_defs = REF_BIT_MASK_def SWAP_BIT_MASK_def VALID_BIT_MASK_def

lemma and_push_bit: "x AND push_bit n 1 = (if bit x n then push_bit n 1 else 0)" for x :: u8
  by (intro bit_word_eqI) (auto simp: bit_simps)

lemma bit_masks [simp]:
  "bit VALID_BIT_MASK n \<longleftrightarrow> n = 0" "bit SWAP_BIT_MASK n \<longleftrightarrow> n = 1" "bit REF_BIT_MASK n \<longleftrightarrow> n = 2"
proof -
  have "bit (push_bit k 1 :: u8) n \<longleftrightarrow> n = k" if "k < 8" for k
    using that by (auto simp: bit_simps)
  from this[of 0] this[of 1] this[of 2]
  show "bit VALID_BIT_MASK n \<longleftrightarrow> n = 0" "bit SWAP_BIT_MASK n \<longleftrightarrow> n = 1" "bit REF_BIT_MASK n \<longleftrightarrow> n = 2"
    by (simp_all add: mask_defs)
qed

lemma valid_bit [simp]: "CHECK_MASK x VALID_BIT_MASK \<longleftrightarrow> bit x 0"
  "x AND VALID_BIT_MASK = 0 \<longleftrightarrow> \<not> bit x 0"
  using and_push_bit[of x 0] by (simp_all add: CHECK_MASK_def mask_defs)

lemma ref_bit [simp]: "CHECK_MASK x REF_BIT_MASK \<longleftrightarrow> bit x 2"
  using and_push_bit[of x 2] by (simp add: CHECK_MASK_def mask_defs)

lemma swap_bit [simp]: "x AND SWAP_BIT_MASK = 0 \<longleftrightarrow> \<not> bit x 1"
  using and_push_bit[of x 1] by (simp add: mask_defs)

lemma UNLOAD_bits [simp]: "bit (UNLOAD_PAGE x) n \<longleftrightarrow> n = 1 \<or> n \<noteq> 0 \<and> bit x n"
  unfolding UNLOAD_PAGE_def SET_MASK_def UNSET_MASK_def
  by (auto simp: bit_or_iff bit_and_iff bit_not_iff dest: bit_imp_le_length)

lemma UNSET_REF_bits [simp]: "bit (UNSET_MASK x REF_BIT_MASK) n \<longleftrightarrow> n \<noteq> 2 \<and> bit x n"
  unfolding UNSET_MASK_def
  by (auto simp: bit_or_iff bit_and_iff bit_not_iff dest: bit_imp_le_length)

definition touch :: "u8 \<Rightarrow> u8" where
  "touch x = UNSET_MASK (SET_MASK x (VALID_BIT_MASK OR REF_BIT_MASK)) SWAP_BIT_MASK"

lemma touch_bits [simp]: "bit (touch x) n \<longleftrightarrow> n = 0 \<or> n = 2 \<or> n \<noteq> 1 \<and> bit x n"
  unfolding touch_def SET_MASK_def UNSET_MASK_def
  by (auto simp: bit_or_iff bit_and_iff bit_not_iff dest: bit_imp_le_length)

section \<open>Well-formed tables\<close>

definition resident :: "memrep \<Rightarrow> nat set" where
  "resident m = {i. i < NB_PAGES \<and> bit (page_table m ! i) 0}"

text \<open>An entry carries its page number, and is not both in RAM and in swap.\<close>

definition entry_ok :: "nat \<Rightarrow> u8 \<Rightarrow> bool" where
  "entry_ok i x \<longleftrightarrow> drop_bit 4 x = of_nat i \<and> \<not> (bit x 0 \<and> bit x 1)"

definition mr_wf :: "memrep \<Rightarrow> bool" where
  "mr_wf m \<longleftrightarrow> length (page_table m) = NB_PAGES \<and> length (tdu m) = NB_PAGES \<and>
     (\<forall>i < NB_PAGES. entry_ok i (page_table m ! i))"

lemma drop_bit_4_cong: "(\<And>n. 4 \<le> n \<Longrightarrow> bit y n = bit x n) \<Longrightarrow> drop_bit 4 y = drop_bit 4 x" for x y :: u8
  by (intro bit_word_eqI) (simp add: bit_simps)

lemma entry_ok_change [intro]:
  "entry_ok i x \<Longrightarrow> entry_ok i (UNLOAD_PAGE x)"
  "entry_ok i x \<Longrightarrow> entry_ok i (UNSET_MASK x REF_BIT_MASK)"
  "entry_ok i x \<Longrightarrow> entry_ok i (touch x)"
  using drop_bit_4_cong[of "UNLOAD_PAGE x" x] drop_bit_4_cong[of "UNSET_MASK x REF_BIT_MASK" x]
    drop_bit_4_cong[of "touch x" x] by (auto simp: entry_ok_def)

lemma wf_update:
  "mr_wf m \<Longrightarrow> entry_ok i x \<Longrightarrow> i < NB_PAGES \<Longrightarrow> mr_wf (m\<lparr>page_table := (page_table m)[i := x]\<rparr>)"
  by (auto simp: mr_wf_def nth_list_update)

lemma resident_update:
  assumes "mr_wf m" and "i < NB_PAGES"
  shows "resident (m\<lparr>page_table := (page_table m)[i := x]\<rparr>) =
    (if bit x 0 then insert i (resident m) else resident m - {i})"
  using assms by (auto simp: resident_def nth_list_update mr_wf_def split: if_splits)

lemma resident_frame [simp]:
  "resident (m\<lparr>tdu := t\<rparr>) = resident m" "resident (m\<lparr>tvc := c\<rparr>) = resident m"
  "resident (m\<lparr>tdu := t, tvc := c\<rparr>) = resident m"
  "resident (emit e m) = resident m" "resident (print_memory m) = resident m"
  by (simp_all add: resident_def emit_def print_memory_def)

lemma wf_frame [simp]:
  "mr_wf (m\<lparr>tvc := c\<rparr>) = mr_wf m" "mr_wf (emit e m) = mr_wf m" "mr_wf (print_memory m) = mr_wf m"
  "length t = NB_PAGES \<Longrightarrow> mr_wf m \<Longrightarrow> mr_wf (m\<lparr>tdu := t\<rparr>)"
  by (auto simp: mr_wf_def emit_def print_memory_def)

lemma finite_resident [simp]: "finite (resident m)"
  by (simp add: resident_def)

section \<open>The interface of a replacement algorithm\<close>

text \<open>
  What the main loop relies on: with a page in RAM, the algorithm takes exactly one page out,
  keeps the table well formed, and touches neither the time stamps nor the counter.
\<close>

locale replacement =
  fixes replace :: "memrep \<Rightarrow> memrep"
  assumes evicts: "mr_wf m \<Longrightarrow> resident m \<noteq> {} \<Longrightarrow> \<exists>q \<in> resident m. resident (replace m) = resident m - {q}"
    and keeps: "mr_wf m \<Longrightarrow> resident m \<noteq> {} \<Longrightarrow>
      mr_wf (replace m) \<and> tdu (replace m) = tdu m \<and> tvc (replace m) = tvc m \<and> mr_out (replace m) = mr_out m"
begin

lemma fault_count:
  assumes "mr_wf m" and "resident m \<noteq> {}"
  shows "card (resident (replace m)) + 1 = card (resident m)"
proof -
  from evicts[OF assms] obtain q where "q \<in> resident m" "resident (replace m) = resident m - {q}" by blast
  with card_Suc_Diff1[OF finite_resident, of q m] show ?thesis by simp
qed

lemma load_count:
  assumes "mr_wf m" and "resident m \<noteq> {}" and "p \<notin> resident m"
  shows "card (insert p (resident (replace m))) = card (resident m)"
proof -
  have "p \<notin> resident (replace m)" using evicts[OF assms(1,2)] assms(3) by auto
  then show ?thesis using fault_count[OF assms(1,2)] by simp
qed

end

section \<open>LRU takes out a page, the one with the least time stamp\<close>

lemma unload_effect:
  assumes "mr_wf m" and "q \<in> resident m"
  shows "resident (unload (Some q) m) = resident m - {q}" and "mr_wf (unload (Some q) m)"
    and "tdu (unload (Some q) m) = tdu m" and "tvc (unload (Some q) m) = tvc m"
    and "mr_out (unload (Some q) m) = mr_out m"
proof -
  have q: "q < NB_PAGES" "bit (page_table m ! q) 0" using assms(2) by (simp_all add: resident_def)
  then have "entry_ok q (UNLOAD_PAGE (page_table m ! q))"
    using assms(1) entry_ok_change(1) by (simp add: mr_wf_def)
  then show "mr_wf (unload (Some q) m)" using wf_update[OF assms(1) _ q(1)] by (simp add: unload_def)
  show "resident (unload (Some q) m) = resident m - {q}"
    using resident_update[OF assms(1) q(1)] by (simp add: unload_def)
qed (simp_all add: unload_def)

text \<open>The candidate is the first resident page in the list of scanned pages with the least stamp.\<close>

lemma lru_search_cand:
  "case fst (lru_search m ps (cand, mn)) of
     None \<Rightarrow> cand = None \<and> (\<forall>i \<in> set ps. \<not> bit (page_table m ! i) 0)
   | Some q \<Rightarrow> cand = Some q \<or> q \<in> set ps \<and> bit (page_table m ! q) 0"
proof (induction ps arbitrary: cand mn)
  case (Cons i ps)
  show ?case
  proof (cases "bit (page_table m ! i) 0 \<and> (cand = None \<or> tdu m ! i < mn)")
    case True
    define mn' where "mn' = (if tdu m ! i < mn then tdu m ! i else mn)"
    have "lru_search m (i # ps) (cand, mn) = lru_search m ps (Some i, mn')" using True by (simp add: mn'_def)
    with Cons.IH[of "Some i" mn'] True show ?thesis by (auto split: option.splits)
  next
    case False
    then have "lru_search m (i # ps) (cand, mn) = lru_search m ps (cand, mn)" by auto
    with Cons.IH[of cand mn] False show ?thesis by (auto split: option.splits)
  qed
qed (simp split: option.splits)

lemma lru_search_least:
  "tdu m ! c = mn \<Longrightarrow> fst (lru_search m ps (Some c, mn)) = Some q \<Longrightarrow>
   tdu m ! q \<le> mn \<and> (\<forall>j \<in> set ps. bit (page_table m ! j) 0 \<longrightarrow> tdu m ! q \<le> tdu m ! j)"
proof (induction ps arbitrary: c mn)
  case (Cons i ps)
  show ?case
  proof (cases "bit (page_table m ! i) 0 \<and> tdu m ! i < mn")
    case True
    with Cons.prems have "fst (lru_search m ps (Some i, tdu m ! i)) = Some q" by simp
    from Cons.IH[OF _ this] True show ?thesis by auto
  next
    case False
    with Cons.prems have "fst (lru_search m ps (Some c, mn)) = Some q" by (auto split: if_splits)
    from Cons.IH[OF Cons.prems(1) this] False show ?thesis by auto
  qed
qed simp

lemma lru_search_first:
  assumes "\<forall>j \<in> set ps. bit (page_table m ! j) 0 \<longrightarrow> tdu m ! j \<le> mn"
    and "fst (lru_search m ps (None, mn)) = Some q"
  shows "\<forall>j \<in> set ps. bit (page_table m ! j) 0 \<longrightarrow> tdu m ! q \<le> tdu m ! j"
  using assms
proof (induction ps)
  case (Cons i ps)
  show ?case
  proof (cases "bit (page_table m ! i) 0")
    case True
    then have "(if tdu m ! i < mn then tdu m ! i else mn) = tdu m ! i" using Cons.prems(1) by auto
    with True Cons.prems(2) have "fst (lru_search m ps (Some i, tdu m ! i)) = Some q" by simp
    from lru_search_least[OF refl this] show ?thesis by auto
  next
    case False
    with Cons show ?thesis by auto
  qed
qed simp

lemma lru_victim:
  assumes "mr_wf m" and "resident m \<noteq> {}"
  obtains q where "q \<in> resident m" and "replaceLRU m = unload (Some q) m"
    and "(\<And>j. j \<in> resident m \<Longrightarrow> tdu m ! j \<le> tvc m) \<Longrightarrow> (\<forall>j \<in> resident m. tdu m ! q \<le> tdu m ! j)"
proof (cases "fst (lru_search m [0..<NB_PAGES] (None, tvc m))")
  case None
  with lru_search_cand[where m = m and ps = "[0..<NB_PAGES]" and cand = None and mn = "tvc m"] assms(2) show ?thesis
    by (auto simp: resident_def)
next
  case (Some q)
  show ?thesis
  proof (rule that)
    show "q \<in> resident m" using lru_search_cand[where m = m and ps = "[0..<NB_PAGES]" and cand = None and mn = "tvc m"] Some
      by (auto simp: resident_def)
    show "replaceLRU m = unload (Some q) m" by (simp add: replaceLRU_def Some)
    show "\<forall>j \<in> resident m. tdu m ! q \<le> tdu m ! j" if "\<And>j. j \<in> resident m \<Longrightarrow> tdu m ! j \<le> tvc m"
      using lru_search_first[OF _ Some] that by (auto simp: resident_def)
  qed
qed

interpretation lru: replacement replaceLRU
proof unfold_locales
  fix m :: memrep assume m: "mr_wf m" "resident m \<noteq> {}"
  from lru_victim[OF m] obtain q where q: "q \<in> resident m" "replaceLRU m = unload (Some q) m" by metis
  show "\<exists>q \<in> resident m. resident (replaceLRU m) = resident m - {q}"
    using unload_effect(1)[OF m(1) q(1)] q by auto
  show "mr_wf (replaceLRU m) \<and> tdu (replaceLRU m) = tdu m \<and> tvc (replaceLRU m) = tvc m \<and>
      mr_out (replaceLRU m) = mr_out m"
    using unload_effect[OF m(1) q(1)] q by simp
qed

section \<open>WSClock takes out a page, the first old one\<close>

text \<open>The table with the reference bits of the resident pages of a list cleared.\<close>

definition clear_refs :: "nat list \<Rightarrow> memrep \<Rightarrow> memrep" where
  "clear_refs is m = m\<lparr>page_table := map (\<lambda>(i, x).
      if i \<in> set is \<and> bit x 0 then UNSET_MASK x REF_BIT_MASK else x) (enumerate 0 (page_table m))\<rparr>"

lemma clear_refs_frame [simp]:
  "tdu (clear_refs is m) = tdu m" "tvc (clear_refs is m) = tvc m" "mr_out (clear_refs is m) = mr_out m"
  "length (page_table (clear_refs is m)) = length (page_table m)"
  "age (clear_refs is m) i = age m i"
  by (simp_all add: clear_refs_def age_def)

lemma clear_refs_nth [simp]:
  "i < length (page_table m) \<Longrightarrow> page_table (clear_refs is m) ! i =
     (if i \<in> set is \<and> bit (page_table m ! i) 0 then UNSET_MASK (page_table m ! i) REF_BIT_MASK
      else page_table m ! i)"
  by (simp add: clear_refs_def nth_enumerate_eq)

lemma clear_refs_wf:
  assumes "mr_wf m"
  shows "mr_wf (clear_refs is m)" and "resident (clear_refs is m) = resident m"
  using assms by (auto simp: mr_wf_def resident_def split: if_splits)

lemma memrep_eqI:
  "length (page_table a) = length (page_table b) \<Longrightarrow>
   (\<And>i. i < length (page_table a) \<Longrightarrow> page_table a ! i = page_table b ! i) \<Longrightarrow>
   tdu a = tdu b \<Longrightarrow> tvc a = tvc b \<Longrightarrow> mr_out a = mr_out b \<Longrightarrow> a = b" for a b :: memrep
  by (cases a; cases b) (auto intro: nth_equalityI)

lemma UNSET_REF_idem: "\<not> bit x 2 \<Longrightarrow> UNSET_MASK x REF_BIT_MASK = x"
  by (intro bit_word_eqI) auto

lemma clear_refs_Cons:
  assumes "i < length (page_table m)"
  shows "clear_refs (i # is) m = clear_refs is (if bit (page_table m ! i) 0
     then m\<lparr>page_table := (page_table m)[i := UNSET_MASK (page_table m ! i) REF_BIT_MASK]\<rparr> else m)"
  using assms UNSET_REF_idem[of "UNSET_MASK (page_table m ! i) REF_BIT_MASK"]
  by (intro memrep_eqI) (auto simp: nth_list_update)

definition old_page :: "memrep \<Rightarrow> nat \<Rightarrow> bool" where
  "old_page m i \<longleftrightarrow> bit (page_table m ! i) 0 \<and> \<not> bit (page_table m ! i) 2 \<and> age m i > DELTA"

text \<open>
  The scan: if some page of the list is resident, unreferenced and old, the first such page is
  the candidate and the references before it are cleared; otherwise all are cleared and the
  candidate is the first resident page.
\<close>

lemma wsc_search_spec:
  assumes "\<forall>i \<in> set is. i < length (page_table m)" and "distinct is"
  shows "wsc_search is (cand, m) =
    (case find (old_page m) is of
       Some i \<Rightarrow> (Some i, clear_refs (takeWhile (\<lambda>j. \<not> old_page m j) is) m)
     | None \<Rightarrow> (if cand = None then find (\<lambda>i. bit (page_table m ! i) 0) is else cand, clear_refs is m))"
  using assms
proof (induction "is" arbitrary: cand m)
  case Nil
  have "clear_refs [] m = m" by (rule memrep_eqI) auto
  then show ?case by simp
next
  case (Cons i ps)
  let ?x = "page_table m ! i"
  let ?m = "m\<lparr>page_table := (page_table m)[i := UNSET_MASK ?x REF_BIT_MASK]\<rparr>"
  have i: "i < length (page_table m)" "i \<notin> set ps" using Cons.prems by auto
  have old: "old_page ?m j = old_page m j" if "j \<in> set ps" for j
    using that i by (auto simp: old_page_def age_def nth_list_update)
  have same: "find (old_page ?m) ps = find (old_page m) ps"
    "takeWhile (\<lambda>j. \<not> old_page ?m j) ps = takeWhile (\<lambda>j. \<not> old_page m j) ps"
    "find (\<lambda>j. bit (page_table ?m ! j) 0) ps = find (\<lambda>j. bit (page_table m ! j) 0) ps"
    using old i by (auto intro!: find_cong takeWhile_cong simp: nth_list_update)
  have IH: "wsc_search ps (c, n) =
    (case find (old_page n) ps of
       Some i \<Rightarrow> (Some i, clear_refs (takeWhile (\<lambda>j. \<not> old_page n j) ps) n)
     | None \<Rightarrow> (if c = None then find (\<lambda>i. bit (page_table n ! i) 0) ps else c, clear_refs ps n))"
    if "length (page_table n) = length (page_table m)" for c n
    using Cons.IH[of n c] Cons.prems that by auto
  note cl = clear_refs_Cons[OF i(1)]
  consider (out) "\<not> bit ?x 0" | (ref) "bit ?x 0" "bit ?x 2" | (old) "old_page m i"
    | (young) "bit ?x 0" "\<not> bit ?x 2" "\<not> age m i > DELTA" by (auto simp: old_page_def)
  then show ?case
  proof cases
    case out
    then have "\<not> old_page m i" by (simp add: old_page_def)
    with out show ?thesis using IH[of m cand] by (cases cand) (auto simp: cl split: option.splits)
  next
    case ref
    then have "\<not> old_page m i" by (simp add: old_page_def)
    with ref show ?thesis using IH[of ?m "if cand = None then Some i else cand"]
      by (cases cand) (auto simp: cl same Let_def split: option.splits)
  next
    case old
    have "clear_refs [] m = m" by (rule memrep_eqI) auto
    with old show ?thesis by (simp add: old_page_def Let_def)
  next
    case young
    then have "\<not> old_page m i" "?m = m"
      using i by (auto simp: old_page_def UNSET_REF_idem)
    with young show ?thesis using IH[of m "if cand = None then Some i else cand"]
      by (cases cand) (auto simp: cl Let_def split: option.splits)
  qed
qed

definition wsc_victim :: "memrep \<Rightarrow> nat option" where
  "wsc_victim m = (case find (old_page m) [0..<NB_PAGES] of Some i \<Rightarrow> Some i
     | None \<Rightarrow> find (\<lambda>i. bit (page_table m ! i) 0) [0..<NB_PAGES])"

lemma find_Some_mem: "find P xs = Some x \<Longrightarrow> x \<in> set xs \<and> P x"
  by (induction xs) (auto split: if_splits)

lemma find_None_mem: "find P xs = None \<longleftrightarrow> (\<forall>x \<in> set xs. \<not> P x)"
  by (induction xs) auto

lemma wsc_victim_resident:
  assumes "resident m \<noteq> {}"
  shows "\<exists>q \<in> resident m. wsc_victim m = Some q"
proof (cases "find (old_page m) [0..<NB_PAGES]")
  case None
  have "find (\<lambda>i. bit (page_table m ! i) 0) [0..<NB_PAGES] \<noteq> None"
    using assms by (auto simp: find_None_mem resident_def)
  then obtain q where q: "find (\<lambda>i. bit (page_table m ! i) 0) [0..<NB_PAGES] = Some q" by auto
  with find_Some_mem[OF q] None show ?thesis by (auto simp: wsc_victim_def resident_def)
next
  case (Some q)
  with find_Some_mem[OF Some] show ?thesis by (auto simp: wsc_victim_def resident_def old_page_def)
qed

lemma replaceWSC_unload:
  assumes "mr_wf m"
  shows "\<exists>is. replaceWSC m = unload (wsc_victim m) (clear_refs is m) \<and>
    is = (if find (old_page m) [0..<NB_PAGES] = None then [0..<NB_PAGES]
          else takeWhile (\<lambda>j. \<not> old_page m j) [0..<NB_PAGES])"
  using wsc_search_spec[of "[0..<NB_PAGES]" m None] assms
  by (auto simp: replaceWSC_def wsc_victim_def mr_wf_def split: option.splits)

interpretation wsc: replacement replaceWSC
proof unfold_locales
  fix m :: memrep assume m: "mr_wf m" "resident m \<noteq> {}"
  from wsc_victim_resident[OF m(2)] obtain q where q: "q \<in> resident m" "wsc_victim m = Some q" by blast
  from replaceWSC_unload[OF m(1)] obtain ps where r: "replaceWSC m = unload (Some q) (clear_refs ps m)"
    unfolding q(2) by blast
  note u = unload_effect[OF clear_refs_wf(1)[OF m(1)], of q ps]
  have q': "q \<in> resident (clear_refs ps m)" using q(1) clear_refs_wf(2)[OF m(1)] by simp
  show "\<exists>q \<in> resident m. resident (replaceWSC m) = resident m - {q}"
    using u(1)[OF q'] q(1) clear_refs_wf(2)[OF m(1)] r by auto
  show "mr_wf (replaceWSC m) \<and> tdu (replaceWSC m) = tdu m \<and> tvc (replaceWSC m) = tvc m \<and>
      mr_out (replaceWSC m) = mr_out m"
    using u[OF q'] r by simp
qed

section \<open>The effect of an access\<close>

definition replace_of :: "bool \<Rightarrow> memrep \<Rightarrow> memrep" where
  "replace_of LRU_run = (if LRU_run then replaceLRU else replaceWSC)"

lemma replace_of_load:
  assumes "mr_wf m" and "resident m \<noteq> {}"
  shows "mr_wf (replace_of l m)" and "mr_out (replace_of l m) = mr_out m"
    and "tdu (replace_of l m) = tdu m" and "tvc (replace_of l m) = tvc m"
    and "\<exists>q \<in> resident m. resident (replace_of l m) = resident m - {q}"
    and "p \<notin> resident m \<Longrightarrow> card (insert p (resident (replace_of l m))) = card (resident m)"
  using lru.keeps[OF assms] wsc.keeps[OF assms] lru.evicts[OF assms] wsc.evicts[OF assms]
    lru.load_count[OF assms, of p] wsc.load_count[OF assms, of p]
  by (simp_all add: replace_of_def)

text \<open>The state between the bookkeeping and the marking of the accessed page.\<close>

definition stamp :: "bool \<Rightarrow> nat \<Rightarrow> memrep \<Rightarrow> memrep" where
  "stamp l p m = (if l then inc_compteur p m else (\<lambda>x. x\<lparr>tvc := tvc x + 1\<rparr>) (updateTDU m))"

definition fault_in :: "bool \<Rightarrow> nat \<Rightarrow> memrep \<Rightarrow> memrep" where
  "fault_in l p m = (if bit (page_table m ! p) 0 then m else replace_of l m)"

lemma access_page_alt:
  "access_page l g p m = (let m1 = stamp l p (fault_in l p m);
      m2 = print_memory (m1\<lparr>page_table := (page_table m1)[p := touch (page_table m1 ! p)]\<rparr>)
     in if g then emit (GuiUpdate (page_table m2)) m2 else m2)"
  by (simp add: access_page_def stamp_def fault_in_def replace_of_def touch_def Let_def)

lemma fold_length: "(\<And>x ys. length (f x ys) = length ys) \<Longrightarrow> length (fold f xs ys) = length ys"
  by (induction xs arbitrary: ys) auto

lemma stamp_frame [simp]:
  "page_table (stamp l p m) = page_table m" "resident (stamp l p m) = resident m"
  "mr_wf m \<Longrightarrow> mr_wf (stamp l p m)" "mr_out (stamp l p m) = mr_out m" "tvc (stamp l p m) = tvc m + 1"
  using fold_length[of "\<lambda>i t. if bit (page_table m ! i) 2 then t[i := tvc m] else t" "[0..<NB_PAGES]" "tdu m"]
  by (auto simp: stamp_def inc_compteur_def updateTDU_def mr_wf_def)

lemma fault_in_props:
  assumes "mr_wf m" and "resident m \<noteq> {}" and "p < NB_PAGES"
  shows "mr_wf (fault_in l p m)" and "mr_out (fault_in l p m) = mr_out m"
    and "tdu (fault_in l p m) = tdu m" and "tvc (fault_in l p m) = tvc m"
    and "card (insert p (resident (fault_in l p m))) = card (resident m)"
proof -
  note r = replace_of_load(1-4)[OF assms(1,2), of l] replace_of_load(6)[OF assms(1,2), of p l]
  show "mr_wf (fault_in l p m)" "mr_out (fault_in l p m) = mr_out m" "tdu (fault_in l p m) = tdu m"
    "tvc (fault_in l p m) = tvc m" using r assms(1) by (simp_all add: fault_in_def)
  show "card (insert p (resident (fault_in l p m))) = card (resident m)"
  proof (cases "bit (page_table m ! p) 0")
    case True
    then have "p \<in> resident m" using assms(3) by (simp add: resident_def)
    with True show ?thesis by (simp add: fault_in_def insert_absorb)
  next
    case False
    then have "p \<notin> resident m" by (simp add: resident_def)
    with False r(5) show ?thesis by (simp add: fault_in_def)
  qed
qed

definition ram_lines :: "memrep \<Rightarrow> nat list list" where
  "ram_lines m = [ram. PrintMemory ram sw \<leftarrow> mr_out m]"

lemma access_page_props:
  assumes "mr_wf m" and "resident m \<noteq> {}" and "p < NB_PAGES"
  shows "mr_wf (access_page l g p m)"
    and "resident (access_page l g p m) = insert p (resident (fault_in l p m))"
    and "tdu (access_page l g p m) = tdu (stamp l p (fault_in l p m))"
    and "tvc (access_page l g p m) = tvc m + 1"
    and "bit (page_table (access_page l g p m) ! p) 2"
proof -
  let ?m1 = "stamp l p (fault_in l p m)"
  let ?m2 = "?m1\<lparr>page_table := (page_table ?m1)[p := touch (page_table ?m1 ! p)]\<rparr>"
  have wf: "mr_wf ?m1" using fault_in_props[OF assms] by simp
  have ok: "entry_ok p (touch (page_table ?m1 ! p))"
    using wf assms(3) entry_ok_change(3) by (simp add: mr_wf_def)
  have fr: "page_table (access_page l g p m) = page_table ?m2" "tdu (access_page l g p m) = tdu ?m2"
    "tvc (access_page l g p m) = tvc ?m2"
    by (simp_all add: access_page_alt Let_def emit_def print_memory_def)
  have wf2: "mr_wf ?m2" by (rule wf_update[OF wf ok assms(3)])
  then show "mr_wf (access_page l g p m)" using fr by (simp add: mr_wf_def)
  have "resident ?m2 = insert p (resident ?m1)"
    unfolding resident_update[OF wf assms(3)] by simp
  then show "resident (access_page l g p m) = insert p (resident (fault_in l p m))"
    using fr(1) by (simp add: resident_def)
  show "tdu (access_page l g p m) = tdu ?m1" "tvc (access_page l g p m) = tvc m + 1"
    using fr fault_in_props[OF assms] by simp_all
  show "bit (page_table (access_page l g p m) ! p) 2"
    using fr(1) wf assms(3) by (simp add: mr_wf_def)
qed

section \<open>Boot and the invariant of the loop\<close>

lemma mr_boot_fields:
  "page_table (mr_boot g) = map (\<lambda>i. push_bit 4 (of_nat i) OR
      (if i < 3 then 1 else if i = 3 then 2 else 0)) [0..<16]"
  "tdu (mr_boot g) = replicate 16 0" "tvc (mr_boot g) = 0"
  by (simp_all add: mr_boot_def emit_def print_memory_def init_page_table_def mr_start_def Let_def
      NB_PAGES_def or_entry_def mask_defs upt_rec numeral_eq_Suc)

lemma less_16: "i < 16 \<longleftrightarrow> i \<in> {0, 1, 2, 3, 4, 5, 6, 7, 8, 9, 10, 11, 12, 13, 14, 15 :: nat}"
  by simp presburger

lemma mr_boot_wf: "mr_wf (mr_boot g)"
proof -
  have "entry_ok i (page_table (mr_boot g) ! i)" if "i < 16" for i
    using that unfolding less_16 by (auto simp: mr_boot_fields entry_ok_def)
  then show ?thesis by (simp add: mr_wf_def NB_PAGES_def mr_boot_fields)
qed

lemma mr_boot_resident: "resident (mr_boot g) = {0, 1, 2}"
  by (auto simp: resident_def mr_boot_fields NB_PAGES_def less_16)

definition mr_inv :: "memrep \<Rightarrow> bool" where
  "mr_inv m \<longleftrightarrow> mr_wf m \<and> card (resident m) = 3 \<and>
     (\<forall>ram sw. PrintMemory ram sw \<in> set (mr_out m) \<longrightarrow> length ram = 3 \<and> set ram \<inter> set sw = {})"

lemma length_ram: "length (filter (\<lambda>i. bit (page_table m ! i) 0) [0..<NB_PAGES]) = card (resident m)"
proof -
  have "resident m = set (filter (\<lambda>i. bit (page_table m ! i) 0) [0..<NB_PAGES])"
    by (auto simp: resident_def)
  moreover have "distinct (filter (\<lambda>i. bit (page_table m ! i) 0) [0..<NB_PAGES])" by simp
  ultimately show ?thesis using distinct_card by metis
qed

lemma inv_emit: "mr_inv m \<Longrightarrow> (\<And>ram sw. e \<noteq> PrintMemory ram sw) \<Longrightarrow> mr_inv (emit e m)"
  by (simp add: mr_inv_def) (simp add: emit_def, metis)

lemma inv_print: "mr_inv m \<Longrightarrow> mr_inv (print_memory m)"
  unfolding mr_inv_def using length_ram[of m]
  by (auto simp: print_memory_def) (auto simp: emit_def)

lemma inv_nonempty: "mr_inv m \<Longrightarrow> resident m \<noteq> {}"
  by (auto simp: mr_inv_def)

lemma inv_access:
  assumes "mr_inv m" and "p < NB_PAGES"
  shows "mr_inv (access_page l g p m)"
proof -
  have m: "mr_wf m" "resident m \<noteq> {}" using assms(1) inv_nonempty by (auto simp: mr_inv_def)
  let ?m1 = "stamp l p (fault_in l p m)"
  let ?m2 = "?m1\<lparr>page_table := (page_table ?m1)[p := touch (page_table ?m1 ! p)]\<rparr>"
  note f = fault_in_props[OF m assms(2), of l]
  have wf: "mr_wf ?m1" using f(1) by simp
  have ok: "entry_ok p (touch (page_table ?m1 ! p))"
    using wf assms(2) entry_ok_change(3) by (simp add: mr_wf_def)
  have "mr_wf ?m2" by (rule wf_update[OF wf ok assms(2)])
  moreover have "card (resident ?m2) = 3"
    unfolding resident_update[OF wf assms(2)] using f(5) assms(1) by (simp add: mr_inv_def)
  ultimately have "mr_inv ?m2" using assms(1) f(2) by (simp add: mr_inv_def)
  then have "mr_inv (print_memory ?m2)" by (rule inv_print)
  then show ?thesis by (simp add: access_page_alt Let_def inv_emit)
qed

lemma inv_boot: "mr_inv (mr_boot g)"
proof -
  have "PrintMemory ram sw \<in> set (mr_out (mr_boot g)) \<Longrightarrow> ram = [0, 1, 2] \<and> sw = [3]" for ram sw
    by (auto simp: mr_boot_def emit_def print_memory_def init_page_table_def mr_start_def Let_def
      NB_PAGES_def or_entry_def mask_defs upt_rec numeral_eq_Suc split: if_splits)
  then show ?thesis using mr_boot_wf mr_boot_resident by (fastforce simp: mr_inv_def)
qed

lemma inv_loop: "mr_loop l g stdin m = Some m' \<Longrightarrow> mr_inv m \<Longrightarrow> mr_inv m'"
proof (induction l g stdin m rule: mr_loop.induct)
  case (1 l g stdin m)
  obtain n rest where a: "ask_user_page_no stdin = Some (n, rest)"
    using "1.prems"(1) by (subst (asm) mr_loop.simps) (auto split: option.splits)
  have p: "mr_inv (emit Prompt m)" using "1.prems"(2) by (simp add: inv_emit)
  show ?case
  proof (cases "n = EXIT_MEMRPLC")
    case True
    then have "emit GuiExit (emit Prompt m) = m'"
      using "1.prems"(1) a by (subst (asm) mr_loop.simps) simp
    moreover have "mr_inv (emit GuiExit (emit Prompt m))" using p by (simp add: inv_emit)
    ultimately show ?thesis by simp
  next
    case False
    show ?thesis
    proof (cases "0 \<le> n \<and> n < int NB_PAGES")
      case True
      then have "mr_loop l g rest (access_page l g (nat n) (emit Prompt m)) = Some m'"
        using "1.prems"(1) a False by (subst (asm) mr_loop.simps) simp
      moreover have "mr_inv (access_page l g (nat n) (emit Prompt m))"
        using inv_access[OF p, of "nat n"] True by (simp add: nat_less_iff)
      ultimately show ?thesis using "1.IH"(1)[OF a refl refl False True] by simp
    next
      case out: False
      then have "mr_loop l g rest (emit InvalidPage (emit Prompt m)) = Some m'"
        using "1.prems"(1) a False by (subst (asm) mr_loop.simps) auto
      moreover have "mr_inv (emit InvalidPage (emit Prompt m))" using p by (simp add: inv_emit)
      ultimately show ?thesis using "1.IH"(2)[OF a refl refl False out] by simp
    qed
  qed
qed

lemma find_upt_Some:
  assumes "find P [0..<n] = Some q"
  shows "q < n \<and> P q \<and> (\<forall>j < q. \<not> P j)"
proof -
  from assms obtain i where i: "i < length [0..<n]" "P ([0..<n] ! i)" "q = [0..<n] ! i"
      "\<forall>j < i. \<not> P ([0..<n] ! j)" unfolding find_Some_iff by blast
  have "\<not> P j" if "j < i" for j
  proof -
    have "[0..<n] ! j = j" using i(1) that by simp
    with i(4) that show ?thesis by force
  qed
  with i(1-3) show ?thesis by simp
qed

section \<open>Properties\<close>

text \<open>
  C24. Whatever the user types, with either algorithm: the simulator keeps exactly three
  pages in RAM. Every line it prints shows three pages in RAM, none of them in swap, and in the final
  state three pages are valid and each entry still carries its page number.
\<close>

theorem ram_holds_three_pages:
  assumes "mr_main args stdin = Some (0, m)"
  shows "card (resident m) = 3 \<and> (\<forall>i < NB_PAGES. drop_bit 4 (page_table m ! i) = of_nat i) \<and>
    (\<forall>ram sw. PrintMemory ram sw \<in> set (mr_out m) \<longrightarrow> length ram = 3 \<and> set ram \<inter> set sw = {})"
proof -
  from assms obtain l g where "mr_loop l g stdin (mr_boot g) = Some m"
    by (auto simp: mr_main_def Let_def split: if_splits)
  from inv_loop[OF this inv_boot] show ?thesis by (simp add: mr_inv_def mr_wf_def entry_ok_def)
qed

subsection \<open>Recency\<close>

text \<open>The index of the last access to a page in a history, 0 when there is none.\<close>

definition last_use :: "nat list \<Rightarrow> nat \<Rightarrow> nat" where
  "last_use xs p = fold (\<lambda>k r. if xs ! k = p then k else r) [0..<length xs] 0"

lemma last_use_Nil [simp]: "last_use [] p = 0"
  by (simp add: last_use_def)

lemma last_use_snoc [simp]: "last_use (xs @ [x]) p = (if x = p then length xs else last_use xs p)"
proof -
  have "fold (\<lambda>k r. if (xs @ [x]) ! k = p then k else r) [0..<length xs] 0 = last_use xs p"
    unfolding last_use_def by (rule fold_cong) (auto simp: nth_append)
  then show ?thesis by (simp add: last_use_def)
qed

lemma last_use_bound: "last_use xs p \<le> length xs"
  by (induction xs rule: rev_induct) auto

definition mr_run :: "bool \<Rightarrow> bool \<Rightarrow> nat list \<Rightarrow> memrep" where
  "mr_run l g xs = fold (access_page l g) xs (mr_boot g)"

lemma mr_run_snoc: "mr_run l g (xs @ [x]) = access_page l g x (mr_run l g xs)"
  by (simp add: mr_run_def)

lemma mr_run_inv: "set xs \<subseteq> {..<NB_PAGES} \<Longrightarrow> mr_inv (mr_run l g xs)"
  by (induction xs rule: rev_induct) (auto simp: mr_run_snoc inv_access mr_run_def inv_boot)

lemma mr_run_wf: "set xs \<subseteq> {..<NB_PAGES} \<Longrightarrow> mr_wf (mr_run l g xs) \<and> resident (mr_run l g xs) \<noteq> {}"
  using mr_run_inv inv_nonempty by (auto simp: mr_inv_def)

lemma mr_run_tvc: "set xs \<subseteq> {..<NB_PAGES} \<Longrightarrow> tvc (mr_run l g xs) = of_nat (length xs)"
proof (induction xs rule: rev_induct)
  case Nil
  then show ?case by (simp add: mr_run_def mr_boot_fields)
next
  case (snoc x xs)
  then show ?case using access_page_props(4) mr_run_wf[of xs] by (simp add: mr_run_snoc)
qed

text \<open>Under LRU the time stamp of a page is the low byte of the index of its last access.\<close>

lemma lru_stamps:
  "set xs \<subseteq> {..<NB_PAGES} \<Longrightarrow> p < NB_PAGES \<Longrightarrow> tdu (mr_run True g xs) ! p = of_nat (last_use xs p)"
proof (induction xs rule: rev_induct)
  case Nil
  then show ?case by (simp add: mr_run_def mr_boot_fields NB_PAGES_def)
next
  case (snoc x xs)
  then have xs: "set xs \<subseteq> {..<NB_PAGES}" "x < NB_PAGES" by auto
  note wf = mr_run_wf[OF xs(1), THEN conjunct1] mr_run_wf[OF xs(1), THEN conjunct2]
  have "tdu (mr_run True g (xs @ [x])) = (tdu (mr_run True g xs))[x := tvc (mr_run True g xs)]"
    using access_page_props(3)[OF wf xs(2), of True] fault_in_props(3,4)[OF wf xs(2), of True]
    by (simp add: mr_run_snoc stamp_def inc_compteur_def)
  moreover have "length (tdu (mr_run True g xs)) = NB_PAGES" using wf(1) by (simp add: mr_wf_def)
  ultimately show ?case using snoc.IH[OF xs(1) snoc.prems(2)] snoc.prems(2) mr_run_tvc[OF xs(1)]
    by (auto simp: nth_list_update)
qed

lemma of_nat_u8_le: "a < 256 \<Longrightarrow> b < 256 \<Longrightarrow> (of_nat a :: u8) \<le> of_nat b \<longleftrightarrow> a \<le> b"
  by (simp add: word_le_nat_alt unat_of_nat_u8)

lemma lru_run_victim:
  assumes xs: "set xs \<subseteq> {..<NB_PAGES}" and "p < NB_PAGES" and "p \<notin> resident (mr_run True g xs)"
  obtains q where "q \<in> resident (mr_run True g xs)"
    and "resident (mr_run True g (xs @ [p])) = insert p (resident (mr_run True g xs) - {q})"
    and "fst (lru_search (mr_run True g xs) [0..<NB_PAGES] (None, tvc (mr_run True g xs))) = Some q"
proof -
  let ?m = "mr_run True g xs"
  note wf = mr_run_wf[OF xs, THEN conjunct1, of True g] mr_run_wf[OF xs, THEN conjunct2, of True g]
  obtain q where q: "q \<in> resident ?m" "fst (lru_search ?m [0..<NB_PAGES] (None, tvc ?m)) = Some q"
    using lru_search_cand[where m = ?m and ps = "[0..<NB_PAGES]" and cand = None and mn = "tvc ?m"] wf(2)
    by (fastforce simp: resident_def split: option.splits)
  then have "replaceLRU ?m = unload (Some q) ?m" by (simp add: replaceLRU_def)
  then have "fault_in True p ?m = unload (Some q) ?m"
    using assms(2,3) by (simp add: fault_in_def replace_of_def resident_def)
  then have "resident (mr_run True g (xs @ [p])) = insert p (resident ?m - {q})"
    using access_page_props(2)[OF wf assms(2)] unload_effect(1)[OF wf(1) q(1)] by (simp add: mr_run_snoc)
  with q that show ?thesis by blast
qed

text \<open>
  C23. LRU is least recently used as long as the counter has not wrapped: after fewer than 256
  accesses from boot, an access to a page that is not in RAM takes out a resident page whose last
  access is the oldest, and brings the page in. (A page never accessed counts as accessed at
  time 0, like the page of the very first access.)
\<close>

theorem lru_evicts_oldest:
  assumes "set xs \<subseteq> {..<NB_PAGES}" and "length xs < 256" and "p < NB_PAGES"
    and "p \<notin> resident (mr_run True g xs)"
  shows "\<exists>q \<in> resident (mr_run True g xs).
    (\<forall>j \<in> resident (mr_run True g xs). last_use xs q \<le> last_use xs j) \<and>
    resident (mr_run True g (xs @ [p])) = insert p (resident (mr_run True g xs) - {q})"
proof -
  let ?m = "mr_run True g xs"
  from lru_run_victim[OF assms(1,3,4)] obtain q where
    q: "q \<in> resident ?m" "resident (mr_run True g (xs @ [p])) = insert p (resident ?m - {q})"
      "fst (lru_search ?m [0..<NB_PAGES] (None, tvc ?m)) = Some q" by blast
  have st: "tdu ?m ! j = of_nat (last_use xs j)" "last_use xs j < 256" if "j < NB_PAGES" for j
    using lru_stamps[OF assms(1) that] last_use_bound[of xs j] assms(2) by auto
  have le: "tdu ?m ! j \<le> tvc ?m" if "j < NB_PAGES" for j
    using st[OF that] mr_run_tvc[OF assms(1), of True g] last_use_bound[of xs j] assms(2)
    by (simp add: of_nat_u8_le)
  have "\<forall>j \<in> set [0..<NB_PAGES]. bit (page_table ?m ! j) 0 \<longrightarrow> tdu ?m ! q \<le> tdu ?m ! j"
    by (rule lru_search_first[OF _ q(3)]) (use le in auto)
  then have "last_use xs q \<le> last_use xs j" if "j \<in> resident ?m" for j
    using that q(1) st of_nat_u8_le[of "last_use xs q" "last_use xs j"] by (auto simp: resident_def)
  with q show ?thesis by blast
qed

text \<open>
  The 8-bit counter breaks LRU: when the number of accesses since boot is a multiple of 256
  the counter is 0, no stamp is smaller, and the page taken out is the resident page with the
  lowest number, even when it is the one used last.
\<close>

theorem lru_wraps:
  assumes "set xs \<subseteq> {..<NB_PAGES}" and "length xs mod 256 = 0" and "p < NB_PAGES"
    and "p \<notin> resident (mr_run True g xs)"
  shows "resident (mr_run True g (xs @ [p]))
    = insert p (resident (mr_run True g xs) - {Min (resident (mr_run True g xs))})"
proof -
  let ?m = "mr_run True g xs"
  from lru_run_victim[OF assms(1,3,4)] obtain q where
    q: "q \<in> resident ?m" "resident (mr_run True g (xs @ [p])) = insert p (resident ?m - {q})"
      "fst (lru_search ?m [0..<NB_PAGES] (None, tvc ?m)) = Some q" by blast
  have "(of_nat (length xs) :: u8) = of_nat (length xs mod 256)" by (simp add: unat_of_nat word_unat_eq_iff)
  then have z: "tvc ?m = 0" using mr_run_tvc[OF assms(1)] assms(2) by simp
  have stay: "fst (lru_search ?m ps (Some c, 0)) = Some c" for ps c
    by (induction ps) auto
  have first: "fst (lru_search ?m ps (None, 0)) = find (\<lambda>i. bit (page_table ?m ! i) 0) ps" for ps
    by (induction ps) (auto simp: stay)
  have f: "find (\<lambda>i. bit (page_table ?m ! i) 0) [0..<NB_PAGES] = Some q" using q(3) first z by simp
  have "\<forall>j < q. \<not> bit (page_table ?m ! j) 0" using find_upt_Some[OF f] by simp
  then have "Min (resident ?m) = q" using q(1) by (intro Min_eqI) (auto simp: resident_def not_less[symmetric])
  then show ?thesis using q(2) by simp
qed

lemma find_upt_least:
  "find P [0..<n] = (if \<exists>i < n. P i then Some (LEAST i. P i) else None)"
proof (cases "find P [0..<n]")
  case None
  then show ?thesis by (auto simp: find_None_iff)
next
  case (Some q)
  from find_upt_Some[OF Some] have q: "q < n" "P q" "\<forall>j < q. \<not> P j" by simp_all
  have "(LEAST i. P i) = q"
  proof (rule Least_equality)
    fix y assume "P y"
    then show "q \<le> y" using q(3) not_less by blast
  qed (rule q(2))
  then show ?thesis using Some q(1,2) by auto
qed

lemma takeWhile_upt:
  "find P [0..<n] = Some q \<Longrightarrow> set (takeWhile (\<lambda>j. \<not> P j) [0..<n]) = {..<q}"
proof -
  assume f: "find P [0..<n] = Some q"
  then have q: "q < n" "P q" "\<And>j. j < q \<Longrightarrow> \<not> P j" using find_upt_Some by blast+
  have "[0..<n] = [0..<q] @ [q..<n]" using q(1) upt_add_eq_append[of 0 q "n - q"] by simp
  moreover have "[q..<n] = q # [Suc q..<n]" using q(1) by (simp add: upt_rec)
  ultimately have "takeWhile (\<lambda>j. \<not> P j) [0..<n] = [0..<q]"
    using q(2,3) by (simp add: takeWhile_tail)
  then show ?thesis by auto
qed

lemma Least_resident:
  assumes "resident m \<noteq> {}"
  shows "(LEAST i. bit (page_table m ! i) 0) = Min (resident m)"
proof (rule Least_equality)
  have mn: "Min (resident m) \<in> resident m" using assms by (intro Min_in) simp_all
  then show "bit (page_table m ! Min (resident m)) 0" by (simp add: resident_def)
  fix y assume "bit (page_table m ! y) 0"
  show "Min (resident m) \<le> y"
  proof (cases "y < NB_PAGES")
    case True
    then have "y \<in> resident m" using \<open>bit (page_table m ! y) 0\<close> by (simp add: resident_def)
    then show ?thesis by simp
  next
    case False
    have "Min (resident m) < NB_PAGES" using mn unfolding resident_def by blast
    then show ?thesis using False by linarith
  qed
qed

text \<open>The victim and the pages scanned before it.\<close>

definition any_old :: "memrep \<Rightarrow> bool" where
  "any_old m \<longleftrightarrow> (\<exists>i < NB_PAGES. old_page m i)"

definition wsc_choice :: "memrep \<Rightarrow> nat" where
  "wsc_choice m = (if any_old m then LEAST i. old_page m i else Min (resident m))"

lemma wsc_victim_choice:
  assumes "resident m \<noteq> {}"
  shows "wsc_victim m = Some (wsc_choice m)"
proof -
  have "\<exists>i < NB_PAGES. bit (page_table m ! i) 0" using assms unfolding resident_def by blast
  then have "find (\<lambda>i. bit (page_table m ! i) 0) [0..<NB_PAGES] = Some (Min (resident m))"
    unfolding find_upt_least Least_resident[OF assms] by simp
  then show ?thesis
    unfolding wsc_victim_def find_upt_least[of "old_page m"] any_old_def[symmetric] wsc_choice_def
    by simp
qed

lemma wsc_scanned:
  assumes "resident m \<noteq> {}"
    and "ps = (if find (old_page m) [0..<NB_PAGES] = None then [0..<NB_PAGES]
          else takeWhile (\<lambda>j. \<not> old_page m j) [0..<NB_PAGES])"
  shows "i \<in> set ps \<longleftrightarrow> i < NB_PAGES \<and> (any_old m \<longrightarrow> i < wsc_choice m)"
proof (cases "any_old m")
  case True
  then have f: "find (old_page m) [0..<NB_PAGES] = Some (wsc_choice m)"
    unfolding find_upt_least any_old_def[symmetric] wsc_choice_def by simp
  have lt: "wsc_choice m < NB_PAGES" by (rule find_upt_Some[OF f, THEN conjunct1])
  have "ps = takeWhile (\<lambda>j. \<not> old_page m j) [0..<NB_PAGES]"
    unfolding assms(2) f by (simp only: option.distinct(2) if_False)
  then have "set ps = {..<wsc_choice m}" by (simp only: takeWhile_upt[OF f])
  then have "i \<in> set ps \<longleftrightarrow> i < wsc_choice m" by (simp only: lessThan_iff)
  then show ?thesis using True lt order.strict_trans[of i] by blast
next
  case False
  then have none: "find (old_page m) [0..<NB_PAGES] = None"
    unfolding find_upt_least any_old_def[symmetric] by simp
  have "set ps = {..<NB_PAGES}" unfolding assms(2) none by (simp only: if_True refl set_upt atLeast_upt)
  then show ?thesis using False by (simp only: lessThan_iff simp_thms)
qed

text \<open>
  C38. WSClock takes out the first resident page that is unreferenced and was last stamped more
  than \<open>DELTA\<close> ticks ago, and clears the reference bits of the resident pages before it; when
  there is no such page it takes out the resident page with the lowest number and clears
  them all. The other reference bits, the stamps and the counter stay.
\<close>

theorem wsc_evicts_first_old:
  assumes wf: "mr_wf m" and ne: "resident m \<noteq> {}"
  shows "resident (replaceWSC m) = resident m - {wsc_choice m} \<and> wsc_choice m \<in> resident m \<and>
    (\<forall>i < NB_PAGES. bit (page_table (replaceWSC m) ! i) 2 \<longleftrightarrow>
       bit (page_table m ! i) 2 \<and> \<not> (i \<in> resident m \<and> (any_old m \<longrightarrow> i < wsc_choice m))) \<and>
    tdu (replaceWSC m) = tdu m \<and> tvc (replaceWSC m) = tvc m"
proof -
  note v = wsc_victim_choice[OF ne]
  from replaceWSC_unload[OF wf] obtain ps where
    r: "replaceWSC m = unload (Some (wsc_choice m)) (clear_refs ps m)"
    and ps: "ps = (if find (old_page m) [0..<NB_PAGES] = None then [0..<NB_PAGES]
          else takeWhile (\<lambda>j. \<not> old_page m j) [0..<NB_PAGES])" unfolding v by blast
  note sc = wsc_scanned[OF ne ps]
  have q: "wsc_choice m \<in> resident m" using wsc_victim_resident[OF ne] v by simp
  then have q': "wsc_choice m \<in> resident (clear_refs ps m)" using clear_refs_wf(2)[OF wf] by simp
  note u = unload_effect[OF clear_refs_wf(1)[OF wf] q', folded r]
  have len: "length (page_table m) = NB_PAGES" using wf by (simp add: mr_wf_def)
  have "bit (page_table (replaceWSC m) ! i) 2 \<longleftrightarrow> bit (page_table (clear_refs ps m) ! i) 2"
    if "i < NB_PAGES" for i
    using that len by (cases "i = wsc_choice m") (simp_all add: r unload_def)
  then have "bit (page_table (replaceWSC m) ! i) 2 \<longleftrightarrow>
       bit (page_table m ! i) 2 \<and> \<not> (i \<in> resident m \<and> (any_old m \<longrightarrow> i < wsc_choice m))"
    if "i < NB_PAGES" for i
    using that len sc[of i] by (cases "bit (page_table m ! i) 0") (simp_all add: resident_def)
  then show ?thesis using u(1,3,4) q clear_refs_wf(2)[OF wf] by simp
qed

section \<open>Typing the pages\<close>

definition type_page :: "nat \<Rightarrow> string" where
  "type_page p = show_nat p @ [newline]"

lemma show_nat_short: "p < 16 \<Longrightarrow> length (show_nat p) < 3"
  by (subst show_nat.simps, subst show_nat.simps) auto

lemma digit_not_nl: "isdigit c \<Longrightarrow> c \<noteq> newline \<and> c \<noteq> CHR ''E'' \<and> c \<noteq> CHR ''e''"
  by (auto simp: isdigit_def ord_def)

lemma ask_typed:
  assumes "p < NB_PAGES"
  shows "ask_user_page_no (type_page p @ rest) = Some (int p, rest)"
proof -
  have dig: "\<And>c. c \<in> set (show_nat p) \<Longrightarrow> isdigit c" using show_nat_digits by blast
  have "read_line 3 (show_nat p @ newline # rest) = (show_nat p @ [newline], rest)"
    using show_nat_short[of p] assms dig digit_not_nl by (intro read_line_short) (auto simp: NB_PAGES_def)
  moreover have hd: "hd (show_nat p @ [newline]) = hd (show_nat p)" by simp
  moreover have "isdigit (hd (show_nat p))" using dig by (simp add: hd_in_set)
  moreover have "atoi (show_nat p @ [newline]) = int p"
    by (rule atoi_show_nat) (simp add: isdigit_def ord_def)
  ultimately show ?thesis using digit_not_nl
    by (auto simp: ask_user_page_no_def fgets_def type_page_def)
qed

text \<open>
  The program does what is typed: given any list of page numbers below 16, one per line, and
  an E at the end, it accesses those pages in that order, prompts once for each, and returns 0.
  No line is lost or read twice, for one and for two digits.
\<close>

theorem typed_pages_are_accessed:
  assumes "set xs \<subseteq> {..<NB_PAGES}" and "alg = ''LRU'' \<or> alg = ''WSC''"
  shows "mr_main [alg, ''--ng''] (concat (map type_page xs) @ ''E'') =
    Some (0, emit GuiExit (emit Prompt
      (fold (\<lambda>p m. access_page (alg = ''LRU'') False p (emit Prompt m)) xs (mr_boot False))))"
proof -
  have "mr_loop l False (concat (map type_page xs) @ ''E'') m =
     Some (emit GuiExit (emit Prompt (fold (\<lambda>p m. access_page l False p (emit Prompt m)) xs m)))" for l m
    using assms(1)
  proof (induction xs arbitrary: m)
    case Nil
    have "ask_user_page_no ''E'' = Some (EXIT_MEMRPLC, [])"
      by (simp add: ask_user_page_no_def fgets_def numeral_eq_Suc)
    then show ?case by (subst mr_loop.simps) simp
  next
    case (Cons x xs)
    then have x: "x < NB_PAGES" by simp
    have "mr_loop l False (concat (map type_page (x # xs)) @ ''E'') m =
      mr_loop l False (concat (map type_page xs) @ ''E'') (access_page l False x (emit Prompt m))"
      using ask_typed[OF x] x by (subst mr_loop.simps) (simp add: EXIT_MEMRPLC_def)
    then show ?case using Cons by simp
  qed
  then show ?thesis using assms(2) by (auto simp: mr_main_def)
qed

section \<open>Concrete runs\<close>

theorem typed_pages_witness:
  "\<exists>m. mr_main [''LRU'', ''--ng''] (concat (map type_page [3, 12]) @ ''E'') = Some (0, m)"
  using typed_pages_are_accessed[of "[3, 12]" "''LRU''"] by (simp add: NB_PAGES_def)

theorem ram_holds_three_pages_witness:
  "\<exists>m. mr_main [''WSC'', ''--ng''] ''E'' = Some (0, m) \<and> card (resident m) = 3"
proof -
  have "ask_user_page_no ''E'' = Some (EXIT_MEMRPLC, [])"
    by (simp add: ask_user_page_no_def fgets_def numeral_eq_Suc)
  then obtain m where m: "mr_main [''WSC'', ''--ng''] ''E'' = Some (0, m)"
    by (simp add: mr_main_def mr_loop.simps[of _ _ "''E''"])
  with ram_holds_three_pages[OF m] show ?thesis by blast
qed

text \<open>Accesses to pages that are in RAM leave the set of resident pages alone.\<close>

lemma hit_resident:
  assumes "set xs \<subseteq> {..<NB_PAGES}" and "p \<in> resident (mr_run l g xs)"
  shows "resident (mr_run l g (xs @ [p])) = resident (mr_run l g xs)"
proof -
  have p: "p < NB_PAGES" "bit (page_table (mr_run l g xs) ! p) 0" using assms(2) by (auto simp: resident_def)
  note wf = mr_run_wf[OF assms(1), THEN conjunct1, of l g] mr_run_wf[OF assms(1), THEN conjunct2, of l g]
  show ?thesis using access_page_props(2)[OF wf p(1), of l g] p assms(2)
    by (simp add: mr_run_snoc fault_in_def insert_absorb)
qed

lemma hits_resident: "set xs \<subseteq> {0, 1, 2} \<Longrightarrow> resident (mr_run l g xs) = {0, 1, 2}"
proof (induction xs rule: rev_induct)
  case Nil
  then show ?case by (simp add: mr_run_def mr_boot_resident)
next
  case (snoc x xs)
  moreover from snoc.prems have "set xs \<subseteq> {..<NB_PAGES}" by (auto simp: NB_PAGES_def)
  ultimately show ?case using hit_resident[of xs x l g] by auto
qed

theorem lru_evicts_oldest_witness:
  "resident (mr_run True False ([1, 0, 2, 0, 2] @ [3])) = {0, 2, 3}"
proof -
  let ?xs = "[1, 0, 2, 0, 2] :: nat list"
  have r: "resident (mr_run True False ?xs) = {0, 1, 2}" by (rule hits_resident) auto
  have l: "last_use ?xs 0 = 3" "last_use ?xs 1 = 0" "last_use ?xs 2 = 4"
    by (simp_all add: last_use_def upt_rec)
  have "\<exists>q \<in> resident (mr_run True False ?xs).
    (\<forall>j \<in> resident (mr_run True False ?xs). last_use ?xs q \<le> last_use ?xs j) \<and>
    resident (mr_run True False (?xs @ [3])) = insert 3 (resident (mr_run True False ?xs) - {q})"
    by (rule lru_evicts_oldest) (simp_all add: NB_PAGES_def r del: One_nat_def)
  then obtain q where q: "q \<in> {0, 1, 2}" "\<forall>j \<in> {0, 1, 2}. last_use ?xs q \<le> last_use ?xs j"
    "resident (mr_run True False (?xs @ [3])) = insert 3 ({0, 1, 2} - {q})"
    unfolding r by (elim bexE conjE)
  have "last_use ?xs q \<le> last_use ?xs 1" using q(2) by (rule bspec) simp
  then have "q = 1" using q(1) l by auto
  show ?thesis unfolding q(3) \<open>q = 1\<close> by auto
qed

text \<open>Page 0 is the last page accessed before page 3, and is taken out.\<close>

theorem lru_wraps_witness:
  "resident (mr_run True False ((replicate 255 1 @ [0]) @ [3])) = {1, 2, 3}"
proof -
  have xs: "set (replicate 255 1 @ [0]) \<subseteq> {0, 1, 2 :: nat}" by auto
  have r: "resident (mr_run True False (replicate 255 1 @ [0])) = {0, 1, 2}" by (rule hits_resident[OF xs])
  have "set (replicate 255 1 @ [0]) \<subseteq> {..<NB_PAGES}" using xs by (auto simp: NB_PAGES_def)
  from lru_wraps[OF this, of 3 False] r show ?thesis by (simp add: NB_PAGES_def insert_commute)
qed

theorem wsc_evicts_first_old_witness:
  "resident (replaceWSC (mr_boot False)) = {1, 2}"
proof -
  have ne: "resident (mr_boot False) \<noteq> {}" by (simp add: mr_boot_resident)
  have no: "\<not> old_page (mr_boot False) i" if "i < NB_PAGES" for i
    using that by (simp add: old_page_def age_def mr_boot_fields NB_PAGES_def DELTA_def)
  then have "wsc_choice (mr_boot False) = Min (resident (mr_boot False))"
    unfolding wsc_choice_def any_old_def by auto
  with wsc_evicts_first_old[OF mr_boot_wf ne] have
    "resident (replaceWSC (mr_boot False)) = resident (mr_boot False) - {Min (resident (mr_boot False))}"
    by simp
  then show ?thesis by (simp add: mr_boot_resident)
qed

end
