(* ===== verification/LetterCount.thy ===== *)
theory LetterCount
  imports CLib
begin

text \<open>
  The parallel letter counter of lab 3, \<open>usr/src/threads.c\<close>: a text is cut into one chunk per
  thread, each thread counts the letters of its chunk in its own parameter block, and \<open>main\<close>
  joins the threads and adds the counters up. The threads run interleaved: a run is a schedule, the
  list of the thread numbers in the order in which they execute one iteration of their loop.
\<close>

section \<open>A thread\<close>

definition LETTERS_NB :: nat where "LETTERS_NB = 26"
definition A_LOWER_OFFSET :: nat where "A_LOWER_OFFSET = 97"
definition MAX_THREAD_NUM :: int where "MAX_THREAD_NUM = 15"

text \<open>
  \<open>count_param_t\<close> and the loop variable of the thread that works on it. The pointer into the
  text is an offset. The counters are \<open>size_t\<close>, 32 bits wide.
\<close>

record count_param =
  text_pointer :: nat
  cp_size :: nat
  counters :: "u32 list"
  cp_i :: nat

text \<open>The loop body of \<open>count_letters\<close>. Reading past the text or the counters has no result.\<close>

definition count_char :: "char \<Rightarrow> u32 list \<Rightarrow> u32 list option" where
  "count_char c cs =
     (if isalpha c
      then (let j = tolower c - A_LOWER_OFFSET in
        if A_LOWER_OFFSET \<le> tolower c \<and> j < length cs then Some (cs[j := cs ! j + 1]) else None)
      else Some cs)"

definition count_iter :: "string \<Rightarrow> count_param \<Rightarrow> count_param option" where
  "count_iter text p =
     (if text_pointer p + cp_i p < length text
      then map_option (\<lambda>cs. p\<lparr>counters := cs, cp_i := cp_i p + 1\<rparr>)
             (count_char (text ! (text_pointer p + cp_i p)) (counters p))
      else None)"

text \<open>The whole of \<open>count_letters\<close>, run by itself with its index at \<open>i\<close>.\<close>

fun count_loop :: "string \<Rightarrow> nat \<Rightarrow> count_param \<Rightarrow> count_param option" where
  "count_loop text 0 p = Some p"
| "count_loop text (Suc n) p =
     (case count_iter text p of None \<Rightarrow> None | Some p' \<Rightarrow> count_loop text n p')"

definition count_letters :: "string \<Rightarrow> count_param \<Rightarrow> count_param option" where
  "count_letters text p = count_loop text (cp_size p) (p\<lparr>cp_i := 0\<rparr>)"

section \<open>The threads together\<close>

text \<open>\<open>main\<close>'s preparation of the parameter block of thread \<open>i\<close> of \<open>n\<close>; \<open>calloc\<close> and the
  initialiser zero the counters.\<close>

definition chunk_param :: "nat \<Rightarrow> nat \<Rightarrow> nat \<Rightarrow> count_param" where
  "chunk_param text_size thread_num i =
     (let chunk_size = text_size div thread_num; leftovers = text_size mod thread_num in
      \<lparr>text_pointer = i * chunk_size,
       cp_size = (if i = thread_num - 1 then chunk_size + leftovers else chunk_size),
       counters = replicate LETTERS_NB 0, cp_i = 0\<rparr>)"

definition chunk_params :: "nat \<Rightarrow> nat \<Rightarrow> count_param list" where
  "chunk_params text_size thread_num = map (chunk_param text_size thread_num) [0..<thread_num]"

definition thread_done :: "count_param \<Rightarrow> bool" where
  "thread_done p \<longleftrightarrow> \<not> cp_i p < cp_size p"

text \<open>One turn of thread \<open>t\<close>: an iteration of its loop, or nothing when the loop has ended.\<close>

definition turn :: "string \<Rightarrow> nat \<Rightarrow> count_param list \<Rightarrow> count_param list option" where
  "turn text t ps =
     (if t < length ps \<and> \<not> thread_done (ps ! t)
      then map_option (\<lambda>p. ps[t := p]) (count_iter text (ps ! t)) else Some ps)"

fun run_threads :: "string \<Rightarrow> nat list \<Rightarrow> count_param list \<Rightarrow> count_param list option" where
  "run_threads text [] ps = Some ps"
| "run_threads text (t # ts) ps =
     (case turn text t ps of None \<Rightarrow> None | Some ps' \<Rightarrow> run_threads text ts ps')"

text \<open>The joins return when every thread is done; then the counters are added.\<close>

definition joined :: "count_param list \<Rightarrow> bool" where
  "joined ps \<longleftrightarrow> list_all thread_done ps"

definition gather :: "count_param list \<Rightarrow> u32 list" where
  "gather ps = fold (\<lambda>p r. map2 (+) r (counters p)) ps (replicate LETTERS_NB 0)"

section \<open>main\<close>

datatype tc_event =
    TcUsage
  | TcThreadCount int
  | TcOpenFailed string
  | TcSeekFailed
  | TcTellFailed
  | TcMallocFailed
  | TcCounting nat int nat
  | TcNumberOf char u32

text \<open>
  The environment: \<open>fopen\<close> gives the bytes of a file or fails, \<open>fseek\<close> and \<open>ftell\<close> succeed or
  fail, \<open>malloc\<close> succeeds or fails for a size, and the schedule of the threads.
\<close>

record tc_env =
  te_fopen :: "string \<Rightarrow> string option"
  te_fseek :: bool
  te_ftell :: bool
  te_malloc :: "nat \<Rightarrow> bool"
  te_schedule :: "nat list"

definition fseek_filesize :: "tc_env \<Rightarrow> string \<Rightarrow> tc_event + nat" where
  "fseek_filesize E bytes =
     (if \<not> te_fseek E then Inl TcSeekFailed
      else if \<not> te_ftell E then Inl TcTellFailed else Inr (length bytes))"

text \<open>\<open>buffer_from_file\<close>: the error to print, or the buffer; its text ends at the first NUL.\<close>

definition buffer_from_file :: "tc_env \<Rightarrow> string \<Rightarrow> tc_event + string" where
  "buffer_from_file E filename = (case te_fopen E filename of
     None \<Rightarrow> Inl (TcOpenFailed filename)
   | Some bytes \<Rightarrow> (case fseek_filesize E bytes of Inl e \<Rightarrow> Inl e
      | Inr text_size \<Rightarrow> if te_malloc E (text_size + 1) then Inr (take text_size bytes @ [CHR 0x00])
          else Inl TcMallocFailed))"

definition strlen_text :: "string \<Rightarrow> string" where
  "strlen_text buffer = takeWhile (\<lambda>c. c \<noteq> CHR 0x00) buffer"

text \<open>\<open>None\<close>: an access out of bounds, or the threads are not finished by the schedule.\<close>

definition threads_main :: "tc_env \<Rightarrow> string list \<Rightarrow> (int \<times> tc_event list) option" where
  "threads_main E argv =
     (if length argv \<noteq> 3 then Some (1, [TcUsage])
      else let thread_num = atoi (argv ! 1) in
        if thread_num \<le> 0 \<or> thread_num > MAX_THREAD_NUM then Some (1, [TcThreadCount MAX_THREAD_NUM])
        else (case buffer_from_file E (argv ! 2) of
            Inl e \<Rightarrow> Some (1, [e])
          | Inr buffer \<Rightarrow>
              let text = strlen_text buffer; n = nat thread_num in
              (case run_threads text (te_schedule E) (chunk_params (length text) n) of
                 None \<Rightarrow> None
               | Some ps \<Rightarrow> if joined ps
                   then Some (0, TcCounting (length text) thread_num (length text div n) #
                     map (\<lambda>i. TcNumberOf (char_of (i + A_LOWER_OFFSET)) (gather ps ! i)) [0..<LETTERS_NB])
                   else None)))"

section \<open>The chunks cover the text\<close>

definition chunk :: "string \<Rightarrow> count_param \<Rightarrow> string" where
  "chunk text p = take (cp_size p) (drop (text_pointer p) text)"

lemma chunk_end:
  assumes "0 < n" and "i < n"
  shows "text_pointer (chunk_param s n i) + cp_size (chunk_param s n i) = (if i = n - 1 then s else Suc i * (s div n))"
proof -
  have "(n - 1) * (s div n) + s div n + s mod n = s"
  proof -
    have "(n - 1) * (s div n) + s div n = n * (s div n)"
      using assms(1) by (cases n) simp_all
    then show ?thesis by simp
  qed
  then show ?thesis by (simp add: chunk_param_def Let_def)
qed

lemma take_chunks:
  "k < n \<Longrightarrow> concat (map (\<lambda>i. chunk text (chunk_param (length text) n i)) [0..<k]) = take (k * (length text div n)) text"
proof (induction k)
  case (Suc k)
  then have "chunk text (chunk_param (length text) n k) = take (length text div n) (drop (k * (length text div n)) text)"
    by (simp add: chunk_def chunk_param_def Let_def)
  with Suc show ?case by (simp add: take_add[symmetric] add.commute)
qed simp

lemma chunks_concat:
  assumes "0 < n"
  shows "concat (map (chunk text) (chunk_params (length text) n)) = text"
proof -
  obtain k where n: "n = Suc k" using assms by (cases n) auto
  let ?c = "length text div n"
  have "chunk text (chunk_param (length text) n k) = drop (k * ?c) text"
  proof -
    have "length (drop (k * ?c) text) \<le> cp_size (chunk_param (length text) n k)"
      using chunk_end[OF assms, of k, where s = "length text"] by (simp add: n chunk_param_def Let_def)
    then show ?thesis by (simp add: chunk_def chunk_param_def Let_def)
  qed
  then show ?thesis using take_chunks[of k n]
    by (simp add: chunk_params_def n comp_def)
qed

section \<open>What a thread computes\<close>

definition is_letter :: "nat \<Rightarrow> char \<Rightarrow> bool" where
  "is_letter j c \<longleftrightarrow> isalpha c \<and> tolower c = A_LOWER_OFFSET + j"

text \<open>The number of occurrences of letter \<open>j\<close>, in either case, in a string.\<close>

definition letter_count :: "string \<Rightarrow> nat \<Rightarrow> nat" where
  "letter_count s j = length (filter (is_letter j) s)"

lemma letter_count_append [simp]: "letter_count (a @ b) j = letter_count a j + letter_count b j"
  by (simp add: letter_count_def)

lemma letter_count_le: "letter_count s j \<le> length s"
  by (simp add: letter_count_def)

lemma letter_range: "isalpha c \<Longrightarrow> A_LOWER_OFFSET \<le> tolower c \<and> tolower c < A_LOWER_OFFSET + LETTERS_NB"
  by (auto simp: isalpha_def tolower_def A_LOWER_OFFSET_def LETTERS_NB_def)

lemma count_char_effect:
  assumes "length cs = LETTERS_NB"
  shows "\<exists>cs'. count_char c cs = Some cs' \<and> length cs' = LETTERS_NB \<and>
    (\<forall>j < LETTERS_NB. cs' ! j = cs ! j + of_nat (letter_count [c] j))"
proof (cases "isalpha c")
  case True
  note r = letter_range[OF True]
  have "is_letter j c \<longleftrightarrow> j = tolower c - A_LOWER_OFFSET" for j
    using True r by (auto simp: is_letter_def)
  with True r assms show ?thesis
    by (auto simp: count_char_def Let_def letter_count_def nth_list_update)
next
  case False
  with assms show ?thesis by (simp add: count_char_def letter_count_def is_letter_def)
qed

definition good_thread :: "string \<Rightarrow> count_param \<Rightarrow> bool" where
  "good_thread text p \<longleftrightarrow> length (counters p) = LETTERS_NB \<and> cp_i p \<le> cp_size p \<and>
     text_pointer p + cp_size p \<le> length text \<and>
     (\<forall>j < LETTERS_NB. counters p ! j = of_nat (letter_count (take (cp_i p) (chunk text p)) j))"

lemma count_iter_good:
  assumes g: "good_thread text p" and i: "cp_i p < cp_size p"
  shows "\<exists>p'. count_iter text p = Some p' \<and> good_thread text p' \<and> cp_i p' = cp_i p + 1 \<and>
    cp_size p' = cp_size p \<and> text_pointer p' = text_pointer p"
proof -
  let ?c = "text ! (text_pointer p + cp_i p)"
  have len: "text_pointer p + cp_i p < length text" "cp_i p < length (chunk text p)"
    using g i by (auto simp: good_thread_def chunk_def)
  obtain cs' where cs': "count_char ?c (counters p) = Some cs'" "length cs' = LETTERS_NB"
    "\<forall>j < LETTERS_NB. cs' ! j = counters p ! j + of_nat (letter_count [?c] j)"
    using count_char_effect[of "counters p" ?c] g by (auto simp: good_thread_def)
  have "chunk text p ! cp_i p = ?c" using len i by (simp add: chunk_def)
  then have t: "take (Suc (cp_i p)) (chunk text p) = take (cp_i p) (chunk text p) @ [?c]"
    using take_Suc_conv_app_nth[OF len(2)] by simp
  let ?p = "p\<lparr>counters := cs', cp_i := cp_i p + 1\<rparr>"
  have "count_iter text p = Some ?p" using len cs' by (simp add: count_iter_def)
  moreover have "chunk text ?p = chunk text p" by (simp add: chunk_def)
  then have "good_thread text ?p" using g i cs' t by (simp add: good_thread_def)
  ultimately show ?thesis by (intro exI[of _ ?p]) simp
qed

text \<open>A thread alone computes the counts of its chunk; the caller's loop index does not matter.\<close>

lemma count_loop_good:
  "good_thread text p \<Longrightarrow> cp_i p + n = cp_size p \<Longrightarrow>
   \<exists>p'. count_loop text n p = Some p' \<and> good_thread text p' \<and> cp_i p' = cp_size p' \<and>
     cp_size p' = cp_size p \<and> text_pointer p' = text_pointer p"
proof (induction n arbitrary: p)
  case (Suc n)
  then obtain q where q: "count_iter text p = Some q" "good_thread text q" "cp_i q = cp_i p + 1"
    "cp_size q = cp_size p" "text_pointer q = text_pointer p"
    using count_iter_good[of "text" p] by auto
  with Suc.prems(2) have "cp_i q + n = cp_size q" by simp
  from Suc.IH[OF q(2) this] q show ?case by auto
qed simp

section \<open>Any interleaving\<close>

lemma turn_effect:
  assumes "\<forall>p \<in> set ps. good_thread text p"
  shows "\<exists>ps'. turn text t ps = Some ps' \<and> (\<forall>p \<in> set ps'. good_thread text p) \<and>
    map text_pointer ps' = map text_pointer ps \<and> map cp_size ps' = map cp_size ps \<and>
    (\<forall>k < length ps. cp_i (ps' ! k) =
       (if k = t then min (cp_size (ps ! k)) (cp_i (ps ! k) + 1) else cp_i (ps ! k)))"
proof (cases "t < length ps \<and> \<not> thread_done (ps ! t)")
  case True
  then have g: "good_thread text (ps ! t)" and i: "cp_i (ps ! t) < cp_size (ps ! t)"
    using assms by (auto simp: thread_done_def)
  from count_iter_good[OF g i] obtain p' where p': "count_iter text (ps ! t) = Some p'" "good_thread text p'"
    "cp_i p' = cp_i (ps ! t) + 1" "cp_size p' = cp_size (ps ! t)" "text_pointer p' = text_pointer (ps ! t)"
    by blast
  have "\<forall>p \<in> set (ps[t := p']). good_thread text p"
    using assms p'(2) set_update_subset_insert[of ps t p'] by blast
  moreover have same: "map f (ps[t := p']) = map f ps" if "f p' = f (ps ! t)" for f :: "count_param \<Rightarrow> nat"
  proof -
    have "map f (ps[t := p']) = (map f ps)[t := map f ps ! t]" using that True by (simp add: map_update)
    then show ?thesis by simp
  qed
  moreover have "map text_pointer (ps[t := p']) = map text_pointer ps" "map cp_size (ps[t := p']) = map cp_size ps"
    using same p'(4,5) by blast+
  moreover have "turn text t ps = Some (ps[t := p'])" using True p'(1) by (simp add: turn_def)
  moreover have "cp_i (ps[t := p'] ! k) = (if k = t then min (cp_size (ps ! k)) (cp_i (ps ! k) + 1) else cp_i (ps ! k))"
    if "k < length ps" for k
    using that p'(3) i by (simp add: nth_list_update)
  ultimately show ?thesis by blast
next
  case False
  have "cp_i (ps ! k) = (if k = t then min (cp_size (ps ! k)) (cp_i (ps ! k) + 1) else cp_i (ps ! k))"
    if "k < length ps" for k
  proof (cases "k = t")
    case True
    then have "thread_done (ps ! k)" "good_thread text (ps ! k)" using False that assms by auto
    then show ?thesis using True by (simp add: thread_done_def good_thread_def)
  qed simp
  moreover have "turn text t ps = Some ps" using False by (simp only: turn_def if_False)
  ultimately show ?thesis using assms by blast
qed

lemma run_threads_effect:
  "\<forall>p \<in> set ps. good_thread text p \<Longrightarrow>
   \<exists>ps'. run_threads text ts ps = Some ps' \<and> (\<forall>p \<in> set ps'. good_thread text p) \<and>
     map text_pointer ps' = map text_pointer ps \<and> map cp_size ps' = map cp_size ps \<and>
     (\<forall>k < length ps. cp_i (ps' ! k) = min (cp_size (ps ! k)) (cp_i (ps ! k) + count_list ts k))"
proof (induction ts arbitrary: ps)
  case Nil
  have "cp_i (ps ! k) \<le> cp_size (ps ! k)" if "k < length ps" for k
    using Nil that by (auto simp: good_thread_def)
  then have "\<forall>k < length ps. cp_i (ps ! k) = min (cp_size (ps ! k)) (cp_i (ps ! k))"
    by (simp add: min_absorb2)
  with Nil show ?case by simp
next
  case (Cons t ts)
  from turn_effect[OF Cons.prems, of t] obtain q where
    q: "turn text t ps = Some q" "\<forall>p \<in> set q. good_thread text p"
      "map text_pointer q = map text_pointer ps" "map cp_size q = map cp_size ps"
    and i: "\<And>k. k < length ps \<Longrightarrow> cp_i (q ! k) =
       (if k = t then min (cp_size (ps ! k)) (cp_i (ps ! k) + 1) else cp_i (ps ! k))" by blast
  have len: "length q = length ps" using q(4) by (metis length_map)
  have sz: "cp_size (q ! k) = cp_size (ps ! k)" if "k < length ps" for k
    using arg_cong[OF q(4), of "\<lambda>xs. xs ! k"] that len by simp
  from Cons.IH[OF q(2)] obtain ps' where
    r: "run_threads text ts q = Some ps'" "\<forall>p \<in> set ps'. good_thread text p"
      "map text_pointer ps' = map text_pointer q" "map cp_size ps' = map cp_size q"
      "\<And>k. k < length q \<Longrightarrow> cp_i (ps' ! k) = min (cp_size (q ! k)) (cp_i (q ! k) + count_list ts k)" by blast
  have "cp_i (ps' ! k) = min (cp_size (ps ! k)) (cp_i (ps ! k) + count_list (t # ts) k)" if "k < length ps" for k
    using r(5)[of k] i[OF that] sz[OF that] that len by (auto simp: min_def)
  with q r show ?case by auto
qed

lemma gather_sum:
  assumes "\<forall>p \<in> set ps. good_thread text p \<and> cp_i p = cp_size p"
  shows "length (gather ps) = LETTERS_NB \<and>
    (\<forall>j < LETTERS_NB. gather ps ! j = of_nat (letter_count (concat (map (chunk text) ps)) j))"
  using assms
proof (induction ps rule: rev_induct)
  case Nil
  then show ?case by (simp add: gather_def letter_count_def)
next
  case (snoc p ps)
  then have p: "good_thread text p" "cp_i p = cp_size p" by auto
  have "take (cp_size p) (chunk text p) = chunk text p" by (simp add: chunk_def)
  then have c: "length (counters p) = LETTERS_NB"
    "\<And>j. j < LETTERS_NB \<Longrightarrow> counters p ! j = of_nat (letter_count (chunk text p) j)"
    using p by (auto simp: good_thread_def)
  have "gather (ps @ [p]) = map2 (+) (gather ps) (counters p)" by (simp add: gather_def)
  with snoc c show ?case by simp
qed

section \<open>Properties\<close>

lemma chunk_params_good:
  assumes "0 < n"
  shows "\<forall>p \<in> set (chunk_params (length text) n). good_thread text p \<and> cp_i p = 0"
proof -
  have "good_thread text (chunk_param (length text) n i) \<and> cp_i (chunk_param (length text) n i) = 0"
    if i: "i < n" for i
  proof -
    have "Suc i * (length text div n) \<le> n * (length text div n)" using i by (intro mult_le_mono1) simp
    also have "\<dots> \<le> length text" by simp
    finally have "text_pointer (chunk_param (length text) n i) + cp_size (chunk_param (length text) n i)
        \<le> length text"
      using chunk_end[OF assms i, where s = "length text"] by simp
    then show ?thesis
      by (simp add: good_thread_def chunk_param_def Let_def letter_count_def LETTERS_NB_def)
  qed
  then show ?thesis by (auto simp: chunk_params_def)
qed

text \<open>A schedule that gives every thread enough turns.\<close>

definition fair_schedule :: "nat list \<Rightarrow> nat \<Rightarrow> nat \<Rightarrow> bool" where
  "fair_schedule sched text_size n \<longleftrightarrow>
     (\<forall>t < n. cp_size (chunk_param text_size n t) \<le> count_list sched t)"

lemma run_chunks:
  assumes "0 < n"
  shows "\<exists>ps. run_threads text sched (chunk_params (length text) n) = Some ps \<and>
    (joined ps \<longleftrightarrow> fair_schedule sched (length text) n) \<and>
    (joined ps \<longrightarrow> (\<forall>j < LETTERS_NB. gather ps ! j = of_nat (letter_count text j)))"
proof -
  let ?ps = "chunk_params (length text) n"
  have "\<forall>p \<in> set ?ps. good_thread text p" using chunk_params_good[OF assms] by blast
  from run_threads_effect[OF this, of sched] obtain ps where
    r: "run_threads text sched ?ps = Some ps" "\<forall>p \<in> set ps. good_thread text p"
      "map text_pointer ps = map text_pointer ?ps" "map cp_size ps = map cp_size ?ps"
      and i: "\<And>k. k < length ?ps \<Longrightarrow> cp_i (ps ! k) = min (cp_size (?ps ! k)) (cp_i (?ps ! k) + count_list sched k)"
    by blast
  have len: "length ps = n" using r(4) by (metis length_map chunk_params_def diff_zero length_upt)
  have sz: "cp_size (ps ! k) = cp_size (?ps ! k)" "text_pointer (ps ! k) = text_pointer (?ps ! k)" if "k < n" for k
    using arg_cong[OF r(4), of "\<lambda>xs. xs ! k"] arg_cong[OF r(3), of "\<lambda>xs. xs ! k"] that len
    by (simp_all add: chunk_params_def)
  have pk: "?ps ! k = chunk_param (length text) n k" if "k < n" for k using that by (simp add: chunk_params_def)
  have "thread_done (ps ! k) \<longleftrightarrow> cp_size (chunk_param (length text) n k) \<le> count_list sched k" if "k < n" for k
    using i[of k] sz[OF that] that pk[OF that]
    by (simp add: thread_done_def chunk_params_def) (simp add: chunk_param_def Let_def min_def)
  then have fair: "joined ps \<longleftrightarrow> fair_schedule sched (length text) n"
    by (auto simp: joined_def list_all_length len fair_schedule_def)
  have "\<forall>j < LETTERS_NB. gather ps ! j = of_nat (letter_count text j)" if "joined ps"
  proof -
    have "cp_i p = cp_size p" if "p \<in> set ps" for p
      using that r(2) \<open>joined ps\<close> by (force simp: joined_def list_all_iff thread_done_def good_thread_def)
    then have g: "\<forall>p \<in> set ps. good_thread text p \<and> cp_i p = cp_size p" using r(2) by blast
    have "map (chunk text) ps = map (chunk text) ?ps"
      using len sz by (intro nth_equalityI) (simp_all add: chunk_params_def chunk_def)
    then show ?thesis using gather_sum[OF g] chunks_concat[OF assms, of "text"] by simp
  qed
  with r(1) fair show ?thesis by blast
qed

text \<open>
  C20. The result does not depend on the interleaving. For a readable file and between 1 and 15
  threads, no schedule makes a thread read outside the text or the counters; the program ends
  exactly under the schedules that give each thread as many turns as its chunk has characters;
  and then it prints, for each of the 26 letters, the number of its occurrences in the whole
  text (modulo 2^32), whatever the number of threads and the order of their steps.
\<close>

theorem threads_count_the_text:
  assumes "te_fopen E f = Some bytes" and "te_fseek E \<and> te_ftell E \<and> te_malloc E (length bytes + 1)"
    and "1 \<le> n" and "n \<le> 15" and "text = takeWhile (\<lambda>c. c \<noteq> CHR 0x00) bytes"
  shows "threads_main E [prog, show_int (int n), f] =
    (if fair_schedule (te_schedule E) (length text) n
     then Some (0, TcCounting (length text) (int n) (length text div n) #
       map (\<lambda>i. TcNumberOf (char_of (i + 97)) (of_nat (letter_count text i))) [0..<26])
     else None)"
proof -
  have a: "atoi (show_int (int n)) = int n" using atoi_show_int[of "[]" "int n"] by simp
  have buf: "buffer_from_file E f = Inr (bytes @ [CHR 0x00])"
    using assms(1,2) by (simp add: buffer_from_file_def fseek_filesize_def)
  have t: "strlen_text (bytes @ [CHR 0x00]) = text"
    by (simp add: strlen_text_def assms(5) takeWhile_tail)
  have "0 < n" using assms(3) by simp
  from run_chunks[OF this, of "text" "te_schedule E"] obtain ps where
    ps: "run_threads text (te_schedule E) (chunk_params (length text) n) = Some ps"
      "joined ps \<longleftrightarrow> fair_schedule (te_schedule E) (length text) n"
      "joined ps \<Longrightarrow> \<forall>j < LETTERS_NB. gather ps ! j = of_nat (letter_count text j)" by blast
  show ?thesis
  proof (cases "joined ps")
    case True
    have "map (\<lambda>i. TcNumberOf (char_of (i + A_LOWER_OFFSET)) (gather ps ! i)) [0..<LETTERS_NB] =
        map (\<lambda>i. TcNumberOf (char_of (i + 97)) (of_nat (letter_count text i))) [0..<26]"
      using ps(3)[OF True] by (simp add: LETTERS_NB_def A_LOWER_OFFSET_def)
    with True show ?thesis using assms(3,4) ps(1,2)
      by (simp add: threads_main_def a buf t Let_def MAX_THREAD_NUM_def)
  next
    case False
    then show ?thesis using assms(3,4) ps(1,2)
      by (simp add: threads_main_def a buf t Let_def MAX_THREAD_NUM_def)
  qed
qed

definition tc_sample :: tc_env where
  "tc_sample = \<lparr>te_fopen = (\<lambda>f. Some ''aB b''), te_fseek = True, te_ftell = True,
     te_malloc = (\<lambda>n. True), te_schedule = [1, 0, 1, 0]\<rparr>"

lemma tc_sample_text: "takeWhile (\<lambda>c. c \<noteq> CHR 0x00) ''aB b'' = ''aB b''"
  by simp

theorem threads_count_the_text_witness:
  "\<exists>out. threads_main tc_sample [''threads'', show_int 2, ''f''] = Some (0, out) \<and>
     TcNumberOf CHR ''b'' 2 \<in> set out"
proof -
  have fair: "fair_schedule (te_schedule tc_sample) (length ''aB b'') 2"
    by (auto simp: fair_schedule_def tc_sample_def chunk_param_def less_2_cases_iff)
  have c: "letter_count ''aB b'' 1 = 2"
    by (simp add: letter_count_def is_letter_def isalpha_def tolower_def ord_def A_LOWER_OFFSET_def)
  have "threads_main tc_sample [''threads'', show_int (int 2), ''f''] =
    Some (0, TcCounting 4 2 2 #
       map (\<lambda>i. TcNumberOf (char_of (i + 97)) (of_nat (letter_count ''aB b'' i))) [0..<26])"
    using threads_count_the_text[of tc_sample "''f''" "''aB b''" 2 "''aB b''" "''threads''"] fair
    by (simp add: tc_sample_def)
  moreover have "TcNumberOf (char_of (1 + 97 :: nat)) (of_nat (letter_count ''aB b'' 1)) \<in>
    (\<lambda>i. TcNumberOf (char_of (i + 97)) (of_nat (letter_count ''aB b'' i))) ` set [0..<26]"
    by (rule imageI) simp
  moreover have "char_of (1 + 97 :: nat) = CHR ''b''" by code_simp
  ultimately show ?thesis unfolding c by auto
qed

lemma letter_count_no_overflow:
  "length s < 2 ^ 32 \<Longrightarrow> unat (of_nat (letter_count s j) :: u32) = letter_count s j"
  using letter_count_le[of s j] by (intro unat_of_nat_u32) simp

text \<open>
  \<open>count_letters\<close>, run by itself on the parameters \<open>main\<close> prepares for thread \<open>i\<close> of \<open>n\<close>, ends
  and leaves in counter \<open>j\<close> the exact number of letters \<open>j\<close> of its chunk (the 32-bit counter
  does not wrap for a text below 4 GB), and the chunks of all threads are the text, in order.
\<close>

theorem count_letters_counts:
  assumes "i < n" and "length text < 2 ^ 32"
  shows "(\<exists>p. count_letters text (chunk_param (length text) n i) = Some p \<and>
      (\<forall>j < 26. unat (counters p ! j) = letter_count (chunk text (chunk_param (length text) n i)) j)) \<and>
    concat (map (\<lambda>k. chunk text (chunk_param (length text) n k)) [0..<n]) = text"
proof -
  let ?p = "chunk_param (length text) n i"
  have n: "0 < n" using assms(1) by simp
  have "?p \<in> set (chunk_params (length text) n)" using assms(1) by (simp add: chunk_params_def)
  with chunk_params_good[OF n, of "text"] have g: "good_thread text ?p" "cp_i ?p = 0" by blast+
  from count_loop_good[OF g(1), of "cp_size ?p"] g(2) obtain p where
    p: "count_loop text (cp_size ?p) ?p = Some p" "good_thread text p" "cp_i p = cp_size p"
      "cp_size p = cp_size ?p" "text_pointer p = text_pointer ?p" by auto
  have "?p\<lparr>cp_i := 0\<rparr> = ?p" by (simp add: chunk_param_def Let_def)
  then have run: "count_letters text ?p = Some p" using p(1) by (simp add: count_letters_def)
  have "chunk text p = chunk text ?p" using p(4,5) by (simp add: chunk_def)
  moreover have "take (cp_size p) (chunk text p) = chunk text p" by (simp add: chunk_def)
  ultimately have c: "counters p ! j = of_nat (letter_count (chunk text ?p) j)" if "j < 26" for j
    using p(2,3) that by (simp add: good_thread_def LETTERS_NB_def)
  have "length (chunk text ?p) < 2 ^ 32" using assms(2) by (simp add: chunk_def)
  then have "\<forall>j < 26. unat (counters p ! j) = letter_count (chunk text ?p) j"
    by (simp add: c letter_count_no_overflow)
  moreover have "concat (map (\<lambda>k. chunk text (chunk_param (length text) n k)) [0..<n]) = text"
    using chunks_concat[OF n, of "text"] by (simp add: chunk_params_def comp_def)
  ultimately show ?thesis using run by blast
qed

theorem count_letters_counts_witness:
  "\<exists>p. count_letters ''aB b'' (chunk_param 4 2 1) = Some p \<and> unat (counters p ! 1) = 1"
proof -
  have "letter_count (chunk ''aB b'' (chunk_param 4 2 1)) 1 = 1"
    by (simp add: chunk_def chunk_param_def letter_count_def is_letter_def isalpha_def tolower_def ord_def
        A_LOWER_OFFSET_def)
  moreover have len: "length ''aB b'' = 4" by simp
  ultimately show ?thesis using count_letters_counts[of 1 2 "''aB b''"] unfolding len
    by (auto simp del: One_nat_def)
qed

text \<open>
  The argument checks: a wrong number of arguments, a thread count below 1 or above 15 and an
  unreadable file each give their message and status 1. The message for the count asks for less
  than 15, but 15 threads are accepted.
\<close>

theorem threads_argument_errors:
  shows "(length argv \<noteq> 3 \<longrightarrow> threads_main E argv = Some (1, [TcUsage])) \<and>
    (n < 1 \<or> 15 < n \<longrightarrow> threads_main E [prog, show_int n, f] = Some (1, [TcThreadCount 15])) \<and>
    (1 \<le> n \<and> n \<le> 15 \<and> te_fopen E f = None \<longrightarrow>
      threads_main E [prog, show_int n, f] = Some (1, [TcOpenFailed f]))"
proof -
  have "atoi (show_int n) = n" using atoi_show_int[of "[]" n] by simp
  then show ?thesis
    by (auto simp: threads_main_def Let_def MAX_THREAD_NUM_def buffer_from_file_def)
qed

theorem threads_argument_errors_witness:
  "threads_main tc_sample [''threads'', show_int 16, ''f''] = Some (1, [TcThreadCount 15])"
  using threads_argument_errors[of "[]" tc_sample 16 "''threads''" "''f''"] by simp

end
