(* ===== verification/TicTacToe.thy ===== *)
theory TicTacToe
  imports CLib
begin

text \<open>
  The tic-tac-toe game of lab 2: the game manager \<open>usr/src/tictactoe_gm.c\<close> and the player
  \<open>usr/src/tictactoe_player.c\<close>, two processes that exchange commands and moves through pipes. The
  constants of \<open>tictactoe.h\<close>, which is not in the repository, are the record \<open>ttt_hdr\<close>.
\<close>

section \<open>Constants and messages\<close>

record ttt_hdr =
  h_PLAYER_ID :: int
  h_AI_ID :: int
  h_EMPTY_ID :: int
  h_GRID_SIZE :: nat
  h_GRID_HEIGHT :: nat
  h_GRID_WIDTH :: nat
  h_MAX_DEPTH :: nat
  h_MAX_BUFFER_LENGTH :: nat
  h_PLAYER_SYMBOL :: char
  h_AI_SYMBOL :: char
  h_EMPTY_SYMBOL :: char

text \<open>
  What the sources take for granted about these constants: a 3 by 3 grid (its indices 0 to 8
  are written out), an empty cell that is 0 (the search reverts a move with 0), two different
  players, a search of some depth.
\<close>

definition hdr_ok :: "ttt_hdr \<Rightarrow> bool" where
  "hdr_ok H \<longleftrightarrow> h_GRID_SIZE H = 9 \<and> h_EMPTY_ID H = 0 \<and> h_PLAYER_ID H \<noteq> h_AI_ID H \<and>
     h_PLAYER_ID H \<noteq> 0 \<and> h_AI_ID H \<noteq> 0 \<and> 0 < h_MAX_DEPTH H"

datatype ttt_cmd = GAME_START | GAME_END | YOU_CAN_PLAY | MOVE_REJECTED | NO_WINNER | YOU_WIN | YOU_LOSE

datatype game_state = STATE_WIN | STATE_DRAW | STATE_PROGRESS

type_synonym grid = "int list"

section \<open>The search\<close>

text \<open>\<open>minmax\<close> and its loop over the cells: the score, and the grid after trying and reverting moves.\<close>

fun minmax :: "ttt_hdr \<Rightarrow> nat \<Rightarrow> int \<Rightarrow> grid \<Rightarrow> int \<times> grid"
and minmax_loop :: "ttt_hdr \<Rightarrow> nat \<Rightarrow> int \<Rightarrow> nat list \<Rightarrow> int \<Rightarrow> int \<Rightarrow> grid \<Rightarrow> int \<times> grid" where
  "minmax H 0 player g = (0, g)"
| "minmax H (Suc d) player g = minmax_loop H d player [0..<h_GRID_SIZE H] (- 1) (- 2) g"
| "minmax_loop H d player [] move score g = (if move = - 1 then 0 else score, g)"
| "minmax_loop H d player (i # is) move score g =
     (if g ! i = h_EMPTY_ID H
      then (case minmax H d (- player) (g[i := player]) of (s, g1) \<Rightarrow>
        let next_score = - s;
            score' = (if next_score > score then next_score else score);
            move' = (if next_score > score then int i else move);
            g2 = g1[i := 0]
        in if score' > 0 then (score', g2) else minmax_loop H d player is move' score' g2)
      else minmax_loop H d player is move score g)"

fun computers_loop :: "ttt_hdr \<Rightarrow> nat list \<Rightarrow> int \<Rightarrow> int \<Rightarrow> grid \<Rightarrow> int \<times> grid" where
  "computers_loop H [] move score g = (move, g)"
| "computers_loop H (i # is) move score g =
     (if g ! i = h_EMPTY_ID H
      then (case minmax H (h_MAX_DEPTH H - 1) (h_AI_ID H) (g[i := h_AI_ID H]) of (s, g1) \<Rightarrow>
        let tempScore = - s in
          computers_loop H is (if tempScore > score then int i else move)
            (if tempScore > score then tempScore else score) (g1[i := 0]))
      else computers_loop H is move score g)"

definition computers_turn :: "ttt_hdr \<Rightarrow> grid \<Rightarrow> int \<times> grid" where
  "computers_turn H g = (case computers_loop H [0..<h_GRID_SIZE H] (- 1) (- 2) g of
     (move, g') \<Rightarrow> (move + 1, g'))"

section \<open>The end of the game\<close>

text \<open>Three cells that all hold a value.\<close>

definition three :: "grid \<Rightarrow> int \<Rightarrow> nat \<Rightarrow> nat \<Rightarrow> nat \<Rightarrow> bool" where
  "three g v a b c \<longleftrightarrow> g ! a = v \<and> g ! b = v \<and> g ! c = v"

definition cell_left :: "ttt_hdr \<Rightarrow> grid \<Rightarrow> nat" where
  "cell_left H g = fold (\<lambda>i n. if g ! i = h_AI_ID H \<or> g ! i = h_PLAYER_ID H then n - 1 else n)
     [0..<h_GRID_SIZE H] (h_GRID_SIZE H)"

definition win :: "ttt_hdr \<Rightarrow> grid \<Rightarrow> game_state" where
  "win H g = (let p = h_PLAYER_ID H; a = h_AI_ID H in
     if three g p 0 1 2 \<or> three g a 0 1 2 then STATE_WIN
     else if three g p 3 4 5 \<or> three g a 3 4 5 then STATE_WIN
     else if three g p 6 7 8 \<or> three g a 6 7 8 then STATE_WIN
     else if three g p 0 3 6 \<or> three g a 0 3 6 then STATE_WIN
     else if three g p 1 4 7 \<or> three g a 1 4 7 then STATE_WIN
     else if three g p 2 5 8 \<or> three g a 2 5 8 then STATE_WIN
     else if three g p 0 4 5 \<or> three g a 0 4 5 then STATE_WIN
     else if three g p 2 4 6 \<or> three g a 2 5 6 then STATE_WIN
     else if cell_left H g = 0 then STATE_DRAW else STATE_PROGRESS)"

section \<open>Drawing\<close>

definition cell_symbol :: "ttt_hdr \<Rightarrow> int \<Rightarrow> char" where
  "cell_symbol H v = (if v = h_PLAYER_ID H then h_PLAYER_SYMBOL H
     else if v = h_AI_ID H then h_AI_SYMBOL H else h_EMPTY_SYMBOL H)"

definition draw_row :: "ttt_hdr \<Rightarrow> grid \<Rightarrow> nat \<Rightarrow> string" where
  "draw_row H g i = concat (map (\<lambda>j. (if j > 0 then ''|'' else []) @ '' '' @
      [cell_symbol H (g ! (i * h_GRID_WIDTH H + j))] @ '' '') [0..<h_GRID_WIDTH H]) @ '' '' @ [newline] @
    (if i < h_GRID_HEIGHT H - 1
     then concat (map (\<lambda>j. (if j > 0 then ''+'' else []) @ ''---'') [0..<h_GRID_WIDTH H]) @ '' '' @ [newline]
     else [])"

definition draw_grid :: "ttt_hdr \<Rightarrow> grid \<Rightarrow> string" where
  "draw_grid H g = concat (map (draw_row H g) [0..<h_GRID_HEIGHT H])"

section \<open>The game manager\<close>

datatype ttt_event =
    InitialBoard | ValidMoves | Draw grid string
  | BeginPlayersTurn | EndPlayersTurn | BeginComputersTurn | EndComputersTurn
  | Send ttt_cmd

text \<open>
  A run ends with the trace of what was printed and sent and the moves that are left to
  read, waits for a move that does not come, or writes outside the grid.
\<close>

datatype gm_result = Done "ttt_event list" "int list" | Waiting "ttt_event list" | Crash

definition init_game :: "ttt_hdr \<Rightarrow> grid \<times> ttt_event list" where
  "init_game H = (let g = replicate (h_GRID_SIZE H) (h_EMPTY_ID H) in (g, [InitialBoard, Draw g (draw_grid H g), ValidMoves]))"

text \<open>The loop of \<open>get_player_move\<close> on the moves the player sends.\<close>

fun player_move_loop :: "ttt_hdr \<Rightarrow> grid \<Rightarrow> int list \<Rightarrow> ttt_event list \<Rightarrow> (int \<times> int list \<times> ttt_event list) + ttt_event list" where
  "player_move_loop H g [] tr = Inr tr"
| "player_move_loop H g (move # moves) tr =
     (if move < 0 \<or> move > int (h_GRID_SIZE H) - 1 \<or> g ! nat move \<noteq> 0
      then player_move_loop H g moves (tr @ [Send MOVE_REJECTED])
      else Inl (move, moves, tr))"

definition get_player_move :: "ttt_hdr \<Rightarrow> grid \<Rightarrow> int list \<Rightarrow> ttt_event list \<Rightarrow> (int \<times> int list \<times> ttt_event list) + ttt_event list" where
  "get_player_move H g moves tr = player_move_loop H g moves (tr @ [Send YOU_CAN_PLAY])"

definition check_game_state :: "ttt_hdr \<Rightarrow> int \<Rightarrow> grid \<Rightarrow> ttt_event list \<times> bool" where
  "check_game_state H currentID g = (case win H g of
     STATE_PROGRESS \<Rightarrow> ([], False)
   | STATE_WIN \<Rightarrow> ([Send (if currentID = h_PLAYER_ID H then YOU_WIN else YOU_LOSE)], True)
   | STATE_DRAW \<Rightarrow> ([Send NO_WINNER], True))"

lemma player_move_consumes:
  "player_move_loop H g moves tr = Inl (mv, rest, tr') \<Longrightarrow> length rest < length moves"
  by (induction H g moves tr rule: player_move_loop.induct) (auto split: if_splits)

text \<open>
  The loop of \<open>game_manager\<close>, from the state with the game not over; \<open>True\<close> is the player's turn.
\<close>

function gm_loop :: "ttt_hdr \<Rightarrow> bool \<Rightarrow> grid \<Rightarrow> int list \<Rightarrow> ttt_event list \<Rightarrow> gm_result" where
  "gm_loop H True g moves tr =
     (case get_player_move H g moves (tr @ [BeginPlayersTurn]) of
        Inr tr' \<Rightarrow> Waiting tr'
      | Inl (move, rest, tr') \<Rightarrow>
          let g' = g[nat move := h_PLAYER_ID H];
              (out, over) = check_game_state H (h_PLAYER_ID H) g';
              tr'' = tr' @ [EndPlayersTurn, Draw g' (draw_grid H g')] @ out
          in if over then Done (tr'' @ [Send GAME_END]) rest else gm_loop H False g' rest tr'')"
| "gm_loop H False g moves tr =
     (case computers_turn H g of (m, g1) \<Rightarrow>
        let move = m - 1 in
        if move < 0 \<or> int (length g1) \<le> move then Crash
        else let g' = g1[nat move := h_AI_ID H];
              (out, over) = check_game_state H (h_AI_ID H) g';
              tr' = tr @ [BeginComputersTurn, Draw g' (draw_grid H g'), EndComputersTurn] @ out
          in if over then Done (tr' @ [Send GAME_END]) moves else gm_loop H True g' moves tr')"
  by pat_completeness auto
termination
  by (relation "measure (\<lambda>(H, t, g, moves, tr). 2 * length moves + (if t then 0 else 1))")
     (auto simp: get_player_move_def dest: player_move_consumes)

declare gm_loop.simps [simp del]

definition game_manager :: "ttt_hdr \<Rightarrow> grid \<Rightarrow> int list \<Rightarrow> ttt_event list \<Rightarrow> gm_result" where
  "game_manager H g moves tr = gm_loop H True g moves (tr @ [Send GAME_START])"

text \<open>One game of \<open>main\<close>: the initial board, then the manager.\<close>

definition gm_game :: "ttt_hdr \<Rightarrow> int list \<Rightarrow> gm_result" where
  "gm_game H moves = (case init_game H of (g, tr) \<Rightarrow> game_manager H g moves tr)"

section \<open>The player\<close>

text \<open>
  \<open>parse_line\<close>, on a string without its final NUL: the loop with room for \<open>k\<close> characters left.
  The outer \<open>None\<close> is a number that is no \<open>int\<close>, where \<open>atoi\<close> has no defined result; the
  inner \<open>None\<close> is a refused line.
\<close>

fun parse_loop :: "nat \<Rightarrow> string \<Rightarrow> string \<Rightarrow> int option option" where
  "parse_loop 0 str buffer = Some None"
| "parse_loop (Suc k) [] buffer =
     (let index = atoi buffer in
      if index \<ge> 2 ^ 31 then None
      else if index \<le> 0 \<or> index > 9 then Some None else Some (Some (index - 1)))"
| "parse_loop (Suc k) (c # cs) buffer =
     (if isdigit c then parse_loop k cs (buffer @ [c]) else Some None)"

definition parse_line :: "ttt_hdr \<Rightarrow> string \<Rightarrow> int option option" where
  "parse_line H str = (if str = [] then Some None else parse_loop (h_MAX_BUFFER_LENGTH H) str [])"

datatype pl_event =
    TttPrompt | Invalid | CannotPlayHere | DrawMessage | WinMessage | LoseMessage | EndedUnexpectedly
  | SendMove int

datatype 'a input = Got 'a "string list" "pl_event list" | NoInput "pl_event list" | Undefined

text \<open>
  \<open>get_input_move\<close> on the words of the terminal: \<open>scanf\<close> stores a word and its NUL in
  \<open>MAX_BUFFER_LENGTH\<close> characters.
\<close>

fun get_input_move :: "ttt_hdr \<Rightarrow> string list \<Rightarrow> pl_event list \<Rightarrow> int input" where
  "get_input_move H [] tr = NoInput (tr @ [TttPrompt])"
| "get_input_move H (w # ws) tr =
     (if length w \<ge> h_MAX_BUFFER_LENGTH H then Undefined
      else case parse_line H w of
        None \<Rightarrow> Undefined
      | Some None \<Rightarrow> get_input_move H ws (tr @ [TttPrompt, Invalid])
      | Some (Some index) \<Rightarrow> Got index ws (tr @ [TttPrompt]))"

text \<open>The loop of the player's \<open>main\<close> on the commands it receives.\<close>

fun player_loop :: "ttt_hdr \<Rightarrow> ttt_cmd list \<Rightarrow> string list \<Rightarrow> pl_event list \<Rightarrow> unit input" where
  "player_loop H [] ws tr = NoInput tr"
| "player_loop H (cmd # cmds) ws tr =
     (case cmd of
        GAME_START \<Rightarrow> player_loop H cmds ws tr
      | GAME_END \<Rightarrow> Got () ws (tr @ [EndedUnexpectedly])
      | YOU_CAN_PLAY \<Rightarrow> (case get_input_move H ws tr of
            Got m ws' tr' \<Rightarrow> player_loop H cmds ws' (tr' @ [SendMove m])
          | NoInput tr' \<Rightarrow> NoInput tr' | Undefined \<Rightarrow> Undefined)
      | MOVE_REJECTED \<Rightarrow> (case get_input_move H ws (tr @ [CannotPlayHere]) of
            Got m ws' tr' \<Rightarrow> player_loop H cmds ws' (tr' @ [SendMove m])
          | NoInput tr' \<Rightarrow> NoInput tr' | Undefined \<Rightarrow> Undefined)
      | NO_WINNER \<Rightarrow> Got () ws (tr @ [DrawMessage])
      | YOU_WIN \<Rightarrow> Got () ws (tr @ [WinMessage])
      | YOU_LOSE \<Rightarrow> Got () ws (tr @ [LoseMessage]))"

section \<open>The search sees nothing\<close>

lemma restore_cell: "length g = n \<Longrightarrow> g ! i = 0 \<Longrightarrow> (g[i := v])[i := 0] = (g :: int list)"
  by (metis list_update_id list_update_overwrite)

lemma minmax_blind:
  assumes "hdr_ok H"
  shows "minmax H d player g = (0, g)"
    and "move = - 1 \<and> score = - 2 \<or> score = 0 \<Longrightarrow> minmax_loop H d player is move score g = (0, g)"
  using assms
proof (induction H d player g and H d player "is" move score g rule: minmax_minmax_loop.induct)
  case (4 H d player i ps move score g)
  show ?case
  proof (cases "g ! i = 0")
    case True
    then have "minmax H d (- player) (g[i := player]) = (0, g[i := player])"
      using 4 by (auto simp: hdr_ok_def)
    moreover have "(g[i := player])[i := 0] = g" using restore_cell[OF refl True] .
    ultimately show ?thesis using 4 True by (auto simp: Let_def hdr_ok_def)
  next
    case False
    then show ?thesis using 4 by (simp add: hdr_ok_def)
  qed
qed auto

lemma computers_loop_first:
  assumes "hdr_ok H"
  shows "computers_loop H is move score g =
    (if score < 0 then (case find (\<lambda>i. g ! i = 0) is of None \<Rightarrow> (move, g) | Some i \<Rightarrow> (int i, g))
     else (move, g))"
proof (induction "is" arbitrary: move score)
  case (Cons i ps)
  show ?case
  proof (cases "g ! i = 0")
    case True
    then have r: "g[i := 0] = g" by (metis list_update_id)
    have "minmax H (h_MAX_DEPTH H - 1) (h_AI_ID H) (g[i := h_AI_ID H]) = (0, g[i := h_AI_ID H])"
      by (rule minmax_blind(1)[OF assms])
    then show ?thesis using True assms by (simp add: Cons r Let_def hdr_ok_def)
  next
    case False
    then show ?thesis using Cons assms by (simp add: hdr_ok_def)
  qed
qed simp

lemma computers_turn_find:
  assumes "hdr_ok H"
  shows "computers_turn H g = (case find (\<lambda>i. g ! i = 0) [0..<9] of None \<Rightarrow> (0, g) | Some i \<Rightarrow> (int i + 1, g))"
  using assms by (simp add: computers_turn_def computers_loop_first hdr_ok_def split: option.splits)

section \<open>Positions\<close>

text \<open>A legal position: nine cells, and with the player to move as many stones of each kind.\<close>

definition position_ok :: "ttt_hdr \<Rightarrow> bool \<Rightarrow> grid \<Rightarrow> bool" where
  "position_ok H t g \<longleftrightarrow> length g = 9 \<and> set g \<subseteq> {0, h_PLAYER_ID H, h_AI_ID H} \<and>
     count_list g (h_PLAYER_ID H) = count_list g (h_AI_ID H) + (if t then 0 else 1)"

lemma count_list_update:
  "i < length xs \<Longrightarrow> xs ! i \<noteq> v \<Longrightarrow> count_list (xs[i := v]) v = count_list xs v + 1"
  "i < length xs \<Longrightarrow> xs ! i \<noteq> w \<Longrightarrow> v \<noteq> w \<Longrightarrow> count_list (xs[i := v]) w = count_list xs w"
  by (induction xs arbitrary: i) (auto split: nat.splits)

lemma count_total:
  assumes "set g \<subseteq> {0, p, a}" and "p \<noteq> a" and "p \<noteq> 0" and "a \<noteq> (0 :: int)"
  shows "count_list g 0 + count_list g p + count_list g a = length g"
  using assms by (induction g) auto

lemma position_player:
  assumes "hdr_ok H" and "position_ok H True g" and "m < 9" and "g ! m = 0"
  shows "position_ok H False (g[m := h_PLAYER_ID H])"
  using assms set_update_subset_insert[of g m "h_PLAYER_ID H"]
  by (auto simp: position_ok_def hdr_ok_def count_list_update)

lemma position_ai:
  assumes "hdr_ok H" and "position_ok H False g" and "m < 9" and "g ! m = 0"
  shows "position_ok H True (g[m := h_AI_ID H])"
  using assms set_update_subset_insert[of g m "h_AI_ID H"]
  by (auto simp: position_ok_def hdr_ok_def count_list_update)

lemma cell_left_count:
  assumes "hdr_ok H" and "position_ok H t g"
  shows "cell_left H g = count_list g 0"
proof -
  let ?Q = "\<lambda>x. x = h_AI_ID H \<or> x = h_PLAYER_ID H"
  have gen: "fold (\<lambda>i n. if ?Q (g ! i) then n - 1 else n) is m = m - length (filter (\<lambda>i. ?Q (g ! i)) is)"
    for "is" and m :: nat
    by (induction "is" arbitrary: m) auto
  have len: "length g = 9" using assms(2) by (simp add: position_ok_def)
  have "length (filter ?Q g) = length (filter (\<lambda>i. ?Q (g ! i)) [0..<9])"
    using len by (subst map_nth[of g, symmetric]) (simp add: filter_map comp_def)
  moreover have "count_list g 0 + length (filter ?Q g) = length g"
  proof -
    have "set xs \<subseteq> {0, h_PLAYER_ID H, h_AI_ID H} \<Longrightarrow>
        count_list xs 0 + length (filter ?Q xs) = length xs" for xs
      using assms(1) by (induction xs) (auto simp: hdr_ok_def)
    then show ?thesis using assms(2) by (simp add: position_ok_def)
  qed
  ultimately show ?thesis using assms(1) len gen[of "[0..<9]" 9]
    by (simp add: cell_left_def hdr_ok_def)
qed

lemma position_progress:
  assumes "hdr_ok H" and "position_ok H t g" and "\<not> t" and "win H g = STATE_PROGRESS"
  shows "\<exists>i < 9. g ! i = 0"
proof -
  have "count_list g 0 \<noteq> 0"
    using assms(4) cell_left_count[OF assms(1,2)] by (auto simp: win_def Let_def split: if_splits)
  then have "0 \<in> set g" by (simp add: count_list_0_iff)
  then show ?thesis using assms(2) by (auto simp: position_ok_def in_set_conv_nth)
qed

text \<open>
  The lines that count, cell by cell, apart from \<open>win\<close>: the rows and the columns and the diagonal 2, 4, 6 for the
  player; of the other diagonal the code tests the cells 0, 4 and 5 instead, and for the computer 2, 5 and 6
  instead of 2, 4 and 6.
\<close>

definition rows_and_columns :: "(nat \<times> nat \<times> nat) set" where
  "rows_and_columns = {(0, 1, 2), (3, 4, 5), (6, 7, 8), (0, 3, 6), (1, 4, 7), (2, 5, 8)}"

definition counted_line :: "ttt_hdr \<Rightarrow> grid \<Rightarrow> bool" where
  "counted_line H g \<longleftrightarrow>
     (\<exists>(a, b, c) \<in> rows_and_columns \<union> {(0, 4, 5), (2, 4, 6)}. three g (h_PLAYER_ID H) a b c) \<or>
     (\<exists>(a, b, c) \<in> rows_and_columns \<union> {(0, 4, 5), (2, 5, 6)}. three g (h_AI_ID H) a b c)"

definition over :: "ttt_hdr \<Rightarrow> grid \<Rightarrow> bool" where
  "over H g \<longleftrightarrow> counted_line H g \<or> 0 \<notin> set g"


section \<open>The game is played by the rules\<close>

lemma get_player_move_legal:
  "player_move_loop H g moves tr = Inl (m, rest, tr') \<Longrightarrow> hdr_ok H \<Longrightarrow> 0 \<le> m \<and> m < 9 \<and> g ! nat m = 0"
  by (induction H g moves tr rule: player_move_loop.induct) (auto simp: hdr_ok_def split: if_splits)

lemma position_start: "hdr_ok H \<Longrightarrow> position_ok H True (replicate 9 0)"
  by (auto simp: position_ok_def hdr_ok_def count_list_0_iff[THEN iffD2])

lemma find_zero: "find (\<lambda>i. g ! i = 0) [0..<9] = Some i \<Longrightarrow> i < 9 \<and> g ! i = (0 :: int)"
proof -
  have "find P xs = Some x \<Longrightarrow> x \<in> set xs \<and> P x" for P and xs :: "nat list" and x
    by (induction xs) (auto split: if_splits)
  from this[of "\<lambda>i. g ! i = 0" "[0..<9]" i] show "find (\<lambda>i. g ! i = 0) [0..<9] = Some i \<Longrightarrow> i < 9 \<and> g ! i = 0"
    by simp
qed

lemma computers_turn_legal:
  assumes "hdr_ok H" and "\<exists>i < 9. g ! i = 0"
  obtains i where "computers_turn H g = (int i + 1, g)" and "i < 9" and "g ! i = 0"
proof -
  have "find (\<lambda>i. g ! i = 0) [0..<9] \<noteq> None" using assms(2) by (auto simp: find_None_iff)
  then obtain i where i: "find (\<lambda>i. g ! i = 0) [0..<9] = Some i" by blast
  show ?thesis using that[of i] computers_turn_find[OF assms(1), of g] i find_zero[OF i] by simp
qed

text \<open>The result of a run: boards and messages.\<close>

definition boards :: "ttt_event list \<Rightarrow> grid list" where
  "boards tr = [g. Draw g s \<leftarrow> tr]"

definition sent :: "ttt_event list \<Rightarrow> ttt_cmd list" where
  "sent tr = [c. Send c \<leftarrow> tr]"

lemma boards_sent_append [simp]:
  "boards (a @ b) = boards a @ boards b" "sent (a @ b) = sent a @ sent b"
  by (simp_all add: boards_def sent_def)







section \<open>The protocol with the player\<close>

definition sends :: "pl_event list \<Rightarrow> int list" where
  "sends tr = [m. SendMove m \<leftarrow> tr]"

lemma sends_append [simp]: "sends (a @ b) = sends a @ sends b"
  by (simp add: sends_def)

text \<open>What the user types to play cell \<open>m\<close>.\<close>

definition typed :: "int \<Rightarrow> string" where
  "typed m = show_int (m + 1)"

lemma parse_loop_digits:
  "(\<And>c. c \<in> set s \<Longrightarrow> isdigit c) \<Longrightarrow> length s < k \<Longrightarrow>
   parse_loop k s buffer = parse_loop (k - length s) [] (buffer @ s)"
proof (induction s arbitrary: k buffer)
  case (Cons c s)
  then obtain k' where "k = Suc k'" by (cases k) auto
  with Cons show ?case by simp
qed simp

lemma parse_loop_bad:
  "\<exists>c \<in> set s. \<not> isdigit c \<Longrightarrow> parse_loop k s buffer = Some None"
proof (induction s arbitrary: k buffer)
  case (Cons c s)
  then show ?case by (cases k) auto
qed simp

lemma parse_loop_long: "k \<le> length s \<Longrightarrow> parse_loop k s buffer = Some None"
proof (induction s arbitrary: k buffer)
  case Nil
  then show ?case by simp
next
  case (Cons c s)
  then show ?case by (cases k) auto
qed

lemma atoi_digits:
  assumes "\<And>c. c \<in> set s \<Longrightarrow> isdigit c"
  shows "atoi s = int (digits_val 0 s)"
proof (cases s)
  case (Cons c cs)
  then have "isdigit c" using assms by simp
  then show ?thesis using digit_class[of c] by (simp add: Cons atoi_def)
qed (simp add: atoi_def)

lemma show_int_typed:
  assumes "0 \<le> m" and "m < 9"
  shows "\<exists>c. typed m = [c] \<and> isdigit c \<and> digits_val 0 [c] = nat m + 1"
proof -
  define n where "n = nat (m + 1)"
  have n: "n < 10" "n = nat m + 1" using assms by (simp_all add: n_def nat_add_distrib)
  have "show_nat n = [char_of (48 + n)]" using n(1) by (subst show_nat.simps) simp
  moreover have d: "isdigit (char_of (48 + n))" by (rule isdigit_char_of[OF n(1)])
  moreover have "digits_val 0 [char_of (48 + n)] = n" using n(1) d by simp
  ultimately have "typed m = [char_of (48 + n)] \<and> isdigit (char_of (48 + n)) \<and> digits_val 0 [char_of (48 + n)] = nat m + 1"
    using assms n(2) by (simp only: typed_def show_int_def n_def[symmetric]) simp
  then show ?thesis by blast
qed

lemma parse_typed:
  assumes "0 \<le> m" and "m < 9" and "2 \<le> h_MAX_BUFFER_LENGTH H"
  shows "parse_line H (typed m) = Some (Some m)"
proof -
  from show_int_typed[OF assms(1,2)] obtain c where
    c: "typed m = [c]" "isdigit c" "digits_val 0 [c] = nat m + 1" by blast
  obtain k where "h_MAX_BUFFER_LENGTH H = Suc (Suc k)" using assms(3) by (metis add_2_eq_Suc le_Suc_ex)
  then show ?thesis using c atoi_digits[of "[c]"] assms(1,2) by (simp add: parse_line_def)
qed

lemma input_typed:
  assumes "0 \<le> m" and "m < 9" and "2 \<le> h_MAX_BUFFER_LENGTH H"
  shows "get_input_move H (typed m # ws) tr = Got m ws (tr @ [TttPrompt])"
proof -
  from show_int_typed[OF assms(1,2)] obtain c where "typed m = [c]" by blast
  then show ?thesis using parse_typed[OF assms] assms(3) by simp
qed

text \<open>
  A run of the player, with what it sends and shows after a given trace: \<open>player_runs cs ms\<close>
  says that the commands \<open>cs\<close> make a player at which the moves \<open>ms\<close> are typed send exactly them.
\<close>

definition player_runs :: "ttt_hdr \<Rightarrow> ttt_cmd list \<Rightarrow> int list \<Rightarrow> bool" where
  "player_runs H cs ms \<longleftrightarrow> (\<forall>cs' ws tr. \<exists>tr'.
     player_loop H (cs @ cs') (map typed ms @ ws) tr = player_loop H cs' ws (tr @ tr') \<and> sends tr' = ms \<and>
     EndedUnexpectedly \<notin> set tr')"

lemma player_runs_Nil: "player_runs H [] []"
  by (simp add: player_runs_def) (metis append_Nil2 sends_def concat.simps(1) list.simps(8) list.set(1) empty_iff)

lemma player_runs_append:
  assumes "player_runs H cs ms" and "player_runs H ds ns"
  shows "player_runs H (cs @ ds) (ms @ ns)"
  unfolding player_runs_def
proof (intro allI)
  fix cs' ws tr
  from assms(1) obtain t1 where t1: "player_loop H (cs @ ds @ cs') (map typed ms @ map typed ns @ ws) tr
      = player_loop H (ds @ cs') (map typed ns @ ws) (tr @ t1)" "sends t1 = ms" "EndedUnexpectedly \<notin> set t1"
    unfolding player_runs_def by blast
  from assms(2) obtain t2 where t2: "player_loop H (ds @ cs') (map typed ns @ ws) (tr @ t1)
      = player_loop H cs' ws ((tr @ t1) @ t2)" "sends t2 = ns" "EndedUnexpectedly \<notin> set t2"
    unfolding player_runs_def by blast
  show "\<exists>tr'. player_loop H ((cs @ ds) @ cs') (map typed (ms @ ns) @ ws) tr = player_loop H cs' ws (tr @ tr') \<and>
      sends tr' = ms @ ns \<and> EndedUnexpectedly \<notin> set tr'"
    using t1 t2 by (intro exI[of _ "t1 @ t2"]) simp
qed

lemma player_runs_ask:
  assumes "0 \<le> m" and "m < 9" and "2 \<le> h_MAX_BUFFER_LENGTH H" and "c = YOU_CAN_PLAY \<or> c = MOVE_REJECTED"
  shows "player_runs H [c] [m]"
proof -
  note i = input_typed[OF assms(1-3)]
  show ?thesis unfolding player_runs_def
  proof (intro allI)
    fix cs' ws tr
    show "\<exists>tr'. player_loop H ([c] @ cs') (map typed [m] @ ws) tr = player_loop H cs' ws (tr @ tr') \<and>
        sends tr' = [m] \<and> EndedUnexpectedly \<notin> set tr'"
    proof (cases "c = YOU_CAN_PLAY")
      case True
      then show ?thesis by (intro exI[of _ "[TttPrompt, SendMove m]"]) (simp add: i sends_def del: get_input_move.simps)
    next
      case False
      then show ?thesis using assms(4)
        by (intro exI[of _ "[CannotPlayHere, TttPrompt, SendMove m]"]) (simp add: i sends_def del: get_input_move.simps)
    qed
  qed
qed

lemma player_runs_start: "player_runs H [GAME_START] []"
  unfolding player_runs_def by (intro allI exI[of _ "[]"]) (simp add: sends_def)

text \<open>The manager reads one move for each command that asks for one.\<close>

lemma player_move_runs:
  shows "player_move_loop H g moves tr = Inl (m, rest, tr') \<Longrightarrow> 2 \<le> h_MAX_BUFFER_LENGTH H \<Longrightarrow> \<forall>x \<in> set moves. 0 \<le> x \<and> x < 9 \<Longrightarrow>
    c = YOU_CAN_PLAY \<or> c = MOVE_REJECTED \<Longrightarrow>
    \<exists>cs used. sent tr' = sent tr @ cs \<and> moves = used @ rest \<and> player_runs H (c # cs) used"
proof (induction H g moves tr arbitrary: c rule: player_move_loop.induct)
  case (2 H g x moves tr)
  show ?case
  proof (cases "x < 0 \<or> x > int (h_GRID_SIZE H) - 1 \<or> g ! nat x \<noteq> 0")
    case True
    then have "player_move_loop H g moves (tr @ [Send MOVE_REJECTED]) = Inl (m, rest, tr')"
      using "2.prems"(1) by simp
    from "2.IH"[OF True this, of MOVE_REJECTED] "2.prems"(2,3) obtain cs used where
      r: "sent tr' = sent (tr @ [Send MOVE_REJECTED]) @ cs" "moves = used @ rest"
        "player_runs H (MOVE_REJECTED # cs) used" by auto
    have "player_runs H ([c] @ MOVE_REJECTED # cs) ([x] @ used)"
      by (rule player_runs_append[OF player_runs_ask r(3)]) (use "2.prems" in auto)
    moreover have "sent tr' = sent tr @ MOVE_REJECTED # cs" using r(1) by (simp add: sent_def)
    moreover have "x # moves = (x # used) @ rest" using r(2) by simp
    ultimately show ?thesis by (metis append_Cons append_Nil)
  next
    case False
    with "2.prems" have e: "m = x" "rest = moves" "tr' = tr" by auto
    have "player_runs H [c] [x]" by (rule player_runs_ask) (use "2.prems" in auto)
    then show ?thesis unfolding e by (intro exI[of _ "[]"] exI[of _ "[x]"]) simp
  qed
qed simp

text \<open>The two kinds of turn as equations, with the message that ends the game.\<close>

definition verdict :: "ttt_hdr \<Rightarrow> bool \<Rightarrow> grid \<Rightarrow> ttt_cmd" where
  "verdict H by_player g = (if win H g = STATE_DRAW then NO_WINNER
     else if by_player then YOU_WIN else YOU_LOSE)"

lemma gm_player_step:
  assumes "get_player_move H g moves (tr @ [BeginPlayersTurn]) = Inl (m, rest, tr')"
    and "g' = g[nat m := h_PLAYER_ID H]"
  shows "gm_loop H True g moves tr =
    (if win H g' = STATE_PROGRESS then gm_loop H False g' rest (tr' @ [EndPlayersTurn, Draw g' (draw_grid H g')])
     else Done (tr' @ [EndPlayersTurn, Draw g' (draw_grid H g'), Send (verdict H True g'), Send GAME_END]) rest)"
  using assms by (cases "win H g'") (simp_all add: gm_loop.simps(1) check_game_state_def Let_def verdict_def)

lemma gm_computer_step:
  assumes "computers_turn H g = (int i + 1, g)" and "i < length g" and "h_PLAYER_ID H \<noteq> h_AI_ID H"
    and "g' = g[i := h_AI_ID H]"
  shows "gm_loop H False g moves tr =
    (let tr' = tr @ [BeginComputersTurn, Draw g' (draw_grid H g'), EndComputersTurn] in
     if win H g' = STATE_PROGRESS then gm_loop H True g' moves tr'
     else Done (tr' @ [Send (verdict H False g'), Send GAME_END]) moves)"
  using assms by (cases "win H g'") (simp_all add: gm_loop.simps(2) check_game_state_def Let_def verdict_def)

lemma verdict_end: "verdict H t g \<in> {YOU_WIN, YOU_LOSE, NO_WINNER}"
  by (simp add: verdict_def)

text \<open>What a complete game sends, and what the player makes of it.\<close>

lemma gm_loop_protocol:
  "gm_loop H t g moves tr = Done tr' rest \<Longrightarrow> hdr_ok H \<Longrightarrow> 2 \<le> h_MAX_BUFFER_LENGTH H \<Longrightarrow>
   \<forall>x \<in> set moves. 0 \<le> x \<and> x < 9 \<Longrightarrow> position_ok H t g \<Longrightarrow> (\<not> t \<longrightarrow> win H g = STATE_PROGRESS) \<Longrightarrow>
   \<exists>cs used b g'. sent tr' = sent tr @ cs @ [verdict H b g', GAME_END] \<and> moves = used @ rest \<and>
     player_runs H cs used"
proof (induction "2 * length moves + (if t then 0 else 1 :: nat)" arbitrary: t g moves tr rule: less_induct)
  case less
  show ?case
  proof (cases t)
    case True
    show ?thesis
    proof (cases "get_player_move H g moves (tr @ [BeginPlayersTurn])")
      case (Inr tr1)
      then show ?thesis using less.prems(1) True by (simp add: gm_loop.simps(1))
    next
      case (Inl x)
      obtain m ms tr1 where x: "x = (m, ms, tr1)" by (cases x)
      note get = Inl[unfolded x]
      let ?g = "g[nat m := h_PLAYER_ID H]"
      have loop: "player_move_loop H g moves (tr @ [BeginPlayersTurn, Send YOU_CAN_PLAY]) = Inl (m, ms, tr1)"
        using get by (simp add: get_player_move_def)
      from player_move_runs[OF loop less.prems(3,4), of YOU_CAN_PLAY] obtain cs used where
        r: "sent tr1 = sent tr @ YOU_CAN_PLAY # cs" "moves = used @ ms" "player_runs H (YOU_CAN_PLAY # cs) used"
        by (auto simp: sent_def)
      have m: "0 \<le> m" "m < 9" "g ! nat m = 0" using get_player_move_legal[OF loop less.prems(2)] by auto
      have pos: "position_ok H False ?g"
        using position_player[of H g "nat m"] m less.prems(2,5) True by simp
      show ?thesis
      proof (cases "win H ?g = STATE_PROGRESS")
        case False
        then have "tr' = tr1 @ [EndPlayersTurn, Draw ?g (draw_grid H ?g), Send (verdict H True ?g), Send GAME_END]"
          "rest = ms" using less.prems(1) True gm_player_step[OF get refl] by auto
        then have "sent tr' = sent tr @ (YOU_CAN_PLAY # cs) @ [verdict H True ?g, GAME_END]" "moves = used @ rest"
          using r by (simp_all add: sent_def)
        then show ?thesis using r(3) by blast
      next
        case prog: True
        let ?tr = "tr1 @ [EndPlayersTurn, Draw ?g (draw_grid H ?g)]"
        have run: "gm_loop H False ?g ms ?tr = Done tr' rest"
          using less.prems(1) True gm_player_step[OF get refl] prog by simp
        have "2 * length ms + (if False then 0 else 1) < 2 * length moves + (if t then 0 else 1 :: nat)"
          using player_move_consumes[OF loop] True by simp
        moreover have "\<forall>x \<in> set ms. 0 \<le> x \<and> x < 9" using less.prems(4) r(2) by simp
        ultimately obtain ds used' b g' where d: "sent tr' = sent ?tr @ ds @ [verdict H b g', GAME_END]"
          "ms = used' @ rest" "player_runs H ds used'"
          using less.hyps[of ms False ?g ?tr] run less.prems(2,3) pos prog by blast
        have "player_runs H ((YOU_CAN_PLAY # cs) @ ds) (used @ used')" by (rule player_runs_append[OF r(3) d(3)])
        moreover have "sent tr' = sent tr @ ((YOU_CAN_PLAY # cs) @ ds) @ [verdict H b g', GAME_END]"
          using d(1) r(1) by (simp add: sent_def)
        moreover have "moves = (used @ used') @ rest" using r(2) d(2) by simp
        ultimately show ?thesis by blast
      qed
    qed
  next
    case False
    have "\<exists>i < 9. g ! i = 0" using position_progress[OF less.prems(2,5)] False less.prems(6) by blast
    then obtain i where c: "computers_turn H g = (int i + 1, g)" "i < 9" "g ! i = 0"
      using computers_turn_legal[OF less.prems(2)] by blast
    have len: "i < length g" using less.prems(5) c(2) by (simp add: position_ok_def)
    have ne: "h_PLAYER_ID H \<noteq> h_AI_ID H" using less.prems(2) by (simp add: hdr_ok_def)
    let ?g = "g[i := h_AI_ID H]"
    let ?tr = "tr @ [BeginComputersTurn, Draw ?g (draw_grid H ?g), EndComputersTurn]"
    have pos: "position_ok H True ?g" using position_ai[OF less.prems(2) _ c(2,3)] less.prems(5) False by simp
    note step = gm_computer_step[OF c(1) len ne refl, of moves tr]
    show ?thesis
    proof (cases "win H ?g = STATE_PROGRESS")
      case fin: False
      then have "tr' = ?tr @ [Send (verdict H False ?g), Send GAME_END]" "rest = moves"
        using less.prems(1) False step by (auto simp: Let_def)
      then have "sent tr' = sent tr @ [] @ [verdict H False ?g, GAME_END]" "moves = [] @ rest"
        by (simp_all add: sent_def)
      then show ?thesis using player_runs_Nil by blast
    next
      case prog: True
      then have run: "gm_loop H True ?g moves ?tr = Done tr' rest"
        using less.prems(1) False step by (simp add: Let_def)
      have "2 * length moves + (if True then 0 else 1) < 2 * length moves + (if t then 0 else 1 :: nat)"
        using False by simp
      then obtain ds used' b g' where d: "sent tr' = sent ?tr @ ds @ [verdict H b g', GAME_END]"
          "moves = used' @ rest" "player_runs H ds used'"
        using less.hyps[of moves True ?g ?tr] run less.prems(2-4) pos by blast
      have "sent ?tr = sent tr" by (simp add: sent_def)
      then show ?thesis using d by auto
    qed
  qed
qed

section \<open>The game ends\<close>

lemma player_move_found:
  assumes "hdr_ok H" and "i < 9" and "g ! i = 0"
  shows "int i \<in> set xs \<Longrightarrow> \<exists>m pre' tr'. player_move_loop H g (xs @ ys) tr = Inl (m, pre' @ ys, tr')"
proof (induction xs arbitrary: tr)
  case (Cons x xs)
  show ?case
  proof (cases "x < 0 \<or> x > int (h_GRID_SIZE H) - 1 \<or> g ! nat x \<noteq> 0")
    case True
    then have "int i \<noteq> x" using assms by (auto simp: hdr_ok_def)
    then have "int i \<in> set xs" using Cons.prems by simp
    from Cons.IH[OF this, of "tr @ [Send MOVE_REJECTED]"] True show ?thesis by auto
  next
    case False
    then have "player_move_loop H g ((x # xs) @ ys) tr = Inl (x, xs @ ys, tr)" by simp
    then show ?thesis by blast
  qed
qed simp

lemma position_zeros:
  assumes "hdr_ok H" and "position_ok H t g"
  shows "count_list g 0 + 2 * count_list g (h_AI_ID H) + (if t then 0 else 1) = 9"
  using count_total[of g "h_PLAYER_ID H" "h_AI_ID H"] assms by (auto simp: position_ok_def hdr_ok_def)

lemma gm_loop_ends:
  assumes H: "hdr_ok H"
  shows "position_ok H True g \<Longrightarrow> count_list g 0 + 1 \<le> 2 * length bs \<Longrightarrow>
    (\<And>b. b \<in> set bs \<Longrightarrow> int ` {..<9} \<subseteq> set b) \<Longrightarrow>
    \<exists>tr' rest. gm_loop H True g (pre @ concat bs) tr = Done tr' rest"
proof (induction bs arbitrary: g pre tr)
  case (Cons b bs)
  have "count_list g 0 \<noteq> 0" using position_zeros[OF H Cons.prems(1)] by presburger
  then have "0 \<in> set g" by (simp add: count_list_0_iff)
  then obtain i where i: "i < 9" "g ! i = 0" using Cons.prems(1) by (auto simp: position_ok_def in_set_conv_nth)
  have "int i \<in> set (pre @ b)" using Cons.prems(3)[of b] i(1) by auto
  from player_move_found[OF H i this, of "concat bs" "tr @ [BeginPlayersTurn, Send YOU_CAN_PLAY]"]
  obtain m pre' tr1 where loop: "player_move_loop H g ((pre @ b) @ concat bs) (tr @ [BeginPlayersTurn, Send YOU_CAN_PLAY])
      = Inl (m, pre' @ concat bs, tr1)" by blast
  then have get: "get_player_move H g (pre @ concat (b # bs)) (tr @ [BeginPlayersTurn]) = Inl (m, pre' @ concat bs, tr1)"
    by (simp add: get_player_move_def)
  let ?g = "g[nat m := h_PLAYER_ID H]"
  have m: "0 \<le> m" "m < 9" "g ! nat m = 0" using get_player_move_legal[OF loop H] by auto
  have pos: "position_ok H False ?g" using position_player[OF H Cons.prems(1), of "nat m"] m by simp
  show ?case
  proof (cases "win H ?g = STATE_PROGRESS")
    case False
    then show ?thesis using gm_player_step[OF get refl] by simp
  next
    case prog: True
    have "\<exists>i < 9. ?g ! i = 0" using position_progress[OF H pos] prog by blast
    then obtain j where c: "computers_turn H ?g = (int j + 1, ?g)" "j < 9" "?g ! j = 0"
      using computers_turn_legal[OF H] by blast
    have len: "j < length ?g" using pos c(2) by (simp add: position_ok_def)
    have ne: "h_PLAYER_ID H \<noteq> h_AI_ID H" using H by (simp add: hdr_ok_def)
    let ?h = "?g[j := h_AI_ID H]"
    have pos2: "position_ok H True ?h" by (rule position_ai[OF H pos c(2,3)])
    have "count_list ?h (h_AI_ID H) = count_list ?g (h_AI_ID H) + 1"
      using len c(3) H by (intro count_list_update(1)) (auto simp: hdr_ok_def)
    moreover have "count_list ?g (h_AI_ID H) = count_list g (h_AI_ID H)"
      using m ne H Cons.prems(1) by (intro count_list_update(2)) (auto simp: hdr_ok_def position_ok_def)
    ultimately have "count_list ?h 0 + 1 \<le> 2 * length bs"
      using position_zeros[OF H pos2] position_zeros[OF H Cons.prems(1)] Cons.prems(2) by simp
    from Cons.IH[OF pos2 this] Cons.prems(3)
    have ih: "\<And>pre tr. \<exists>tr' rest. gm_loop H True ?h (pre @ concat bs) tr = Done tr' rest" by simp
    show ?thesis
      using gm_player_step[OF get refl] prog gm_computer_step[OF c(1) len ne refl] ih
      by (simp add: Let_def)
  qed
qed simp

section \<open>Properties\<close>

text \<open>A header with the usual constants.\<close>

definition ttt_std :: ttt_hdr where
  "ttt_std = \<lparr>h_PLAYER_ID = 1, h_AI_ID = - 1, h_EMPTY_ID = 0, h_GRID_SIZE = 9, h_GRID_HEIGHT = 3,
     h_GRID_WIDTH = 3, h_MAX_DEPTH = 5, h_MAX_BUFFER_LENGTH = 80, h_PLAYER_SYMBOL = CHR ''X'',
     h_AI_SYMBOL = CHR ''O'', h_EMPTY_SYMBOL = CHR '' ''\<rparr>"

lemma ttt_std_ok: "hdr_ok ttt_std" "2 \<le> h_MAX_BUFFER_LENGTH ttt_std"
  by (simp_all add: hdr_ok_def ttt_std_def)



text \<open>
  C28. The game always ends: a player that goes through all the cells five times, in any order and
  with anything in between, gets the game to its end; no input makes the manager turn for ever.
\<close>

theorem game_ends:
  assumes "hdr_ok H" and "length bs = 5" and "\<forall>b \<in> set bs. int ` {..<9} \<subseteq> set b"
  shows "\<exists>tr rest. gm_game H (concat bs) = Done tr rest"
proof -
  have "count_list (replicate 9 (0 :: int)) 0 = 9" by (simp add: numeral_eq_Suc)
  then have "count_list (replicate 9 (0 :: int)) 0 + 1 \<le> 2 * length bs" using assms(2) by simp
  from gm_loop_ends[OF assms(1) position_start[OF assms(1)] this, of "[]"] assms(3)
  have "\<And>tr. \<exists>tr' rest. gm_loop H True (replicate 9 0) (concat bs) tr = Done tr' rest" by simp
  then show ?thesis
    using assms(1) by (simp add: gm_game_def init_game_def Let_def game_manager_def hdr_ok_def)
qed

theorem game_ends_witness: "\<exists>tr rest. gm_game ttt_std (concat (replicate 5 [8, 7, 6, 5, 4, 3, 2, 1, 0])) = Done tr rest"
  by (rule game_ends[OF ttt_std_ok(1)]) (auto simp: less_Suc_eq numeral_eq_Suc)

text \<open>
  Manager and player agree on the protocol: when a game on moves in the grid is complete, a
  player process that reads what the manager sent, and at which those moves are typed (as the
  numbers 1 to 9), sends exactly the moves the manager has read, in order, shows one verdict and
  ends; it never takes the end of the game for an unexpected one.
\<close>

lemma game_and_player_agree:
  assumes "hdr_ok H" and "2 \<le> h_MAX_BUFFER_LENGTH H" and "\<forall>x \<in> set moves. 0 \<le> x \<and> x < 9"
    and "gm_game H moves = Done tr rest"
  shows "\<exists>used out. moves = used @ rest \<and>
    player_loop H (sent tr) (map typed used @ ws) [] = Got () ws out \<and> sends out = used \<and>
    EndedUnexpectedly \<notin> set out \<and> last out \<in> {WinMessage, LoseMessage, DrawMessage}"
proof -
  let ?tr = "[InitialBoard, Draw (replicate 9 0) (draw_grid H (replicate 9 0)), ValidMoves, Send GAME_START]"
  have "gm_loop H True (replicate 9 0) moves ?tr = Done tr rest"
    using assms(1,4) by (simp add: gm_game_def init_game_def Let_def game_manager_def hdr_ok_def)
  from gm_loop_protocol[OF this assms(1-3) position_start[OF assms(1)]] obtain cs used b g' where
    r: "sent tr = [GAME_START] @ cs @ [verdict H b g', GAME_END]" "moves = used @ rest" "player_runs H cs used"
    by (auto simp: sent_def)
  have "player_runs H ([GAME_START] @ cs) ([] @ used)" by (rule player_runs_append[OF player_runs_start r(3)])
  then obtain out where out:
    "player_loop H (([GAME_START] @ cs) @ [verdict H b g', GAME_END]) (map typed ([] @ used) @ ws) [] =
       player_loop H [verdict H b g', GAME_END] ws ([] @ out)" "sends out = [] @ used" "EndedUnexpectedly \<notin> set out"
    unfolding player_runs_def by blast
  have "\<exists>m. player_loop H [verdict H b g', GAME_END] ws ([] @ out) = Got () ws (out @ [m]) \<and>
      m \<in> {WinMessage, LoseMessage, DrawMessage}"
    using verdict_end[of H b g'] by auto
  then obtain m where m: "player_loop H (sent tr) (map typed used @ ws) [] = Got () ws (out @ [m])"
      "m \<in> {WinMessage, LoseMessage, DrawMessage}" using out(1) r(1) by auto
  then have "sends (out @ [m]) = used" "EndedUnexpectedly \<notin> set (out @ [m])" using out by (auto simp: sends_def)
  then show ?thesis using m r(2) by (intro exI[of _ used] exI[of _ "out @ [m]"]) simp
qed

text \<open>
  The computer does not look ahead. \<open>minmax\<close> never asks whether the game is won, so every
  score is 0, at any depth and on any grid, and the grid comes back as it was; the computer's
  move is the first empty cell.
\<close>

theorem computer_plays_first_empty:
  assumes "hdr_ok H"
  shows "minmax H depth player g = (0, g) \<and>
    computers_turn H g = (case find (\<lambda>i. g ! i = 0) [0..<9] of None \<Rightarrow> (0, g) | Some i \<Rightarrow> (int i + 1, g))"
  using minmax_blind(1)[OF assms] computers_turn_find[OF assms] by blast

theorem computer_plays_first_empty_witness:
  "computers_turn ttt_std [1, 1, 0, - 1, - 1, 0, 0, 0, 0] = (3, [1, 1, 0, - 1, - 1, 0, 0, 0, 0])"
  using computer_plays_first_empty[OF ttt_std_ok(1), of 0 0 "[1, 1, 0, - 1, - 1, 0, 0, 0, 0]"]
  by (simp add: upt_rec)

text \<open>
  The lines \<open>win\<close> knows: the rows and the columns for both sides, the cells 0, 4 and 5 for both
  sides instead of the diagonal 0, 4, 8, the diagonal 2, 4, 6 for the player, and the cells 2, 5 and
  6 for the computer instead of it. A draw is a full grid with no such line.
\<close>

theorem win_lines:
  assumes "hdr_ok H" and "position_ok H t g"
  shows "(win H g = STATE_WIN \<longleftrightarrow>
      (\<exists>v \<in> {h_PLAYER_ID H, h_AI_ID H}.
         three g v 0 1 2 \<or> three g v 3 4 5 \<or> three g v 6 7 8 \<or> three g v 0 3 6 \<or> three g v 1 4 7 \<or>
         three g v 2 5 8 \<or> three g v 0 4 5) \<or>
      three g (h_PLAYER_ID H) 2 4 6 \<or> three g (h_AI_ID H) 2 5 6) \<and>
    (win H g = STATE_DRAW \<longleftrightarrow> win H g \<noteq> STATE_WIN \<and> 0 \<notin> set g)"
proof -
  have c: "cell_left H g = 0 \<longleftrightarrow> 0 \<notin> set g"
    using cell_left_count[OF assms] by (simp add: count_list_0_iff)
  show ?thesis unfolding win_def Let_def c by (simp only: split: if_splits) blast
qed

text \<open>The player holds the diagonal 0, 4, 8 and the game goes on.\<close>

theorem win_lines_witness:
  "win ttt_std [1, - 1, - 1, 0, 1, 0, 0, 0, 1] \<noteq> STATE_WIN"
proof -
  have p: "position_ok ttt_std False [1, - 1, - 1, 0, 1, 0, 0, 0, 1]"
    by (simp add: position_ok_def ttt_std_def)
  show ?thesis using win_lines[OF ttt_std_ok(1) p] by (simp add: three_def ttt_std_def)
qed

text \<open>
  \<open>parse_line\<close> accepts exactly the strings of digits, shorter than the buffer, whose value
  is 1 to 9, and gives the cell number less one; every other line is refused, save that a string of
  digits beyond the range of \<open>int\<close> leaves the result to \<open>atoi\<close>.
\<close>

theorem parse_line_correct:
  "parse_line H s =
    (if s = [] \<or> (\<exists>c \<in> set s. \<not> isdigit c) \<or> h_MAX_BUFFER_LENGTH H \<le> length s then Some None
     else if 2 ^ 31 \<le> digits_val 0 s then None
     else if digits_val 0 s \<in> {1..9} then Some (Some (int (digits_val 0 s) - 1)) else Some None)"
proof -
  consider (empty) "s = []" | (bad) "s \<noteq> []" "\<exists>c \<in> set s. \<not> isdigit c" | (long) "s \<noteq> []" "h_MAX_BUFFER_LENGTH H \<le> length s"
    | (digits) "s \<noteq> []" "\<And>c. c \<in> set s \<Longrightarrow> isdigit c" "length s < h_MAX_BUFFER_LENGTH H"
    by (meson not_less)
  then show ?thesis
  proof cases
    case empty
    then show ?thesis by (simp add: parse_line_def)
  next
    case bad
    then show ?thesis using parse_loop_bad[OF bad(2)] by (simp add: parse_line_def)
  next
    case long
    then show ?thesis using parse_loop_long[OF long(2)] by (simp add: parse_line_def)
  next
    case digits
    obtain k where k: "h_MAX_BUFFER_LENGTH H - length s = Suc k" using digits(3) by (metis Suc_diff_Suc)
    have "parse_line H s = parse_loop (Suc k) [] s"
      using parse_loop_digits[OF digits(2,3), of "[]"] digits(1) k by (simp add: parse_line_def)
    moreover have "atoi s = int (digits_val 0 s)" by (rule atoi_digits[OF digits(2)])
    ultimately show ?thesis using digits by (auto simp: Let_def not_le)
  qed
qed

end
