(* ===== verification/Mmu.thy ===== *)
theory Mmu
  imports Prelude "HOL-Library.Monad_Syntax"
begin

unbundle bit_operations_syntax

text \<open>
  The page tables of the kernel, \<open>so3/arch/arm32/mmu.c\<close>: mapping and unmapping of ranges, root
  tables, the copy of a user space and the translation of an address. A first-level table has
  one entry for each megabyte: 0, a section, or the address of a second-level table with one entry
  for each page.
\<close>

section \<open>State and environment\<close>

text \<open>Cache, TLB and other effects outside the tables, in order.\<close>

datatype mmu_op =
    TableFlush addr addr
  | EntryFlush addr
  | TlbInval
  | IcacheInval
  | DcacheFlush
  | CachesOff
  | CachesOn
  | MmuSetup addr
  | MmuSwitch addr
  | PageAdded addr
  | DumpHeader
  | DumpSection nat u32
  | DumpTable nat u32
  | DumpPage nat nat u32

text \<open>
  The words of memory that hold page tables, by virtual address, the bytes of physical memory
  that programs use, the kernel heap, the system's root table and the current one.
\<close>

record 'h mmu =
  m_mem :: "addr \<Rightarrow> u32"
  m_phys :: "addr \<Rightarrow> u8"
  m_heap :: 'h
  m_sys_root :: addr
  m_current :: addr
  m_ops :: "mmu_op list"

text \<open>
  What the file takes from headers that are not in the repository (\<open>asm/mmu.h\<close>, \<open>memory.h\<close>, the
  configuration) and from the kernel heap and the frame allocator. The macros that read an entry
  through its address get the entry.
\<close>

record 'h mmu_env =
  me_PAGE_SIZE :: u32
  me_PAGE_SHIFT :: nat
  me_PAGE_MASK :: u32
  me_SECT_SIZE :: u32
  me_SECT_MASK :: u32
  me_L1_ENTRIES :: nat
  me_L2_ENTRIES :: nat
  me_L1_SIZE :: u32
  me_L1_ORDER :: nat
  me_L1_PAGE_ADDR_MASK :: u32
  me_L1_SECT_ADDR_MASK :: u32
  me_L2_ADDR_MASK :: u32
  me_TTBR0_BASE_ADDR_MASK :: u32
  me_SZ_1K :: u32
  me_SZ_16K :: u32
  me_RAM_BASE :: addr
  me_KERNEL_VADDR :: addr
  me_UART_LL_PADDR :: addr
  me_L1_SYS_OFFSET :: addr
  me_FIXMAP_MAPPING :: addr
  me_RAMDEV_VADDR :: addr
  me_valid_ramdev :: bool
  me_ALIGN_UP :: "u32 \<Rightarrow> u32 \<Rightarrow> u32"
  me_va :: "u32 \<Rightarrow> addr"
  me_pa :: "addr \<Rightarrow> u32"
  me_l1pte_index :: "addr \<Rightarrow> nat"
  me_l1pte_offset :: "addr \<Rightarrow> addr \<Rightarrow> addr"
  me_l2pte_offset :: "u32 \<Rightarrow> addr \<Rightarrow> addr"
  me_l2pte_first :: "u32 \<Rightarrow> addr"
  me_l1pte_is_sect :: "u32 \<Rightarrow> bool"
  me_l1sect_addr_end :: "addr \<Rightarrow> addr \<Rightarrow> addr"
  me_pte_index_to_vaddr :: "nat \<Rightarrow> nat \<Rightarrow> addr"
  me_set_l1_page :: "bool \<Rightarrow> u32 \<Rightarrow> u32"
  me_set_l1_sect :: "bool \<Rightarrow> u32 \<Rightarrow> u32"
  me_set_l2 :: "bool \<Rightarrow> u32 \<Rightarrow> u32"
  me_memalign :: "u32 \<Rightarrow> u32 \<Rightarrow> 'h \<Rightarrow> addr \<times> 'h"
  me_free :: "addr \<Rightarrow> 'h \<Rightarrow> 'h"
  me_get_free_page :: "'h \<Rightarrow> addr \<times> 'h"
  me_malloc_node :: "'h \<Rightarrow> 'h option"

definition op :: "mmu_op \<Rightarrow> 'h mmu \<Rightarrow> 'h mmu" where
  "op x s = s\<lparr>m_ops := m_ops s @ [x]\<rparr>"

text \<open>The address of entry \<open>i\<close> of a table, and the store to an entry.\<close>

definition ent :: "addr \<Rightarrow> nat \<Rightarrow> addr" where
  "ent t i = t + 4 * of_nat i"

definition store :: "addr \<Rightarrow> u32 \<Rightarrow> 'h mmu \<Rightarrow> 'h mmu" where
  "store a w s = s\<lparr>m_mem := (m_mem s)(a := w)\<rparr>"

text \<open>\<open>memset(t, 0, 4 * n)\<close>, and \<open>memcpy\<close> of \<open>n\<close> entries.\<close>

definition clear_words :: "addr \<Rightarrow> nat \<Rightarrow> 'h mmu \<Rightarrow> 'h mmu" where
  "clear_words t n s = fold (\<lambda>i. store (ent t i) 0) [0..<n] s"

definition copy_words :: "addr \<Rightarrow> addr \<Rightarrow> nat \<Rightarrow> nat \<Rightarrow> 'h mmu \<Rightarrow> 'h mmu" where
  "copy_words dst src i n s = fold (\<lambda>i s. store (ent dst i) (m_mem s (ent src i)) s) [i..<n] s"

text \<open>A null \<open>pgtable\<close> stands for the system page table.\<close>

definition the_table :: "addr \<Rightarrow> 'h mmu \<Rightarrow> addr" where
  "the_table t s = (if t = NULL then m_sys_root s else t)"

section \<open>Mapping\<close>

text \<open>
  The \<open>do ... while (addr != end)\<close> loops run until they meet \<open>end\<close>: not returning is \<open>None\<close>.
\<close>

partial_function (option) init_pte_loop ::
  "'h mmu_env \<Rightarrow> bool \<Rightarrow> addr \<Rightarrow> addr \<Rightarrow> addr \<Rightarrow> u32 \<Rightarrow> 'h mmu \<Rightarrow> 'h mmu option" where
  "init_pte_loop E nocache l2pte addr end pfn s =
     (let s1 = store l2pte (me_set_l2 E nocache (push_bit (me_PAGE_SHIFT E) pfn)) s;
          addr' = addr + me_PAGE_SIZE E
      in if addr' = end then Some s1 else init_pte_loop E nocache (l2pte + 4) addr' end (pfn + 1) s1)"

definition alloc_init_pte ::
  "'h mmu_env \<Rightarrow> addr \<Rightarrow> addr \<Rightarrow> addr \<Rightarrow> u32 \<Rightarrow> bool \<Rightarrow> 'h mmu \<Rightarrow> 'h mmu option" where
  "alloc_init_pte E l1pte addr end pfn nocache s = do {
     s1 \<leftarrow> (if m_mem s l1pte = 0
       then (case me_memalign E (of_nat (me_L2_ENTRIES E) * 4) (me_SZ_1K E) (m_heap s) of (t, h) \<Rightarrow>
              if t = NULL then None
              else Some (store l1pte (me_set_l1_page E nocache (me_pa E t))
                          (clear_words t (me_L2_ENTRIES E) (s\<lparr>m_heap := h\<rparr>))))
       else Some s);
     let l2pgtable = me_va E (m_mem s1 l1pte AND me_L1_PAGE_ADDR_MASK E);
     s2 \<leftarrow> init_pte_loop E nocache (me_l2pte_offset E (m_mem s1 l1pte) addr) addr end pfn s1;
     Some (op (TableFlush l2pgtable (ent l2pgtable (me_L2_ENTRIES E))) s2) }"

partial_function (option) init_section_loop ::
  "'h mmu_env \<Rightarrow> bool \<Rightarrow> addr \<Rightarrow> addr \<Rightarrow> addr \<Rightarrow> addr \<Rightarrow> 'h mmu \<Rightarrow> 'h mmu option" where
  "init_section_loop E nocache l1pte addr end phys s =
     (let s1 = store l1pte (me_set_l1_sect E nocache phys) s;
          addr' = addr + me_SECT_SIZE E
      in if addr' = end then Some s1
         else init_section_loop E nocache (l1pte + 4) addr' end (phys + me_SECT_SIZE E) s1)"

definition alloc_init_section ::
  "'h mmu_env \<Rightarrow> addr \<Rightarrow> addr \<Rightarrow> addr \<Rightarrow> addr \<Rightarrow> bool \<Rightarrow> 'h mmu \<Rightarrow> 'h mmu option" where
  "alloc_init_section E l1pte addr end phys nocache s =
     (if (addr OR end OR phys) AND NOT (me_SECT_MASK E) = 0
      then init_section_loop E nocache l1pte addr end phys s
      else alloc_init_pte E l1pte addr end (drop_bit (me_PAGE_SHIFT E) phys) nocache s)"

partial_function (option) mapping_loop ::
  "'h mmu_env \<Rightarrow> bool \<Rightarrow> addr \<Rightarrow> addr \<Rightarrow> addr \<Rightarrow> addr \<Rightarrow> 'h mmu \<Rightarrow> 'h mmu option" where
  "mapping_loop E nocache l1pte addr end phys_base s =
     (let next = me_l1sect_addr_end E addr end in
      Option.bind (alloc_init_section E l1pte addr next phys_base nocache s) (\<lambda>s1.
        if next = end then Some s1
        else mapping_loop E nocache (l1pte + 4) next end (phys_base + (next - addr)) s1))"

definition page_span :: "'h mmu_env \<Rightarrow> addr \<Rightarrow> u32 \<Rightarrow> addr \<times> addr" where
  "page_span E virt_base sz =
     (let addr = virt_base AND me_PAGE_MASK E;
          len = me_ALIGN_UP E (sz + (virt_base AND NOT (me_PAGE_MASK E))) (me_PAGE_SIZE E)
      in (addr, addr + len))"

definition create_mapping ::
  "'h mmu_env \<Rightarrow> addr \<Rightarrow> addr \<Rightarrow> addr \<Rightarrow> u32 \<Rightarrow> bool \<Rightarrow> 'h mmu \<Rightarrow> 'h mmu option" where
  "create_mapping E l1pgtable virt_base phys_base sz nocache s =
     (let t = the_table l1pgtable s; (addr, end) = page_span E virt_base sz in
      Option.bind (mapping_loop E nocache (me_l1pte_offset E t addr) addr end phys_base s) (\<lambda>s1.
        Some (if t = m_sys_root s then op TlbInval s1 else s1)))"

definition ramdev_create_mapping ::
  "'h mmu_env \<Rightarrow> addr \<Rightarrow> addr \<Rightarrow> addr \<Rightarrow> 'h mmu \<Rightarrow> 'h mmu option" where
  "ramdev_create_mapping E root ramdev_start ramdev_end s =
     (if me_valid_ramdev E
      then create_mapping E root (me_RAMDEV_VADDR E) ramdev_start (ramdev_end - ramdev_start) False s
      else Some s)"

section \<open>Unmapping\<close>

partial_function (option) clear_loop :: "u32 \<Rightarrow> addr \<Rightarrow> addr \<Rightarrow> addr \<Rightarrow> 'h mmu \<Rightarrow> (addr \<times> 'h mmu) option" where
  "clear_loop step pte addr end s =
     (let s1 = store pte 0 s; addr' = addr + step
      in if addr' = end then Some (pte + 4, s1) else clear_loop step (pte + 4) addr' end s1)"

text \<open>
  \<open>free_l2_mapping\<close>: the entries of the range are cleared, and the table is freed when no
  entry of it is left.
\<close>

definition free_l2_mapping :: "'h mmu_env \<Rightarrow> addr \<Rightarrow> addr \<Rightarrow> addr \<Rightarrow> 'h mmu \<Rightarrow> 'h mmu option" where
  "free_l2_mapping E l1pte addr end s = do {
     let pgtable = me_l2pte_first E (m_mem s l1pte);
     (_, s1) \<leftarrow> clear_loop (me_PAGE_SIZE E) (me_l2pte_offset E (m_mem s l1pte) addr) addr end s;
     let s2 = op (TableFlush pgtable (ent pgtable (me_L2_ENTRIES E))) s1;
     let l2pte = me_l2pte_first E (m_mem s2 l1pte);
     let found = (\<exists>i \<in> set [0..<me_L2_ENTRIES E]. m_mem s2 (ent l2pte i) \<noteq> 0);
     Some (if found then s2
           else op (EntryFlush l1pte) (store l1pte 0 (s2\<lparr>m_heap := me_free E l2pte (m_heap s2)\<rparr>))) }"

definition free_l1_mapping :: "'h mmu_env \<Rightarrow> addr \<Rightarrow> addr \<Rightarrow> addr \<Rightarrow> 'h mmu \<Rightarrow> 'h mmu option" where
  "free_l1_mapping E l1pte addr end s =
     (if (addr OR end) AND NOT (me_SECT_MASK E) = 0
      then Option.bind (clear_loop (me_SECT_SIZE E) l1pte addr end s) (\<lambda>(l1pte', s1).
             Some (op (TableFlush l1pte l1pte') s1))
      else free_l2_mapping E l1pte addr end s)"

partial_function (option) release_loop ::
  "'h mmu_env \<Rightarrow> addr \<Rightarrow> addr \<Rightarrow> addr \<Rightarrow> 'h mmu \<Rightarrow> 'h mmu option" where
  "release_loop E l1pte addr end s =
     (let next = me_l1sect_addr_end E addr end in
      Option.bind (free_l1_mapping E l1pte addr next s) (\<lambda>s1.
        if next = end then Some s1 else release_loop E (l1pte + 4) next end s1))"

definition release_mapping :: "'h mmu_env \<Rightarrow> addr \<Rightarrow> addr \<Rightarrow> u32 \<Rightarrow> 'h mmu \<Rightarrow> 'h mmu option" where
  "release_mapping E pgtable virt_base sz s =
     (let t = the_table pgtable s; (addr, end) = page_span E virt_base sz in
      release_loop E (me_l1pte_offset E t addr) addr end s)"

section \<open>Root tables\<close>

text \<open>\<open>mmu_configure\<close>: the first table, with the MMU off.\<close>

definition map_section :: "'h mmu_env \<Rightarrow> addr \<Rightarrow> nat \<Rightarrow> addr \<Rightarrow> bool \<Rightarrow> 'h mmu \<Rightarrow> 'h mmu" where
  "map_section E t i phys nocache s = store (ent t i) (me_set_l1_sect E nocache phys) s"

definition mmu_configure :: "'h mmu_env \<Rightarrow> addr \<Rightarrow> addr \<Rightarrow> 'h mmu \<Rightarrow> 'h mmu" where
  "mmu_configure E l1pgtable fdt_addr s =
     (let s1 = clear_words l1pgtable 4096 (op CachesOff s);
          s2 = map_section E l1pgtable (me_l1pte_index E (me_RAM_BASE E)) (me_RAM_BASE E) False s1;
          s3 = fold (\<lambda>i. map_section E l1pgtable (me_l1pte_index E (me_KERNEL_VADDR E) + i)
                       (me_RAM_BASE E + of_nat i * me_SECT_SIZE E) False) [0..<64] s2;
          s4 = map_section E l1pgtable (me_l1pte_index E fdt_addr) fdt_addr False s3;
          s5 = map_section E l1pgtable (me_l1pte_index E (me_UART_LL_PADDR E)) (me_UART_LL_PADDR E) True s4
      in (op CachesOn (op (MmuSetup l1pgtable) s5))\<lparr>m_sys_root := me_KERNEL_VADDR E + me_L1_SYS_OFFSET E\<rparr>)"

definition clear_l1pte :: "'h mmu_env \<Rightarrow> addr \<Rightarrow> addr \<Rightarrow> 'h mmu \<Rightarrow> 'h mmu" where
  "clear_l1pte E l1pgtable vaddr s =
     (let l1pte = me_l1pte_offset E (the_table l1pgtable s) vaddr
      in op (EntryFlush l1pte) (store l1pte 0 s))"

definition pgtable_copy_kernel_area :: "'h mmu_env \<Rightarrow> addr \<Rightarrow> 'h mmu \<Rightarrow> 'h mmu" where
  "pgtable_copy_kernel_area E l1pgtable s =
     op (TableFlush l1pgtable (ent l1pgtable (me_L1_ENTRIES E)))
       (copy_words l1pgtable (m_sys_root s) (me_l1pte_index E (me_KERNEL_VADDR E)) (me_L1_ENTRIES E) s)"

definition new_root_pgtable :: "'h mmu_env \<Rightarrow> 'h mmu \<Rightarrow> (addr \<times> 'h mmu) option" where
  "new_root_pgtable E s =
     (case me_memalign E (4 * of_nat (me_L1_ENTRIES E)) (me_SZ_16K E) (m_heap s) of (t, h) \<Rightarrow>
        if t = NULL then None else Some (t, clear_words t (me_L1_ENTRIES E) (s\<lparr>m_heap := h\<rparr>)))"

definition copy_root_pgtable :: "'h mmu_env \<Rightarrow> addr \<Rightarrow> addr \<Rightarrow> 'h mmu \<Rightarrow> 'h mmu" where
  "copy_root_pgtable E dst src s = copy_words dst src 0 (unat (me_L1_SIZE E) div 4) s"

definition reset_entry :: "'h mmu_env \<Rightarrow> addr \<Rightarrow> nat \<Rightarrow> 'h mmu \<Rightarrow> 'h mmu" where
  "reset_entry E pgtable i s =
     (let l1pte = ent pgtable i; e = m_mem s l1pte in
      if e = 0 then s
      else let s1 = (if me_l1pte_is_sect E e then s
                     else let l2pte = me_va E (e AND me_L1_PAGE_ADDR_MASK E)
                          in op (EntryFlush l2pte) (s\<lparr>m_heap := me_free E l2pte (m_heap s)\<rparr>))
        in store l1pte 0 s1)"

definition reset_root_pgtable :: "'h mmu_env \<Rightarrow> addr \<Rightarrow> bool \<Rightarrow> 'h mmu \<Rightarrow> 'h mmu" where
  "reset_root_pgtable E pgtable remove s =
     (let s1 = fold (reset_entry E pgtable) [0..<me_l1pte_index E (me_KERNEL_VADDR E)] s;
          s2 = (if remove then s1\<lparr>m_heap := me_free E pgtable (m_heap s1)\<rparr> else s1)
      in op (TableFlush pgtable (pgtable + of_nat (me_L1_ENTRIES E))) s2)"

definition mmu_switch :: "'h mmu_env \<Rightarrow> addr \<Rightarrow> 'h mmu \<Rightarrow> 'h mmu option" where
  "mmu_switch E l1pgtable s =
     (let s1 = op DcacheFlush s in
      if me_pa E l1pgtable AND NOT (me_TTBR0_BASE_ADDR_MASK E) \<noteq> 0 then None
      else Some (op TlbInval (op IcacheInval (op (MmuSwitch (me_pa E l1pgtable)) s1))))"

section \<open>What the tables mean\<close>

text \<open>The two indices of an address.\<close>

definition l2_table :: "'h mmu_env \<Rightarrow> u32 \<Rightarrow> addr" where
  "l2_table E e = me_va E (e AND me_L1_PAGE_ADDR_MASK E)"

definition i1 :: "addr \<Rightarrow> nat" where "i1 v = unat v div 2 ^ 20"
definition i2 :: "addr \<Rightarrow> nat" where "i2 v = unat v div 2 ^ 12 mod 256"

text \<open>
  The translation of an address through a root table, as the processor does it: the
  specification of what the tables mean.
\<close>

definition translate :: "'h mmu_env \<Rightarrow> addr \<Rightarrow> 'h mmu \<Rightarrow> addr \<Rightarrow> addr option" where
  "translate E root s v =
     (let e = m_mem s (ent root (i1 v)); w = m_mem s (ent (l2_table E e) (i2 v)) in
      if e = 0 then None
      else if me_l1pte_is_sect E e then Some ((e AND NOT (mask 20)) OR (v AND mask 20))
      else if w = 0 then None
      else Some ((w AND NOT (mask 12)) OR (v AND mask 12)))"

text \<open>
  The loads and stores of bytes through the current table; an address without a translation
  faults.
\<close>

definition load_byte :: "'h mmu_env \<Rightarrow> addr \<Rightarrow> 'h mmu \<Rightarrow> u8 option" where
  "load_byte E v s = map_option (m_phys s) (translate E (m_current s) s v)"

definition store_byte :: "'h mmu_env \<Rightarrow> addr \<Rightarrow> u8 \<Rightarrow> 'h mmu \<Rightarrow> 'h mmu option" where
  "store_byte E v b s = map_option (\<lambda>p. s\<lparr>m_phys := (m_phys s)(p := b)\<rparr>) (translate E (m_current s) s v)"

fun memcpy :: "'h mmu_env \<Rightarrow> addr \<Rightarrow> addr \<Rightarrow> nat \<Rightarrow> 'h mmu \<Rightarrow> 'h mmu option" where
  "memcpy E dst src 0 s = Some s"
| "memcpy E dst src (Suc n) s = do {
     s1 \<leftarrow> memcpy E dst src n s;
     b \<leftarrow> load_byte E (src + of_nat n) s1;
     store_byte E (dst + of_nat n) b s1 }"

section \<open>Copying a user space\<close>

text \<open>
  One page: a frame of its own, mapped at a fixed place of the current table, gets a copy. Adding it
  to the page list of the child (\<open>add_page_to_proc\<close> of \<open>process.c\<close>) takes a node from the heap and is
  recorded.
\<close>

definition dup_page ::
  "'h mmu_env \<Rightarrow> addr \<Rightarrow> addr \<Rightarrow> nat \<Rightarrow> nat \<Rightarrow> 'h mmu \<Rightarrow> 'h mmu option" where
  "dup_page E l2pgtable l2pgtable_dst i j s =
     (if m_mem s (ent l2pgtable j) = 0 then Some s
      else case me_get_free_page E (m_heap s) of (paddr, h) \<Rightarrow>
        if paddr = 0 then None
        else do {
          h1 \<leftarrow> me_malloc_node E h;
          s1 \<leftarrow> create_mapping E (m_current s) (me_FIXMAP_MAPPING E) paddr (me_PAGE_SIZE E) False
                 (op (PageAdded paddr) (s\<lparr>m_heap := h1\<rparr>));
          let s2 = store (ent l2pgtable_dst j) (me_set_l2 E False paddr) s1;
          memcpy E (me_FIXMAP_MAPPING E) (me_pte_index_to_vaddr E i j) (unat (me_PAGE_SIZE E)) s2 })"

fun dup_pages :: "'h mmu_env \<Rightarrow> addr \<Rightarrow> addr \<Rightarrow> nat \<Rightarrow> nat list \<Rightarrow> 'h mmu \<Rightarrow> 'h mmu option" where
  "dup_pages E l2 l2_dst i [] s = Some s"
| "dup_pages E l2 l2_dst i (j # js) s = do { s1 \<leftarrow> dup_page E l2 l2_dst i j s; dup_pages E l2 l2_dst i js s1 }"

definition dup_entry :: "'h mmu_env \<Rightarrow> addr \<Rightarrow> addr \<Rightarrow> nat \<Rightarrow> 'h mmu \<Rightarrow> 'h mmu option" where
  "dup_entry E from_table to_table i s =
     (let e = m_mem s (ent from_table i) in
      if e = 0 then Some s
      else if me_l1pte_is_sect E e then None
      else case me_memalign E (of_nat (me_L2_ENTRIES E) * 4) (me_SZ_1K E) (m_heap s) of (t, h) \<Rightarrow>
        if t = NULL then None
        else let s1 = store (ent to_table i) (me_set_l1_page E False (me_pa E t))
                        (clear_words t (me_L2_ENTRIES E) (s\<lparr>m_heap := h\<rparr>))
             in dup_pages E (me_va E (m_mem s1 (ent from_table i) AND me_L1_PAGE_ADDR_MASK E)) t i [0..<256] s1)"

fun dup_entries :: "'h mmu_env \<Rightarrow> addr \<Rightarrow> addr \<Rightarrow> nat list \<Rightarrow> 'h mmu \<Rightarrow> 'h mmu option" where
  "dup_entries E from_table to_table [] s = Some s"
| "dup_entries E from_table to_table (i # js) s =
     do { s1 \<leftarrow> dup_entry E from_table to_table i s; dup_entries E from_table to_table js s1 }"

definition duplicate_user_space :: "'h mmu_env \<Rightarrow> addr \<Rightarrow> addr \<Rightarrow> 'h mmu \<Rightarrow> 'h mmu option" where
  "duplicate_user_space E from_table to_table s = do {
     s1 \<leftarrow> dup_entries E from_table to_table [0..<me_l1pte_index E (me_KERNEL_VADDR E)] s;
     release_mapping E (m_current s1) (me_FIXMAP_MAPPING E) (me_PAGE_SIZE E) s1 }"

section \<open>Translation and dump\<close>

definition virt_to_phys_pt :: "'h mmu_env \<Rightarrow> addr \<Rightarrow> 'h mmu \<Rightarrow> addr option" where
  "virt_to_phys_pt E vaddr s =
     (let e = m_mem s (me_l1pte_offset E (m_current s) vaddr);
          offset = vaddr AND NOT (me_PAGE_MASK E)
      in if e = 0 then None
         else if me_l1pte_is_sect E e then Some ((e AND me_L1_SECT_ADDR_MASK E) OR offset)
         else Some ((m_mem s (me_l2pte_offset E e vaddr) AND me_L2_ADDR_MASK E) OR offset))"

definition do_translate :: "'h mmu_env \<Rightarrow> addr \<Rightarrow> 'h mmu \<Rightarrow> addr option" where
  "do_translate E vaddr s = virt_to_phys_pt E vaddr s"

text \<open>
  \<open>dump_pgtable\<close>: the table to walk is taken from the argument before the test for \<open>NULL\<close>, which
  therefore has no effect on it.
\<close>

definition dump_entry :: "'h mmu_env \<Rightarrow> addr \<Rightarrow> nat \<Rightarrow> 'h mmu \<Rightarrow> 'h mmu" where
  "dump_entry E t i s =
     (let e = m_mem s (ent t i) in
      if e = 0 then s
      else if me_l1pte_is_sect E e then op (DumpSection i e) s
      else fold (\<lambda>j s. let w = m_mem s (ent (me_va E (e AND me_L1_PAGE_ADDR_MASK E)) j)
                 in if w = 0 then s else op (DumpPage i j w) s) [0..<256] (op (DumpTable i e) s))"

definition dump_pgtable :: "'h mmu_env \<Rightarrow> addr \<Rightarrow> 'h mmu \<Rightarrow> 'h mmu" where
  "dump_pgtable E l1pgtable s = fold (dump_entry E l1pgtable) [0..<me_L1_ENTRIES E] (op DumpHeader s)"

definition dump_current_pgtable :: "'h mmu_env \<Rightarrow> 'h mmu \<Rightarrow> 'h mmu" where
  "dump_current_pgtable E s = dump_pgtable E (m_current s) s"

section \<open>The format of the tables\<close>

text \<open>
  The ARM short-descriptor format, as the headers define it: 4 KB pages and 1 MB sections, 4096 and
  256 entries of four bytes, the index of an address in both levels, the end of its megabyte; setting
  the attributes of an entry makes it a valid entry of its kind and keeps its address; the physical
  address of an aligned heap block fits the address field of an entry.
\<close>

definition arm_format :: "'h mmu_env \<Rightarrow> bool" where
  "arm_format E \<longleftrightarrow>
     me_PAGE_SIZE E = 0x1000 \<and> me_PAGE_SHIFT E = 12 \<and> me_PAGE_MASK E = NOT (mask 12) \<and>
     me_SECT_SIZE E = 0x100000 \<and> me_SECT_MASK E = NOT (mask 20) \<and>
     me_L1_ENTRIES E = 4096 \<and> me_L2_ENTRIES E = 256 \<and>
     me_L1_SECT_ADDR_MASK E = NOT (mask 20) \<and> me_L2_ADDR_MASK E = NOT (mask 12) \<and>
     (\<forall>x. me_ALIGN_UP E x 0x1000 = (x + 0xfff) AND NOT (mask 12)) \<and>
     (\<forall>v. me_l1pte_index E v = i1 v) \<and> (\<forall>t v. me_l1pte_offset E t v = ent t (i1 v)) \<and>
     (\<forall>e. me_l2pte_first E e = l2_table E e) \<and> (\<forall>e v. me_l2pte_offset E e v = ent (l2_table E e) (i2 v)) \<and>
     (\<forall>a e. me_l1sect_addr_end E a e =
        (let b = (a + 0x100000) AND NOT (mask 20) in if b - 1 < e - 1 then b else e)) \<and>
     (\<forall>nc e. me_set_l1_page E nc e \<noteq> 0 \<and> \<not> me_l1pte_is_sect E (me_set_l1_page E nc e) \<and>
        me_set_l1_page E nc e AND me_L1_PAGE_ADDR_MASK E = e AND me_L1_PAGE_ADDR_MASK E) \<and>
     (\<forall>nc e. me_set_l1_sect E nc e \<noteq> 0 \<and> me_l1pte_is_sect E (me_set_l1_sect E nc e) \<and>
        me_set_l1_sect E nc e AND NOT (mask 20) = e AND NOT (mask 20)) \<and>
     (\<forall>nc e. me_set_l2 E nc e \<noteq> 0 \<and> me_set_l2 E nc e AND NOT (mask 12) = e AND NOT (mask 12)) \<and>
     (\<forall>n h. fst (me_memalign E n (me_SZ_1K E) h) \<noteq> NULL \<longrightarrow>
        l2_table E (me_pa E (fst (me_memalign E n (me_SZ_1K E) h))) = fst (me_memalign E n (me_SZ_1K E) h))"

text \<open>
  Two tables share no entry; the tables of a root are well formed when its second-level tables
  share no entry with the root nor with each other.
\<close>

definition apart :: "addr \<Rightarrow> nat \<Rightarrow> addr \<Rightarrow> nat \<Rightarrow> bool" where
  "apart t n u k \<longleftrightarrow> (\<forall>i < n. \<forall>j < k. ent t i \<noteq> ent u j)"

definition has_l2 :: "'h mmu_env \<Rightarrow> addr \<Rightarrow> 'h mmu \<Rightarrow> nat \<Rightarrow> bool" where
  "has_l2 E root s i \<longleftrightarrow> i < 4096 \<and> m_mem s (ent root i) \<noteq> 0 \<and> \<not> me_l1pte_is_sect E (m_mem s (ent root i))"

definition l2_of :: "'h mmu_env \<Rightarrow> addr \<Rightarrow> 'h mmu \<Rightarrow> nat \<Rightarrow> addr" where
  "l2_of E root s i = l2_table E (m_mem s (ent root i))"

definition tables_ok :: "'h mmu_env \<Rightarrow> addr \<Rightarrow> 'h mmu \<Rightarrow> bool" where
  "tables_ok E root s \<longleftrightarrow>
     (\<forall>i. has_l2 E root s i \<longrightarrow> apart root 4096 (l2_of E root s i) 256) \<and>
     (\<forall>i j. has_l2 E root s i \<longrightarrow> has_l2 E root s j \<longrightarrow> i \<noteq> j \<longrightarrow>
        apart (l2_of E root s i) 256 (l2_of E root s j) 256)"

definition fresh_table :: "'h mmu_env \<Rightarrow> addr \<Rightarrow> 'h mmu \<Rightarrow> addr \<Rightarrow> bool" where
  "fresh_table E root s t \<longleftrightarrow>
     apart root 4096 t 256 \<and> (\<forall>i. has_l2 E root s i \<longrightarrow> apart (l2_of E root s i) 256 t 256)"

section \<open>Entries\<close>

lemma ent_0 [simp]: "ent t 0 = t"
  by (simp add: ent_def)

lemma ent_Suc: "ent (t + 4) i = ent t (Suc i)"
  by (simp add: ent_def algebra_simps)

lemma ent_add: "ent (ent t i) j = ent t (i + j)"
  by (simp add: ent_def algebra_simps)

lemma ent_inj: "i < 2 ^ 30 \<Longrightarrow> j < 2 ^ 30 \<Longrightarrow> ent t i = ent t j \<longleftrightarrow> i = j"
proof
  assume b: "i < 2 ^ 30" "j < 2 ^ 30" and eq: "ent t i = ent t j"
  have "(of_nat (4 * i) :: addr) = of_nat (4 * j)" using eq by (simp add: ent_def)
  then have "unat (of_nat (4 * i) :: addr) = unat (of_nat (4 * j) :: addr)" by (rule arg_cong)
  then show "i = j" using b by (simp add: unat_of_nat_u32 del: of_nat_mult)
qed simp

lemma apart_sym: "apart t n u k \<longleftrightarrow> apart u k t n"
  unfolding apart_def by metis

lemma apartD: "apart t n u k \<Longrightarrow> i < n \<Longrightarrow> j < k \<Longrightarrow> ent t i \<noteq> ent u j"
  by (simp add: apart_def)

lemma store_mem [simp]: "m_mem (store a w s) = (m_mem s)(a := w)"
  by (simp add: store_def)

lemma op_mem [simp]: "m_mem (op x s) = m_mem s" "m_sys_root (op x s) = m_sys_root s" "m_current (op x s) = m_current s"
  "m_phys (op x s) = m_phys s" "m_heap (op x s) = m_heap s"
  by (simp_all add: op_def)

lemma clear_words_mem:
  "m_mem (clear_words t n s) a = (if \<exists>i < n. a = ent t i then 0 else m_mem s a)"
  by (induction n) (auto simp: clear_words_def less_Suc_eq)

lemma clear_words_frame [simp]:
  "m_heap (clear_words t n s) = m_heap s" "m_sys_root (clear_words t n s) = m_sys_root s"
  "m_current (clear_words t n s) = m_current s" "m_ops (clear_words t n s) = m_ops s"
  "m_phys (clear_words t n s) = m_phys s"
  by (induction n) (simp_all add: clear_words_def store_def)

lemma init_pte_loop_effect:
  "0 < n \<Longrightarrow> n \<le> 256 \<Longrightarrow> me_PAGE_SIZE E = 0x1000 \<Longrightarrow> end = addr + of_nat n * 0x1000 \<Longrightarrow>
   \<exists>m. init_pte_loop E nc p addr end pfn s = Some (s\<lparr>m_mem := m\<rparr>) \<and>
     (\<forall>k < n. m (ent p k) = me_set_l2 E nc (push_bit (me_PAGE_SHIFT E) (pfn + of_nat k))) \<and>
     (\<forall>a. (\<forall>k < n. a \<noteq> ent p k) \<longrightarrow> m a = m_mem s a)"
proof (induction n arbitrary: p addr pfn s)
  case (Suc n)
  let ?s = "store p (me_set_l2 E nc (push_bit (me_PAGE_SHIFT E) pfn)) s"
  show ?case
  proof (cases n)
    case 0
    then have "init_pte_loop E nc p addr end pfn s = Some ?s"
      using Suc.prems by (subst init_pte_loop.simps) simp
    then show ?thesis using 0 by (intro exI[of _ "m_mem ?s"]) (simp add: store_def fun_upd_def)
  next
    case (Suc k)
    have step: "end = (addr + 0x1000) + of_nat n * 0x1000" using Suc.prems by (simp add: algebra_simps)
    have ne: "addr + 0x1000 \<noteq> end"
    proof
      assume "addr + 0x1000 = end"
      then have "(of_nat (n * 0x1000) :: addr) = 0" using step by simp
      then have "unat (of_nat (n * 0x1000) :: addr) = 0" by (simp only: unat_0)
      moreover have "unat (of_nat (n * 0x1000) :: addr) = n * 0x1000"
        by (rule unat_of_nat_u32) (use Suc.prems(2) in simp)
      ultimately show False using Suc by simp
    qed
    have eq: "init_pte_loop E nc p addr end pfn s = init_pte_loop E nc (p + 4) (addr + 0x1000) end (pfn + 1) ?s"
      using Suc.prems(3) ne by (subst init_pte_loop.simps) (simp add: Let_def)
    from Suc.IH[OF _ _ Suc.prems(3) step, of "p + 4" "pfn + 1" ?s] Suc Suc.prems obtain m where
      m: "init_pte_loop E nc (p + 4) (addr + 0x1000) end (pfn + 1) ?s = Some (?s\<lparr>m_mem := m\<rparr>)"
      "\<And>i. i < n \<Longrightarrow> m (ent (p + 4) i) = me_set_l2 E nc (push_bit (me_PAGE_SHIFT E) (pfn + 1 + of_nat i))"
      "\<And>a. (\<forall>i < n. a \<noteq> ent (p + 4) i) \<Longrightarrow> m a = m_mem ?s a" by auto
    have "m (ent p i) = me_set_l2 E nc (push_bit (me_PAGE_SHIFT E) (pfn + of_nat i))" if "i < Suc n" for i
    proof (cases i)
      case 0
      have "ent p 0 \<noteq> ent (p + 4) j" if "j < n" for j
        unfolding ent_Suc using that Suc.prems(2) ent_inj[of 0 "Suc j" p] by simp
      then have "m (ent p 0) = m_mem ?s (ent p 0)" using m(3) by blast
      then show ?thesis using 0 by simp
    next
      case (Suc j)
      then show ?thesis using m(2)[of j] that by (simp add: ent_Suc algebra_simps)
    qed
    moreover have "m a = m_mem s a" if "\<forall>i < Suc n. a \<noteq> ent p i" for a
    proof -
      have "m a = m_mem ?s a" by (rule m(3)) (use that in \<open>auto simp: ent_Suc\<close>)
      moreover have "a \<noteq> p" using that ent_0 by (metis zero_less_Suc)
      ultimately show ?thesis by simp
    qed
    ultimately show ?thesis using eq m(1) by (intro exI[of _ m]) (simp add: store_def)
  qed
qed simp

section \<open>Mapping refines the translation\<close>

lemma arm_sizes:
  "arm_format E \<Longrightarrow> me_PAGE_SIZE E = 0x1000" "arm_format E \<Longrightarrow> me_PAGE_SHIFT E = 12"
  "arm_format E \<Longrightarrow> me_PAGE_MASK E = NOT (mask 12)" "arm_format E \<Longrightarrow> me_SECT_SIZE E = 0x100000"
  "arm_format E \<Longrightarrow> me_SECT_MASK E = NOT (mask 20)" "arm_format E \<Longrightarrow> me_L1_ENTRIES E = 4096"
  "arm_format E \<Longrightarrow> me_L2_ENTRIES E = 256" "arm_format E \<Longrightarrow> me_L1_SECT_ADDR_MASK E = NOT (mask 20)"
  "arm_format E \<Longrightarrow> me_L2_ADDR_MASK E = NOT (mask 12)"
  by (simp_all add: arm_format_def)

lemma arm_offsets:
  "arm_format E \<Longrightarrow> me_l1pte_index E v = i1 v" "arm_format E \<Longrightarrow> me_l1pte_offset E t v = ent t (i1 v)"
  "arm_format E \<Longrightarrow> me_l2pte_first E w = l2_table E w"
  "arm_format E \<Longrightarrow> me_l2pte_offset E w v = ent (l2_table E w) (i2 v)"
  "arm_format E \<Longrightarrow> me_ALIGN_UP E x 0x1000 = (x + 0xfff) AND NOT (mask 12)"
  "arm_format E \<Longrightarrow> me_l1sect_addr_end E a e =
     (let b = (a + 0x100000) AND NOT (mask 20) in if b - 1 < e - 1 then b else e)"
  by (simp_all add: arm_format_def)

lemma arm_entries:
  "arm_format E \<Longrightarrow> me_set_l1_page E nc w \<noteq> 0"
  "arm_format E \<Longrightarrow> \<not> me_l1pte_is_sect E (me_set_l1_page E nc w)"
  "arm_format E \<Longrightarrow> l2_table E (me_set_l1_page E nc w) = l2_table E w"
  "arm_format E \<Longrightarrow> me_set_l1_sect E nc w \<noteq> 0"
  "arm_format E \<Longrightarrow> me_l1pte_is_sect E (me_set_l1_sect E nc w)"
  "arm_format E \<Longrightarrow> me_set_l1_sect E nc w AND NOT (mask 20) = w AND NOT (mask 20)"
  "arm_format E \<Longrightarrow> me_set_l2 E nc w \<noteq> 0"
  "arm_format E \<Longrightarrow> me_set_l2 E nc w AND NOT (mask 12) = w AND NOT (mask 12)"
  by (simp_all add: arm_format_def l2_table_def)

lemma arm_memalign:
  "arm_format E \<Longrightarrow> me_memalign E n (me_SZ_1K E) h = (t, h') \<Longrightarrow> t \<noteq> NULL \<Longrightarrow> l2_table E (me_pa E t) = t"
  unfolding arm_format_def by (metis fst_conv)

text \<open>One second-level table: the entries of the range are set, the others are as they were.\<close>

lemma alloc_init_pte_effect:
  assumes fmt: "arm_format E" and n: "0 < n" "n \<le> 256 - i2 addr" and e: "end = addr + of_nat n * 0x1000"
    and i: "i < 4096" "\<not> me_l1pte_is_sect E (m_mem s (ent root i)) \<or> m_mem s (ent root i) = 0"
    and ok: "tables_ok E root s"
    and alloc: "m_mem s (ent root i) = 0 \<Longrightarrow> t \<noteq> NULL \<and> fresh_table E root s t \<and>
       me_memalign E 0x400 (me_SZ_1K E) (m_heap s) = (t, h)"
  shows "\<exists>s' T. alloc_init_pte E (ent root i) addr end pfn nc s = Some s' \<and>
    has_l2 E root s' i \<and> l2_of E root s' i = T \<and> apart root 4096 T 256 \<and>
    (m_mem s (ent root i) \<noteq> 0 \<longrightarrow> T = l2_of E root s i) \<and> (m_mem s (ent root i) = 0 \<longrightarrow> T = t) \<and>
    (\<forall>k < n. m_mem s' (ent T (i2 addr + k)) = me_set_l2 E nc (push_bit 12 (pfn + of_nat k))) \<and>
    (\<forall>j < 256. (\<forall>k < n. j \<noteq> i2 addr + k) \<longrightarrow>
       m_mem s' (ent T j) = (if m_mem s (ent root i) = 0 then 0 else m_mem s (ent T j))) \<and>
    (\<forall>a. a \<noteq> ent root i \<longrightarrow> (\<forall>j < 256. a \<noteq> ent T j) \<longrightarrow> m_mem s' a = m_mem s a) \<and>
    m_sys_root s' = m_sys_root s \<and> m_current s' = m_current s \<and> m_phys s' = m_phys s \<and>
    m_heap s' = (if m_mem s (ent root i) = 0 then h else m_heap s)"
proof -
  let ?p = "ent root i"
  note c = arm_sizes(1,2,7)[OF fmt] arm_offsets(4)[OF fmt]
  define T where "T = (if m_mem s ?p = 0 then t else l2_of E root s i)"
  define s1 where "s1 = (if m_mem s ?p = 0
    then store ?p (me_set_l1_page E nc (me_pa E t)) (clear_words t 256 (s\<lparr>m_heap := h\<rparr>)) else s)"
  have apT: "apart root 4096 T 256"
    using alloc ok i by (auto simp: T_def fresh_table_def tables_ok_def has_l2_def)
  have "m_mem s1 ?p \<noteq> 0 \<and> \<not> me_l1pte_is_sect E (m_mem s1 ?p) \<and> l2_table E (m_mem s1 ?p) = T"
  proof (cases "m_mem s ?p = 0")
    case True
    then have new: "m_mem s1 ?p = me_set_l1_page E nc (me_pa E t)" by (simp add: s1_def)
    have "l2_table E (me_pa E t) = t" using arm_memalign[OF fmt] alloc[OF True] by blast
    then show "m_mem s1 ?p \<noteq> 0 \<and> \<not> me_l1pte_is_sect E (m_mem s1 ?p) \<and> l2_table E (m_mem s1 ?p) = T"
      using arm_entries(1-3)[OF fmt] True by (simp_all add: T_def new)
  next
    case False
    then show "m_mem s1 ?p \<noteq> 0 \<and> \<not> me_l1pte_is_sect E (m_mem s1 ?p) \<and> l2_table E (m_mem s1 ?p) = T"
      using i(2) by (simp_all add: s1_def T_def l2_of_def)
  qed
  then have entry: "m_mem s1 ?p \<noteq> 0" "\<not> me_l1pte_is_sect E (m_mem s1 ?p)" "l2_table E (m_mem s1 ?p) = T" by blast+
  have first: "(if m_mem s ?p = 0
       then (case me_memalign E (of_nat (me_L2_ENTRIES E) * 4) (me_SZ_1K E) (m_heap s) of (t, h) \<Rightarrow>
              if t = NULL then None
              else Some (store ?p (me_set_l1_page E nc (me_pa E t))
                          (clear_words t (me_L2_ENTRIES E) (s\<lparr>m_heap := h\<rparr>))))
       else Some s) = Some s1"
    using alloc by (cases "m_mem s ?p = 0") (simp_all add: s1_def c(3))
  have "n \<le> 256" using n(2) by simp
  from init_pte_loop_effect[OF n(1) this c(1) e, of nc "ent T (i2 addr)" pfn s1] obtain m where
    m: "init_pte_loop E nc (ent T (i2 addr)) addr end pfn s1 = Some (s1\<lparr>m_mem := m\<rparr>)"
    "\<And>k. k < n \<Longrightarrow> m (ent T (i2 addr + k)) = me_set_l2 E nc (push_bit 12 (pfn + of_nat k))"
    "\<And>a. (\<forall>k < n. a \<noteq> ent T (i2 addr + k)) \<Longrightarrow> m a = m_mem s1 a"
    unfolding ent_add c(2) by blast
  define s' where "s' = op (TableFlush T (ent T 256)) (s1\<lparr>m_mem := m\<rparr>)"
  have run: "alloc_init_pte E ?p addr end pfn nc s = Some s'"
    unfolding alloc_init_pte_def first using entry m(1) c(3,4) by (simp add: s'_def l2_table_def)
  have mem: "m_mem s' = m" by (simp add: s'_def)
  have top: "m (ent root j) = m_mem s1 (ent root j)" if "j < 4096" for j
  proof (rule m(3), intro allI impI)
    fix k assume "k < n"
    then show "ent root j \<noteq> ent T (i2 addr + k)" using n(2) by (intro apartD[OF apT that]) simp
  qed
  have l2: "has_l2 E root s' i" "l2_of E root s' i = T"
    using entry top[OF i(1)] i(1) by (simp_all add: has_l2_def l2_of_def mem)
  have rest: "m (ent T j) = (if m_mem s ?p = 0 then 0 else m_mem s (ent T j))"
    if j: "j < 256" "\<forall>k < n. j \<noteq> i2 addr + k" for j
  proof -
    have "m (ent T j) = m_mem s1 (ent T j)"
    proof (rule m(3), intro allI impI)
      fix k assume "k < n"
      then show "ent T j \<noteq> ent T (i2 addr + k)" using ent_inj[of j "i2 addr + k" T] j n(2) by simp
    qed
    also have "\<dots> = (if m_mem s ?p = 0 then 0 else m_mem s (ent T j))"
    proof (cases "m_mem s ?p = 0")
      case True
      then have "T = t" by (simp add: T_def)
      moreover have "\<exists>k < 256. ent t j = ent t k" using j(1) by blast
      ultimately show ?thesis using True apartD[OF apT i(1) j(1)] by (simp add: s1_def clear_words_mem)
    qed (simp add: s1_def)
    finally show ?thesis .
  qed
  have other: "m a = m_mem s a" if a: "a \<noteq> ?p" "\<forall>j < 256. a \<noteq> ent T j" for a
  proof -
    have "m a = m_mem s1 a"
    proof (rule m(3), intro allI impI)
      fix k assume "k < n"
      then show "a \<noteq> ent T (i2 addr + k)" using a(2) n(2) by simp
    qed
    also have "\<dots> = m_mem s a"
    proof (cases "m_mem s ?p = 0")
      case True
      then have "T = t" by (simp add: T_def)
      then have "\<not> (\<exists>k < 256. a = ent t k)" using a(2) by blast
      then have "m_mem (clear_words t 256 (s\<lparr>m_heap := h\<rparr>)) a = m_mem s a" unfolding clear_words_mem by auto
      then show ?thesis using True a(1) by (simp add: s1_def)
    qed (simp add: s1_def)
    finally show ?thesis .
  qed
  have frame: "m_sys_root s' = m_sys_root s" "m_current s' = m_current s" "m_phys s' = m_phys s"
    "m_heap s' = (if m_mem s ?p = 0 then h else m_heap s)"
    by (simp_all add: s'_def s1_def store_def op_def)
  have T: "m_mem s ?p \<noteq> 0 \<longrightarrow> T = l2_of E root s i" "m_mem s ?p = 0 \<longrightarrow> T = t"
    by (simp_all add: T_def)
  show ?thesis
    using run l2 apT T m(2) rest other frame by (intro exI[of _ s'] exI[of _ T]) (simp only: mem simp_thms, blast)
qed

text \<open>Arithmetic of aligned ranges within one megabyte.\<close>

lemma i2_less [simp]: "i2 v < 256"
  by (simp add: i2_def)

lemma i1_less [simp]: "i1 v < 4096"
  using unat_u32_less[of v] by (simp add: i1_def less_mult_imp_div_less)

lemma range_indices:
  assumes al: "unat a mod 4096 = 0" and fit: "i2 a + n \<le> 256"
  shows "unat a \<le> unat v \<and> unat v < unat a + 4096 * n \<longleftrightarrow>
    i1 v = i1 a \<and> i2 a \<le> i2 v \<and> i2 v < i2 a + n"
proof -
  define P where "P = unat v div 4096" define Q where "Q = unat a div 4096"
  have A: "unat a = 4096 * Q" using al mult_div_mod_eq[of 4096 "unat a"] unfolding Q_def by linarith
  have v: "unat v = 4096 * P + unat v mod 4096" unfolding P_def by simp
  have r: "unat v mod 4096 < 4096" by simp
  have i: "i1 v = P div 256" "i1 a = Q div 256" "i2 v = P mod 256" "i2 a = Q mod 256"
    by (simp_all add: i1_def i2_def P_def Q_def div_mult2_eq[symmetric])
  have "unat a \<le> unat v \<and> unat v < unat a + 4096 * n \<longleftrightarrow> Q \<le> P \<and> P < Q + n"
    using v r A by linarith
  also have "\<dots> \<longleftrightarrow> P div 256 = Q div 256 \<and> Q mod 256 \<le> P mod 256 \<and> P mod 256 < Q mod 256 + n"
  proof -
    define p q x y where "p = P div 256" and "q = Q div 256" and "x = P mod 256" and "y = Q mod 256"
    have PQ: "P = 256 * p + x" "Q = 256 * q + y" "x < 256" "y < 256" "y + n \<le> 256"
      using fit unfolding i by (simp_all add: p_def q_def x_def y_def)
    have "Q \<le> P \<and> P < Q + n \<longleftrightarrow> p = q \<and> y \<le> x \<and> x < y + n"
    proof
      assume h: "Q \<le> P \<and> P < Q + n"
      then have "p = q" using PQ by linarith
      then show "p = q \<and> y \<le> x \<and> x < y + n" using h PQ by (intro conjI) linarith+
    qed (use PQ in simp)
    then show ?thesis unfolding p_def q_def x_def y_def .
  qed
  finally show ?thesis by (simp add: i)
qed

lemma aligned_unat: "(a :: addr) AND mask 12 = 0 \<longleftrightarrow> unat a mod 4096 = 0"
  using unat_and_mask[of a 12] by (simp add: unat_eq_0[symmetric] del: unat_eq_0)

lemma and_not_mask: "x AND NOT (mask n) = push_bit n (drop_bit n x)" for x :: "'a::len word"
  by (rule bit_word_eqI) (auto simp: bit_simps)

lemma and_plus_not_and: "(x AND m) + (x AND NOT m) = x" for x m :: "'a::len word"
proof -
  have "(x AND m) AND (x AND NOT m) = 0" by (rule bit_word_eqI) (simp add: bit_simps)
  then have "(x AND m) + (x AND NOT m) = (x AND m) OR (x AND NOT m)" by (rule disjunctive_add_eq_or)
  also have "\<dots> = x" by (rule bit_word_eqI) (auto simp: bit_simps)
  finally show ?thesis .
qed

lemma megabyte_floor:
  assumes "y < 1048576"
  shows "(of_nat (1048576 * q + y) :: addr) AND NOT (mask 20) = of_nat (1048576 * q)"
proof -
  let ?x = "of_nat (1048576 * q + y) :: addr"
  have "?x AND mask 20 = of_nat (take_bit 20 (1048576 * q + y))"
    by (simp only: of_nat_take_bit take_bit_eq_mask[symmetric])
  also have "take_bit 20 (1048576 * q + y) = y" using assms by (simp add: take_bit_eq_mod)
  finally have "?x AND mask 20 = of_nat y" .
  moreover have "(?x AND mask 20) + (?x AND NOT (mask 20)) = ?x" by (rule and_plus_not_and)
  ultimately have "of_nat y + (?x AND NOT (mask 20)) = of_nat (1048576 * q) + of_nat y" by simp
  then show ?thesis by (metis add.commute add_right_cancel)
qed

lemma unat_end:
  assumes al: "unat a mod 4096 = 0" and n: "0 < n" and fit: "i2 a + n \<le> 256"
  shows "unat (a + of_nat n * 0x1000 - 1) = unat a + 4096 * n - 1"
    "unat (((a + 0x100000) AND NOT (mask 20)) - 1) = 1048576 * (i1 a + 1) - 1"
proof -
  define p y where "p = i1 a" and "y = i2 a"
  have A: "unat a = 1048576 * p + 4096 * y"
  proof -
    have "unat a = 4096 * (unat a div 4096)" using al mult_div_mod_eq[of 4096 "unat a"] by linarith
    moreover have "unat a div 4096 = 256 * p + y"
      unfolding p_def y_def i1_def i2_def by (simp add: div_mult2_eq[of "unat a" 4096 256, simplified])
    ultimately show ?thesis by simp
  qed
  have p: "p < 4096" by (simp add: p_def)
  have yn: "y + n \<le> 256" using fit by (simp add: y_def)
  have top: "unat a + 4096 * n \<le> 1048576 * (p + 1)" using A yn by simp
  have "a + of_nat n * 0x1000 - 1 = of_nat (unat a + 4096 * n - 1)"
    using n by (simp add: of_nat_diff)
  then show "unat (a + of_nat n * 0x1000 - 1) = unat a + 4096 * n - 1"
    using top p by (simp only:) (subst unat_of_nat_u32, simp_all)
  have "a + 0x100000 = of_nat (1048576 * (p + 1) + 4096 * y)"
  proof -
    have "a = of_nat (1048576 * p + 4096 * y)" using A by (metis unsigned_of_nat word_nat_cases unat_of_nat ucast_id of_nat_unat)
    then show ?thesis by (simp add: algebra_simps)
  qed
  moreover have "4096 * y < 1048576" using yn n by simp
  ultimately have "(a + 0x100000) AND NOT (mask 20) = of_nat (1048576 * (p + 1))"
    using megabyte_floor[of "4096 * y" "p + 1"] by metis
  then have "((a + 0x100000) AND NOT (mask 20)) - 1 = of_nat (1048576 * (p + 1)) - 1"
    by (rule arg_cong[where f = "\<lambda>x. x - 1"])
  also have "\<dots> = of_nat (1048576 * (p + 1) - 1)" by (simp add: of_nat_diff)
  finally have "((a + 0x100000) AND NOT (mask 20)) - 1 = of_nat (1048576 * (p + 1) - 1)" .
  then show "unat (((a + 0x100000) AND NOT (mask 20)) - 1) = 1048576 * (i1 a + 1) - 1"
    unfolding p_def[symmetric] using p by (simp only:) (subst unat_of_nat_u32, simp_all)
qed

lemma sect_end_page:
  assumes fmt: "arm_format E" and "unat a mod 4096 = 0" "0 < n" "i2 a + n \<le> 256"
  shows "me_l1sect_addr_end E a (a + of_nat n * 0x1000) = a + of_nat n * 0x1000"
proof -
  define q where "q = unat a div 4096"
  have a: "unat a = 4096 * q"
    using assms(2) mult_div_mod_eq[of 4096 "unat a"] unfolding q_def by linarith
  have i1: "i1 a = q div 256" and i2: "i2 a = q mod 256"
    by (simp_all add: i1_def i2_def q_def div_mult2_eq[of "unat a" 4096 256, simplified])
  have "4096 * q + 4096 * n \<le> 1048576 * (q div 256 + 1)"
  proof -
    define d r where "d = q div 256" and "r = q mod 256"
    have "q = 256 * d + r" "r + n \<le> 256" using assms(4) by (simp_all add: d_def r_def i2)
    then show ?thesis unfolding d_def[symmetric] by simp
  qed
  then have "\<not> ((a + 0x100000) AND NOT (mask 20)) - 1 < a + of_nat n * 0x1000 - 1"
    unfolding word_less_nat_alt unat_end[OF assms(2-4)] a i1 by linarith
  then show ?thesis unfolding arm_offsets(6)[OF fmt] Let_def by (rule if_not_P)
qed

lemma page_span_pages:
  assumes fmt: "arm_format E" and al: "v AND mask 12 = 0"
  shows "page_span E v (of_nat n * 0x1000) = (v, v + of_nat n * 0x1000)"
proof -
  have "v AND NOT (mask 12) = v" using and_plus_not_and[of v "mask 12"] al by simp
  moreover have "(of_nat n * 0x1000 + 0xfff :: u32) AND NOT (mask 12) = of_nat n * 0x1000"
  proof -
    have "(of_nat n * 0x1000 :: u32) = push_bit 12 (of_nat n)" by (simp add: push_bit_eq_mult)
    moreover have "(0xfff :: u32) = mask 12" by (simp add: mask_eq_exp_minus_1)
    moreover have "(push_bit 12 (of_nat n :: u32) + mask 12) AND NOT (mask 12) = push_bit 12 (of_nat n)"
    proof -
      have "push_bit 12 (of_nat n :: u32) AND mask 12 = 0"
        by (rule bit_word_eqI) (auto simp: bit_simps)
      then have "push_bit 12 (of_nat n :: u32) + mask 12 = push_bit 12 (of_nat n) OR mask 12"
        by (rule disjunctive_add_eq_or)
      then show ?thesis by (simp only:) (rule bit_word_eqI, auto simp: bit_simps)
    qed
    ultimately show ?thesis by simp
  qed
  ultimately show ?thesis
    using al by (simp add: page_span_def Let_def arm_sizes[OF fmt] arm_offsets(5)[OF fmt])
qed

lemma page_value:
  assumes fmt: "arm_format E" and al: "phys AND mask 12 = 0"
  shows "(me_set_l2 E nc (push_bit 12 (drop_bit 12 phys + of_nat k)) AND NOT (mask 12)) OR (v AND mask 12)
    = phys + of_nat (4096 * k) + (v AND mask 12)"
proof -
  have p: "push_bit 12 (drop_bit 12 phys + of_nat k) = phys + of_nat (4096 * k)"
  proof -
    have "phys AND NOT (mask 12) = phys" using and_plus_not_and[of phys "mask 12"] al by simp
    then have "push_bit 12 (drop_bit 12 phys) = phys" by (simp add: and_not_mask)
    then show ?thesis by (simp add: push_bit_add) (simp add: push_bit_eq_mult)
  qed
  define w where "w = drop_bit 12 phys + of_nat k"
  have "push_bit 12 w AND NOT (mask 12) = push_bit 12 w" by (rule bit_word_eqI) (auto simp: bit_simps)
  moreover have "push_bit 12 w OR (v AND mask 12) = push_bit 12 w + (v AND mask 12)"
    by (rule disjunctive_add_eq_or[symmetric], rule bit_word_eqI) (auto simp: bit_simps)
  ultimately show ?thesis unfolding arm_entries(8)[OF fmt] using p by (simp add: w_def)
qed

lemma page_offset:
  assumes al: "unat a mod 4096 = 0" and r: "i1 v = i1 a" "i2 a \<le> i2 v"
  shows "v - a = of_nat (4096 * (i2 v - i2 a)) + (v AND mask 12)"
proof -
  define P Q where "P = unat v div 4096" and "Q = unat a div 4096"
  have A: "unat a = 4096 * Q" using al mult_div_mod_eq[of 4096 "unat a"] unfolding Q_def by linarith
  have V: "unat v = 4096 * P + unat (v AND mask 12)" unfolding P_def unat_and_mask by simp
  have "P div 256 = Q div 256" "P mod 256 = i2 v" "Q mod 256 = i2 a"
    using r by (simp_all add: i1_def i2_def P_def Q_def div_mult2_eq[of _ 4096 256, simplified])
  then have "P = Q + (i2 v - i2 a)"
    using r(2) mult_div_mod_eq[of 256 P] mult_div_mod_eq[of 256 Q] by simp
  then have "unat v = unat a + 4096 * (i2 v - i2 a) + unat (v AND mask 12)"
    unfolding V A by (simp add: algebra_simps)
  then have "of_nat (unat v) = (of_nat (unat a + 4096 * (i2 v - i2 a) + unat (v AND mask 12)) :: addr)"
    by (rule arg_cong)
  then show ?thesis by (simp add: algebra_simps)
qed

lemma or_and_zero: "(x OR y OR z) AND m = 0 \<Longrightarrow> x AND m = 0 \<and> y AND m = 0" for x y z m :: "'a::len word"
  by (auto simp: bit_eq_iff bit_simps)

lemma not_sections:
  assumes al: "unat a mod 4096 = 0" and n: "0 < n" "n < 256"
  shows "((a :: addr) OR (a + of_nat n * 0x1000) OR phys) AND mask 20 \<noteq> 0"
proof
  assume "(a OR (a + of_nat n * 0x1000) OR phys) AND mask 20 = 0"
  then have z: "a AND mask 20 = 0" "(a + of_nat n * 0x1000) AND mask 20 = 0"
    using or_and_zero by blast+
  have "unat a mod 2 ^ 20 = 0" using z(1) unat_and_mask[of a 20] by simp
  moreover have e: "unat (a + of_nat n * 0x1000) mod 2 ^ 20 = 0"
    using z(2) unat_and_mask[of "a + of_nat n * 0x1000" 20] by simp
  moreover have "unat (a + of_nat n * 0x1000) = (unat a + 4096 * n) mod 2 ^ 32"
  proof -
    have "of_nat n * 0x1000 = (of_nat (4096 * n) :: addr)" by simp
    moreover have "unat (of_nat (4096 * n) :: addr) = 4096 * n"
      by (rule unat_of_nat_u32) (use n in simp)
    ultimately show ?thesis by (simp only: unat_word_ariths) simp
  qed
  moreover have "(unat a + 4096 * n) mod 2 ^ 32 mod 2 ^ 20 = (unat a + 4096 * n) mod 2 ^ 20"
    by (rule mod_mod_cancel) (simp add: le_imp_power_dvd)
  ultimately have "(unat a + 4096 * n) mod 2 ^ 20 = 0" "unat a mod 2 ^ 20 = 0" by simp_all
  then have "(4096 * n) mod 2 ^ 20 = 0" by (metis add_0 mod_add_left_eq)
  then show False using n by simp
qed

lemma translate_cong: "m_mem t = m_mem s \<Longrightarrow> translate E root t v = translate E root s v"
  by (simp add: translate_def)

lemma tables_cong: "m_mem t = m_mem s \<Longrightarrow> tables_ok E root t = tables_ok E root s"
  by (simp add: tables_ok_def has_l2_def l2_of_def)

text \<open>What one new range means for the translation, and that the tables stay well formed.\<close>

lemma alloc_refines:
  assumes fmt: "arm_format E" and ok: "tables_ok E root s" and al: "unat a mod 4096 = 0"
    and phys: "phys AND mask 12 = 0" and n: "0 < n" and fit: "i2 a + n \<le> 256"
    and sect: "\<not> me_l1pte_is_sect E (m_mem s (ent root (i1 a))) \<or> m_mem s (ent root (i1 a)) = 0"
    and alloc: "m_mem s (ent root (i1 a)) = 0 \<Longrightarrow> t \<noteq> NULL \<and> fresh_table E root s t \<and>
       me_memalign E 0x400 (me_SZ_1K E) (m_heap s) = (t, h)"
  shows "\<exists>s'. alloc_init_pte E (ent root (i1 a)) a (a + of_nat n * 0x1000) (drop_bit 12 phys) nc s = Some s' \<and>
    (\<forall>v. translate E root s' v = (if unat a \<le> unat v \<and> unat v < unat a + 4096 * n
       then Some (phys + (v - a)) else translate E root s v)) \<and> tables_ok E root s' \<and>
    has_l2 E root s' (i1 a) \<and> m_sys_root s' = m_sys_root s \<and> m_current s' = m_current s \<and>
    m_phys s' = m_phys s \<and> m_heap s' = (if m_mem s (ent root (i1 a)) = 0 then h else m_heap s) \<and>
    l2_of E root s' (i1 a) = (if m_mem s (ent root (i1 a)) = 0 then t else l2_of E root s (i1 a)) \<and>
    (\<forall>b. b \<noteq> ent root (i1 a) \<longrightarrow> (\<forall>j < 256. b \<noteq> ent (l2_of E root s' (i1 a)) j) \<longrightarrow> m_mem s' b = m_mem s b)"
proof -
  let ?i = "i1 a"
  have nn: "n \<le> 256 - i2 a" using fit by simp
  obtain s' T where run: "alloc_init_pte E (ent root ?i) a (a + of_nat n * 0x1000) (drop_bit 12 phys) nc s = Some s'"
    and l2: "has_l2 E root s' ?i" "l2_of E root s' ?i = T" and apT: "apart root 4096 T 256"
    and T: "m_mem s (ent root ?i) \<noteq> 0 \<longrightarrow> T = l2_of E root s ?i" "m_mem s (ent root ?i) = 0 \<longrightarrow> T = t"
    and new: "\<And>k. k < n \<Longrightarrow> m_mem s' (ent T (i2 a + k)) = me_set_l2 E nc (push_bit 12 (drop_bit 12 phys + of_nat k))"
    and old: "\<And>j. j < 256 \<Longrightarrow> (\<forall>k < n. j \<noteq> i2 a + k) \<Longrightarrow>
       m_mem s' (ent T j) = (if m_mem s (ent root ?i) = 0 then 0 else m_mem s (ent T j))"
    and other: "\<And>b. b \<noteq> ent root ?i \<Longrightarrow> (\<forall>j < 256. b \<noteq> ent T j) \<Longrightarrow> m_mem s' b = m_mem s b"
    and frame: "m_sys_root s' = m_sys_root s" "m_current s' = m_current s" "m_phys s' = m_phys s"
      "m_heap s' = (if m_mem s (ent root ?i) = 0 then h else m_heap s)"
    using alloc_init_pte_effect[OF fmt n nn refl i1_less sect ok alloc, where nc = nc and pfn = "drop_bit 12 phys"]
    by blast
  have top: "m_mem s' (ent root j) = m_mem s (ent root j)" if "j < 4096" "j \<noteq> ?i" for j
  proof (rule other)
    show "ent root j \<noteq> ent root ?i" using ent_inj[of j ?i root] that i1_less[of a] by simp
    show "\<forall>k < 256. ent root j \<noteq> ent T k" using apartD[OF apT that(1)] by blast
  qed
  have others: "has_l2 E root s' j = has_l2 E root s j" "l2_of E root s' j = l2_of E root s j" if "j < 4096" "j \<noteq> ?i" for j
    using top[OF that] by (simp_all add: has_l2_def l2_of_def)
  have sep: "apart (l2_of E root s j) 256 T 256" if "has_l2 E root s j" "j \<noteq> ?i" for j
  proof (cases "m_mem s (ent root ?i) = 0")
    case True
    then show ?thesis using alloc[OF True] T(2) that(1) by (simp add: fresh_table_def)
  next
    case False
    then have "has_l2 E root s ?i" using sect by (simp add: has_l2_def)
    then show ?thesis using ok that T(1) False by (simp add: tables_ok_def)
  qed
  have "tables_ok E root s'"
  proof -
    have A: "apart root 4096 (l2_of E root s' j) 256" if h: "has_l2 E root s' j" for j
    proof (cases "j = ?i")
      case True
      then show ?thesis using l2 apT by simp
    next
      case False
      have "j < 4096" using h by (simp add: has_l2_def)
      then show ?thesis using others[OF _ False] ok h by (simp add: tables_ok_def)
    qed
    have B: "apart (l2_of E root s' j) 256 (l2_of E root s' k) 256"
      if h: "has_l2 E root s' j" "has_l2 E root s' k" "j \<noteq> k" for j k
    proof -
      have b: "j < 4096" "k < 4096" using h by (simp_all add: has_l2_def)
      consider "j = ?i" "k \<noteq> ?i" | "k = ?i" "j \<noteq> ?i" | "j \<noteq> ?i" "k \<noteq> ?i" using h(3) by blast
      then show ?thesis
      proof cases
        case 1
        then show ?thesis using sep[of k] others[OF b(2) 1(2)] h l2 by (simp add: apart_sym)
      next
        case 2
        then show ?thesis using sep[of j] others[OF b(1) 2(2)] h l2 by simp
      next
        case 3
        then show ?thesis using others[OF b(1) 3(1)] others[OF b(2) 3(2)] ok h by (simp add: tables_ok_def)
      qed
    qed
    show ?thesis using A B by (simp add: tables_ok_def)
  qed
  moreover have "translate E root s' v = (if unat a \<le> unat v \<and> unat v < unat a + 4096 * n
       then Some (phys + (v - a)) else translate E root s v)" for v
  proof (cases "i1 v = ?i")
    case False
    note t = top[OF i1_less False]
    have "m_mem s' (ent (l2_of E root s (i1 v)) (i2 v)) = m_mem s (ent (l2_of E root s (i1 v)) (i2 v))"
      if h: "has_l2 E root s (i1 v)"
    proof (rule other)
      have ap: "apart root 4096 (l2_of E root s (i1 v)) 256" using ok h by (simp add: tables_ok_def)
      show "ent (l2_of E root s (i1 v)) (i2 v) \<noteq> ent root ?i"
        using apartD[OF ap i1_less i2_less, of a v] by metis
      show "\<forall>j < 256. ent (l2_of E root s (i1 v)) (i2 v) \<noteq> ent T j"
        using apartD[OF sep[OF h False] i2_less] by blast
    qed
    then have "translate E root s' v = translate E root s v"
      using t by (auto simp: translate_def Let_def has_l2_def l2_of_def)
    then show ?thesis using False range_indices[OF al fit, of v] by auto
  next
    case True
    have e: "m_mem s' (ent root ?i) \<noteq> 0" "\<not> me_l1pte_is_sect E (m_mem s' (ent root ?i))"
      "l2_table E (m_mem s' (ent root ?i)) = T" using l2 by (simp_all add: has_l2_def l2_of_def)
    define w where "w = m_mem s' (ent T (i2 v))"
    have tr: "translate E root s' v = (if w = 0 then None else Some ((w AND NOT (mask 12)) OR (v AND mask 12)))"
      using e by (simp add: translate_def Let_def True w_def)
    show ?thesis
    proof (cases "i2 a \<le> i2 v \<and> i2 v < i2 a + n")
      case in_range: True
      define k where "k = i2 v - i2 a"
      have k: "i2 v = i2 a + k" "k < n" using in_range unfolding k_def by linarith+
      have wk: "w = me_set_l2 E nc (push_bit 12 (drop_bit 12 phys + of_nat k))" unfolding w_def k(1) by (rule new[OF k(2)])
      have "translate E root s' v = Some (phys + of_nat (4096 * k) + (v AND mask 12))"
        unfolding tr using arm_entries(7)[OF fmt] page_value[OF fmt phys] by (simp add: wk)
      also have "phys + of_nat (4096 * k) + (v AND mask 12) = phys + (v - a)"
        using page_offset[OF al True] in_range by (simp add: k_def)
      finally show ?thesis using in_range True range_indices[OF al fit, of v] by simp
    next
      case out: False
      have "w = (if m_mem s (ent root ?i) = 0 then 0 else m_mem s (ent T (i2 v)))"
        unfolding w_def by (rule old) (use out in auto)
      then have "translate E root s' v = translate E root s v"
        unfolding tr using sect T(1) by (auto simp: translate_def Let_def True l2_of_def)
      then show ?thesis using out range_indices[OF al fit, of v] by auto
    qed
  qed
  moreover have "l2_of E root s' ?i = (if m_mem s (ent root ?i) = 0 then t else l2_of E root s ?i)"
    using T l2(2) by simp
  moreover have "b \<noteq> ent root ?i \<longrightarrow> (\<forall>j < 256. b \<noteq> ent (l2_of E root s' ?i) j) \<longrightarrow> m_mem s' b = m_mem s b" for b
    using other l2(2) by simp
  ultimately show ?thesis using run frame l2(1) by blast
qed

text \<open>
  A range of whole pages within a megabyte, and when it can be mapped: its first-level entry is no
  section, and where there is none, the heap gives a block that no other table uses.
\<close>

definition page_range :: "addr \<Rightarrow> nat \<Rightarrow> bool" where
  "page_range a n \<longleftrightarrow> a AND mask 12 = 0 \<and> 0 < n \<and> n < 256 \<and> i2 a + n \<le> 256"

definition mappable :: "'h mmu_env \<Rightarrow> addr \<Rightarrow> addr \<Rightarrow> nat \<Rightarrow> 'h mmu \<Rightarrow> bool" where
  "mappable E root a n s \<longleftrightarrow> page_range a n \<and>
     (let e = m_mem s (ent root (i1 a)); t = fst (me_memalign E 0x400 (me_SZ_1K E) (m_heap s)) in
      (e \<noteq> 0 \<longrightarrow> \<not> me_l1pte_is_sect E e) \<and> (e = 0 \<longrightarrow> t \<noteq> NULL \<and> fresh_table E root s t))"

definition in_range :: "addr \<Rightarrow> nat \<Rightarrow> addr \<Rightarrow> bool" where
  "in_range a n v \<longleftrightarrow> unat a \<le> unat v \<and> unat v < unat a + 4096 * n"

lemma has_l2_cong: "m_mem t = m_mem s \<Longrightarrow> has_l2 E root t i = has_l2 E root s i"
  by (simp add: has_l2_def)

lemma mapping_effect:
  assumes fmt: "arm_format E" and root: "root = the_table tbl s" and ok: "tables_ok E root s"
    and can: "mappable E root virt n s" and phys: "phys AND mask 12 = 0"
  shows "\<exists>s'. create_mapping E tbl virt phys (of_nat n * 0x1000) nc s = Some s' \<and>
    (\<forall>v. translate E root s' v = (if unat virt \<le> unat v \<and> unat v < unat virt + 4096 * n
       then Some (phys + (v - virt)) else translate E root s v)) \<and> tables_ok E root s' \<and>
    has_l2 E root s' (i1 virt) \<and> m_sys_root s' = m_sys_root s \<and> m_current s' = m_current s \<and>
    m_phys s' = m_phys s \<and>
    (let new = (m_mem s (ent root (i1 virt)) = 0); al = me_memalign E 0x400 (me_SZ_1K E) (m_heap s) in
      m_heap s' = (if new then snd al else m_heap s) \<and>
      l2_of E root s' (i1 virt) = (if new then fst al else l2_of E root s (i1 virt))) \<and>
    (\<forall>b. b \<noteq> ent root (i1 virt) \<longrightarrow> (\<forall>j < 256. b \<noteq> ent (l2_of E root s' (i1 virt)) j) \<longrightarrow> m_mem s' b = m_mem s b)"
proof -
  obtain t h where mal: "me_memalign E 0x400 (me_SZ_1K E) (m_heap s) = (t, h)" by (cases "me_memalign E 0x400 (me_SZ_1K E) (m_heap s)")
  have al: "virt AND mask 12 = 0" and n: "0 < n" "n < 256" and fit: "i2 virt + n \<le> 256"
    and sect: "\<not> me_l1pte_is_sect E (m_mem s (ent root (i1 virt))) \<or> m_mem s (ent root (i1 virt)) = 0"
    and alloc: "m_mem s (ent root (i1 virt)) = 0 \<Longrightarrow> t \<noteq> NULL \<and> fresh_table E root s t \<and>
       me_memalign E 0x400 (me_SZ_1K E) (m_heap s) = (t, h)"
    using can mal by (auto simp: mappable_def page_range_def Let_def)
  have av: "unat virt mod 4096 = 0" using al unat_and_mask[of virt 12] by simp
  let ?e = "virt + of_nat n * 0x1000"
  obtain s1 where s1: "alloc_init_pte E (ent root (i1 virt)) virt ?e (drop_bit 12 phys) nc s = Some s1"
    and tr: "\<And>v. translate E root s1 v = (if unat virt \<le> unat v \<and> unat v < unat virt + 4096 * n
       then Some (phys + (v - virt)) else translate E root s v)" and ok1: "tables_ok E root s1" and l2: "has_l2 E root s1 (i1 virt)"
    and frame: "m_sys_root s1 = m_sys_root s" "m_current s1 = m_current s" "m_phys s1 = m_phys s"
      "m_heap s1 = (if m_mem s (ent root (i1 virt)) = 0 then h else m_heap s)"
      "l2_of E root s1 (i1 virt) = (if m_mem s (ent root (i1 virt)) = 0 then t else l2_of E root s (i1 virt))"
    and other: "\<And>b. b \<noteq> ent root (i1 virt) \<Longrightarrow> \<forall>j < 256. b \<noteq> ent (l2_of E root s1 (i1 virt)) j \<Longrightarrow> m_mem s1 b = m_mem s b"
    using alloc_refines[OF fmt ok av phys n(1) fit sect alloc, of nc] by blast
  have sec: "alloc_init_section E (ent root (i1 virt)) virt ?e phys nc s = Some s1"
  proof -
    have "(virt OR ?e OR phys) AND NOT (me_SECT_MASK E) \<noteq> 0"
      unfolding arm_sizes(5)[OF fmt] bit.double_compl by (rule not_sections[OF av n])
    then show ?thesis unfolding alloc_init_section_def arm_sizes(2)[OF fmt] using s1 by (simp only: if_False)
  qed
  have "mapping_loop E nc (ent root (i1 virt)) virt ?e phys s = Some s1"
    by (subst mapping_loop.simps)
       (simp only: sect_end_page[OF fmt av n(1) fit] sec Let_def Option.bind.simps refl if_True)
  then have run: "create_mapping E tbl virt phys (of_nat n * 0x1000) nc s
      = Some (if root = m_sys_root s then op TlbInval s1 else s1)"
    by (simp only: create_mapping_def page_span_pages[OF fmt al] arm_offsets(2)[OF fmt] root Let_def
        prod.case Option.bind.simps)
  let ?s2 = "if root = m_sys_root s then op TlbInval s1 else s1"
  have mem: "m_mem ?s2 = m_mem s1" and same: "m_sys_root ?s2 = m_sys_root s1" "m_current ?s2 = m_current s1"
    "m_phys ?s2 = m_phys s1" "m_heap ?s2 = m_heap s1" by simp_all
  have l2_same: "l2_of E root ?s2 i = l2_of E root s1 i" for i by (simp add: l2_of_def)
  show ?thesis
  proof (intro exI[of _ ?s2] conjI)
    show "let new = (m_mem s (ent root (i1 virt)) = 0); al = me_memalign E 0x400 (me_SZ_1K E) (m_heap s) in
      m_heap ?s2 = (if new then snd al else m_heap s) \<and>
      l2_of E root ?s2 (i1 virt) = (if new then fst al else l2_of E root s (i1 virt))"
      unfolding Let_def mal fst_conv snd_conv same l2_same using frame(4,5) by blast
    show "\<forall>b. b \<noteq> ent root (i1 virt) \<longrightarrow> (\<forall>j < 256. b \<noteq> ent (l2_of E root ?s2 (i1 virt)) j) \<longrightarrow>
        m_mem ?s2 b = m_mem s b" unfolding l2_same mem using other by blast
  qed (simp_all only: run translate_cong[OF mem] tables_cong[OF mem] has_l2_cong[OF mem] tr ok1 l2
        same frame simp_thms)
qed

text \<open>
  C9. Mapping refines the translation: \<open>create_mapping\<close> of \<open>n\<close> pages within a megabyte succeeds, and
  afterwards the processor translates every address of the range to its place in the physical
  range, and every other address as before; the tables stay well formed. The second-level table
  is a new one from the heap when the megabyte had none.
\<close>

theorem create_mapping_refines:
  assumes "arm_format E" and "root = the_table tbl s" and "tables_ok E root s"
    and "mappable E root virt n s" and "phys AND mask 12 = 0"
  shows "\<exists>s'. create_mapping E tbl virt phys (of_nat n * 0x1000) nc s = Some s' \<and>
    (\<forall>v. translate E root s' v = (if in_range virt n v then Some (phys + (v - virt)) else translate E root s v)) \<and>
    tables_ok E root s'"
  using mapping_effect[OF assms, of nc] unfolding in_range_def by blast

lemma section_offset:
  fixes w x y :: u32
  assumes "x AND mask 20 = x" "y AND mask 20 = y"
  shows "(w AND NOT (mask 20)) OR x = (w AND NOT (mask 20)) OR y \<longleftrightarrow> x = y"
proof
  assume h: "(w AND NOT (mask 20)) OR x = (w AND NOT (mask 20)) OR y"
  have m: "((w AND NOT (mask 20)) OR z) AND mask 20 = z AND mask 20" for z
    by (rule bit_word_eqI) (auto simp: bit_simps)
  have "x = x AND mask 20" using assms(1) by (rule sym)
  also have "\<dots> = y AND mask 20" using m[of x] m[of y] unfolding h by (rule trans[OF sym])
  also have "\<dots> = y" by (rule assms(2))
  finally show "x = y" .
qed (rule arg_cong)

lemma mask_12_20: "(v AND mask 12) AND mask 20 = v AND mask 12" "(v AND mask 20) AND mask 20 = v AND mask 20"
  for v :: u32
  by (rule bit_word_eqI, auto simp: bit_simps)+

lemma virt_to_phys_pt_eq:
  assumes fmt: "arm_format E"
  defines "e \<equiv> \<lambda>s v. m_mem s (ent (m_current s) (i1 v))"
  shows "virt_to_phys_pt E v s =
    (if e s v = 0 then None
     else if me_l1pte_is_sect E (e s v) then Some ((e s v AND NOT (mask 20)) OR (v AND mask 12))
     else Some ((m_mem s (ent (l2_table E (e s v)) (i2 v)) AND NOT (mask 12)) OR (v AND mask 12)))"
  unfolding virt_to_phys_pt_def arm_offsets(2,4)[OF fmt] arm_sizes(3,8,9)[OF fmt] e_def bit.double_compl Let_def
  by (rule refl)

text \<open>
  C32. The translation the kernel computes is the processor's for pages: \<open>virt_to_phys_pt\<close> gives the
  physical address of every address mapped by a page. For a section it keeps only twelve bits
  of the address, so it agrees with the processor exactly on the first page of the section; an
  address without a first-level entry is a \<open>BUG\<close>, and one without a second-level entry gets an
  address in physical page 0.
\<close>

theorem virt_to_phys_pt_agrees:
  assumes fmt: "arm_format E"
  defines "e \<equiv> \<lambda>s v. m_mem s (ent (m_current s) (i1 v))"
  shows "(e s v = 0 \<longrightarrow> virt_to_phys_pt E v s = None) \<and>
    (e s v \<noteq> 0 \<and> \<not> me_l1pte_is_sect E (e s v) \<longrightarrow>
      virt_to_phys_pt E v s = Some (case translate E (m_current s) s v of None \<Rightarrow> v AND mask 12 | Some p \<Rightarrow> p)) \<and>
    (e s v \<noteq> 0 \<and> me_l1pte_is_sect E (e s v) \<longrightarrow>
      (virt_to_phys_pt E v s = translate E (m_current s) s v \<longleftrightarrow> v AND mask 20 = v AND mask 12))"
proof (intro conjI impI)
  assume "e s v = 0"
  then show "virt_to_phys_pt E v s = None" unfolding virt_to_phys_pt_eq[OF fmt] e_def by (rule if_P)
next
  assume h: "e s v \<noteq> 0 \<and> \<not> me_l1pte_is_sect E (e s v)"
  define w where "w = m_mem s (ent (l2_table E (e s v)) (i2 v))"
  have t: "translate E (m_current s) s v = (if w = 0 then None else Some ((w AND NOT (mask 12)) OR (v AND mask 12)))"
    using h by (simp only: translate_def Let_def e_def w_def if_False simp_thms)
  have p: "virt_to_phys_pt E v s = Some ((w AND NOT (mask 12)) OR (v AND mask 12))"
    using h by (simp only: virt_to_phys_pt_eq[OF fmt] e_def w_def if_False simp_thms)
  show "virt_to_phys_pt E v s = Some (case translate E (m_current s) s v of None \<Rightarrow> v AND mask 12 | Some p \<Rightarrow> p)"
    unfolding p t by (cases "w = 0") simp_all
next
  assume h: "e s v \<noteq> 0 \<and> me_l1pte_is_sect E (e s v)"
  have t: "translate E (m_current s) s v = Some ((e s v AND NOT (mask 20)) OR (v AND mask 20))"
    using h by (simp only: translate_def Let_def e_def if_False if_True simp_thms)
  have p: "virt_to_phys_pt E v s = Some ((e s v AND NOT (mask 20)) OR (v AND mask 12))"
    using h by (simp only: virt_to_phys_pt_eq[OF fmt] e_def if_False if_True simp_thms)
  show "virt_to_phys_pt E v s = translate E (m_current s) s v \<longleftrightarrow> v AND mask 20 = v AND mask 12"
    unfolding p t option.inject section_offset[OF mask_12_20] by (rule eq_commute)
qed

section \<open>Unmapping\<close>

lemma clear_loop_effect:
  "0 < n \<Longrightarrow> n \<le> 256 \<Longrightarrow> end = addr + of_nat n * 0x1000 \<Longrightarrow>
   \<exists>m. clear_loop 0x1000 p addr end s = Some (ent p n, s\<lparr>m_mem := m\<rparr>) \<and>
     (\<forall>k < n. m (ent p k) = 0) \<and> (\<forall>a. (\<forall>k < n. a \<noteq> ent p k) \<longrightarrow> m a = m_mem s a)"
proof (induction n arbitrary: p addr s)
  case (Suc n)
  let ?s = "store p 0 s"
  show ?case
  proof (cases n)
    case 0
    then have "clear_loop 0x1000 p addr end s = Some (p + 4, ?s)"
      using Suc.prems by (subst clear_loop.simps) simp
    then show ?thesis using 0 by (intro exI[of _ "m_mem ?s"]) (simp add: store_def fun_upd_def ent_def)
  next
    case (Suc k)
    have step: "end = (addr + 0x1000) + of_nat n * 0x1000" using Suc.prems by (simp add: algebra_simps)
    have ne: "addr + 0x1000 \<noteq> end"
    proof
      assume "addr + 0x1000 = end"
      then have "(of_nat (n * 0x1000) :: addr) = 0" using step by simp
      then have "unat (of_nat (n * 0x1000) :: addr) = 0" by (simp only: unat_0)
      moreover have "unat (of_nat (n * 0x1000) :: addr) = n * 0x1000"
        by (rule unat_of_nat_u32) (use Suc.prems(2) in simp)
      ultimately show False using Suc by simp
    qed
    have eq: "clear_loop 0x1000 p addr end s = clear_loop 0x1000 (p + 4) (addr + 0x1000) end ?s"
      using ne by (subst clear_loop.simps) (simp add: Let_def)
    from Suc.IH[OF _ _ step, of "p + 4" ?s] Suc Suc.prems obtain m where
      m: "clear_loop 0x1000 (p + 4) (addr + 0x1000) end ?s = Some (ent (p + 4) n, ?s\<lparr>m_mem := m\<rparr>)"
      "\<And>i. i < n \<Longrightarrow> m (ent (p + 4) i) = 0"
      "\<And>a. (\<forall>i < n. a \<noteq> ent (p + 4) i) \<Longrightarrow> m a = m_mem ?s a" by auto
    have "m (ent p i) = 0" if "i < Suc n" for i
    proof (cases i)
      case 0
      have "ent p 0 \<noteq> ent (p + 4) j" if "j < n" for j
        unfolding ent_Suc using that Suc.prems(2) ent_inj[of 0 "Suc j" p] by simp
      then have "m (ent p 0) = m_mem ?s (ent p 0)" using m(3) by blast
      then show ?thesis using 0 by simp
    next
      case (Suc j)
      then show ?thesis using m(2)[of j] that by (simp add: ent_Suc)
    qed
    moreover have "m a = m_mem s a" if "\<forall>i < Suc n. a \<noteq> ent p i" for a
    proof -
      have "m a = m_mem ?s a" by (rule m(3)) (use that in \<open>auto simp: ent_Suc\<close>)
      moreover have "a \<noteq> p" using that ent_0 by (metis zero_less_Suc)
      ultimately show ?thesis by simp
    qed
    ultimately show ?thesis using eq m(1) by (intro exI[of _ m]) (simp add: store_def ent_Suc)
  qed
qed simp

lemma free_l2_refines:
  assumes fmt: "arm_format E" and ok: "tables_ok E root s" and al: "unat a mod 4096 = 0"
    and n: "0 < n" and fit: "i2 a + n \<le> 256" and l2: "has_l2 E root s (i1 a)"
  defines "T \<equiv> l2_of E root s (i1 a)"
  shows "\<exists>s'. free_l2_mapping E (ent root (i1 a)) a (a + of_nat n * 0x1000) s = Some s' \<and>
    (\<forall>v. translate E root s' v = (if unat a \<le> unat v \<and> unat v < unat a + 4096 * n
       then None else translate E root s v)) \<and> tables_ok E root s' \<and>
    m_heap s' = (if \<forall>j < 256. i2 a \<le> j \<and> j < i2 a + n \<or> m_mem s (ent T j) = 0
       then me_free E T (m_heap s) else m_heap s) \<and> m_phys s' = m_phys s \<and>
    (\<forall>b. b \<noteq> ent root (i1 a) \<longrightarrow> (\<forall>j < 256. b \<noteq> ent T j) \<longrightarrow> m_mem s' b = m_mem s b)"
proof -
  let ?i = "i1 a" and ?e = "a + of_nat n * 0x1000"
  have e: "l2_table E (m_mem s (ent root ?i)) = T" by (simp add: T_def l2_of_def)
  have apT: "apart root 4096 T 256" using ok l2 by (simp add: tables_ok_def T_def)
  have nn: "n \<le> 256" using fit by simp
  from clear_loop_effect[OF n nn refl, where addr = a and p = "ent T (i2 a)" and s = s, unfolded ent_add] obtain m where
    m: "clear_loop 0x1000 (ent T (i2 a)) a ?e s = Some (ent T (i2 a + n), s\<lparr>m_mem := m\<rparr>)"
    and z: "\<And>k. k < n \<Longrightarrow> m (ent T (i2 a + k)) = 0"
    and other: "\<And>b. (\<forall>k < n. b \<noteq> ent T (i2 a + k)) \<Longrightarrow> m b = m_mem s b" by blast
  have top: "m (ent root j) = m_mem s (ent root j)" if "j < 4096" for j
  proof (rule other, intro allI impI)
    fix k assume "k < n"
    then show "ent root j \<noteq> ent T (i2 a + k)" using fit by (intro apartD[OF apT that]) simp
  qed
  have mT: "m (ent T j) = (if i2 a \<le> j \<and> j < i2 a + n then 0 else m_mem s (ent T j))" if j: "j < 256" for j
  proof (cases "i2 a \<le> j \<and> j < i2 a + n")
    case True
    then show ?thesis using z[of "j - i2 a"] by auto
  next
    case False
    have "m (ent T j) = m_mem s (ent T j)"
    proof (rule other, intro allI impI)
      fix k assume k: "k < n"
      then have "j \<noteq> i2 a + k" using False by linarith
      then show "ent T j \<noteq> ent T (i2 a + k)" using ent_inj[of j "i2 a + k" T] j fit k by simp
    qed
    then show ?thesis using False by auto
  qed
  have m2: "m (ent (l2_of E root s j) k) = m_mem s (ent (l2_of E root s j) k)"
    if h: "has_l2 E root s j" "j \<noteq> ?i" "k < 256" for j k
  proof (rule other, intro allI impI)
    have "apart (l2_of E root s j) 256 T 256" using ok h l2 by (simp add: tables_ok_def T_def)
    then show "ent (l2_of E root s j) k \<noteq> ent T (i2 a + k')" if "k' < n" for k'
      using that fit h(3) by (intro apartD) (assumption | linarith)+
  qed
  define found where "found = (\<exists>j \<in> set [0..<256]. m (ent T j) \<noteq> 0)"
  have fnd: "found \<longleftrightarrow> \<not> (\<forall>j < 256. i2 a \<le> j \<and> j < i2 a + n \<or> m_mem s (ent T j) = 0)"
    using mT by (auto simp: found_def)
  define m' where "m' = (if found then m else m(ent root ?i := 0))"
  define s2 where "s2 = op (TableFlush T (ent T 256)) (s\<lparr>m_mem := m\<rparr>)"
  define s' where "s' = (if found then s2
     else op (EntryFlush (ent root ?i)) (store (ent root ?i) 0 (s2\<lparr>m_heap := me_free E T (m_heap s2)\<rparr>)))"
  have "m_mem s2 = m" "m_heap s2 = m_heap s" by (simp_all add: s2_def op_def)
  then have s': "m_mem s' = m'" "m_heap s' = (if found then m_heap s else me_free E T (m_heap s))"
    by (simp_all add: s'_def m'_def store_def op_def)
  have run: "free_l2_mapping E (ent root ?i) a ?e s = Some s'"
    unfolding free_l2_mapping_def arm_offsets(3,4)[OF fmt] arm_sizes(1,7)[OF fmt] e m Let_def
    using top[OF i1_less, of a] e \<open>m_mem s2 = m\<close>
    by (simp add: s'_def s2_def[symmetric] found_def)
  have top': "m' (ent root j) = (if j = ?i \<and> \<not> found then 0 else m_mem s (ent root j))" if "j < 4096" for j
    using top[OF that] ent_inj[of j ?i root] that i1_less[of a] by (simp add: m'_def)
  have "tables_ok E root s'"
  proof -
    have "has_l2 E root s' j \<Longrightarrow> has_l2 E root s j \<and> l2_of E root s' j = l2_of E root s j" for j
      using top'[of j] by (auto simp: has_l2_def l2_of_def s' split: if_splits)
    then show ?thesis using ok unfolding tables_ok_def by metis
  qed
  moreover have "translate E root s' v = (if unat a \<le> unat v \<and> unat v < unat a + 4096 * n
       then None else translate E root s v)" for v
  proof (cases "i1 v = ?i")
    case False
    have "m' (ent (l2_of E root s (i1 v)) (i2 v)) = m_mem s (ent (l2_of E root s (i1 v)) (i2 v))"
      if h: "has_l2 E root s (i1 v)"
    proof -
      have ap: "apart root 4096 (l2_of E root s (i1 v)) 256" using ok h by (simp add: tables_ok_def)
      have "ent (l2_of E root s (i1 v)) (i2 v) \<noteq> ent root ?i" using apartD[OF ap i1_less i2_less, of a v] by metis
      then show ?thesis using m2[OF h False i2_less] by (simp add: m'_def)
    qed
    then have "translate E root s' v = translate E root s v"
      using top'[OF i1_less, of v] False by (auto simp: translate_def Let_def has_l2_def l2_of_def s')
    then show ?thesis using False range_indices[OF al fit, of v] by auto
  next
    case True
    have old: "m_mem s (ent root ?i) \<noteq> 0" "\<not> me_l1pte_is_sect E (m_mem s (ent root ?i))"
      using l2 by (simp_all add: has_l2_def)
    define w where "w = m_mem s (ent T (i2 v))"
    have tr: "translate E root s v = (if w = 0 then None else Some ((w AND NOT (mask 12)) OR (v AND mask 12)))"
      using old e by (simp add: translate_def Let_def True w_def)
    have mw: "m (ent T (i2 v)) = (if i2 a \<le> i2 v \<and> i2 v < i2 a + n then 0 else w)"
      using mT[OF i2_less] by (simp add: w_def)
    have "translate E root s' v = (if i2 a \<le> i2 v \<and> i2 v < i2 a + n then None else translate E root s v)"
    proof (cases found)
      case f: True
      then have "m' (ent root ?i) = m_mem s (ent root ?i)" "m' (ent T (i2 v)) = m (ent T (i2 v))"
        using top'[OF i1_less, of a] by (simp_all add: m'_def)
      then show ?thesis using old e mw unfolding tr by (simp add: translate_def Let_def True s')
    next
      case f: False
      then have "m (ent T (i2 v)) = 0" using i2_less[of v] by (simp add: found_def)
      then have "\<not> (i2 a \<le> i2 v \<and> i2 v < i2 a + n) \<longrightarrow> w = 0" using mw by presburger
      then show ?thesis using f unfolding tr by (auto simp: translate_def Let_def True s' m'_def)
    qed
    then show ?thesis using True range_indices[OF al fit, of v] by simp
  qed
  moreover have "m_phys s' = m_phys s" by (simp add: s'_def s2_def store_def)
  moreover have "m_mem s' b = m_mem s b" if "b \<noteq> ent root ?i" "\<forall>j < 256. b \<noteq> ent T j" for b
  proof -
    have "m b = m_mem s b" by (rule other) (use that(2) fit in simp)
    then show ?thesis using that(1) by (simp add: s' m'_def)
  qed
  ultimately show ?thesis using run s'(2) fnd by (intro exI[of _ s']) (simp only: simp_thms, auto)
qed

lemma release_effect:
  assumes fmt: "arm_format E" and root: "root = the_table tbl s" and ok: "tables_ok E root s"
    and range: "page_range virt n" and l2: "has_l2 E root s (i1 virt)"
  shows "\<exists>s'. release_mapping E tbl virt (of_nat n * 0x1000) s = Some s' \<and>
    (\<forall>v. translate E root s' v = (if in_range virt n v then None else translate E root s v)) \<and> tables_ok E root s' \<and>
    m_heap s' = (if \<forall>j < 256. i2 virt \<le> j \<and> j < i2 virt + n \<or> m_mem s (ent (l2_of E root s (i1 virt)) j) = 0
       then me_free E (l2_of E root s (i1 virt)) (m_heap s) else m_heap s) \<and> m_phys s' = m_phys s \<and>
    (\<forall>b. b \<noteq> ent root (i1 virt) \<longrightarrow> (\<forall>j < 256. b \<noteq> ent (l2_of E root s (i1 virt)) j) \<longrightarrow> m_mem s' b = m_mem s b)"
proof -
  have al: "virt AND mask 12 = 0" and n: "0 < n" "n < 256" and fit: "i2 virt + n \<le> 256"
    using range by (simp_all add: page_range_def)
  have av: "unat virt mod 4096 = 0" using al unat_and_mask[of virt 12] by simp
  let ?e = "virt + of_nat n * 0x1000"
  have "(virt OR ?e) AND NOT (me_SECT_MASK E) \<noteq> 0"
    using not_sections[OF av n, of 0] unfolding arm_sizes(5)[OF fmt] bit.double_compl by simp
  then have "release_loop E (ent root (i1 virt)) virt ?e s = free_l2_mapping E (ent root (i1 virt)) virt ?e s"
    by (subst release_loop.simps)
       (simp add: sect_end_page[OF fmt av n(1) fit] free_l1_mapping_def Let_def)
  then have "release_mapping E tbl virt (of_nat n * 0x1000) s = free_l2_mapping E (ent root (i1 virt)) virt ?e s"
    by (simp only: release_mapping_def page_span_pages[OF fmt al] arm_offsets(2)[OF fmt] root Let_def prod.case)
  then show ?thesis using free_l2_refines[OF fmt ok av n(1) fit l2] by (simp add: in_range_def)
qed

text \<open>
  C10. Unmapping refines the translation: \<open>release_mapping\<close> of \<open>n\<close> pages within a megabyte that has a
  second-level table removes exactly their translations, keeps all others and the tables well
  formed, and gives the second-level table back to the heap exactly when nothing is mapped
  through it any more.
\<close>

theorem release_mapping_refines:
  assumes fmt: "arm_format E" and root: "root = the_table tbl s" and ok: "tables_ok E root s"
    and range: "page_range virt n" and l2: "has_l2 E root s (i1 virt)"
  shows "\<exists>s'. release_mapping E tbl virt (of_nat n * 0x1000) s = Some s' \<and>
    (\<forall>v. translate E root s' v = (if in_range virt n v then None else translate E root s v)) \<and> tables_ok E root s' \<and>
    m_heap s' = (if \<forall>j < 256. i2 virt \<le> j \<and> j < i2 virt + n \<or> m_mem s (ent (l2_of E root s (i1 virt)) j) = 0
       then me_free E (l2_of E root s (i1 virt)) (m_heap s) else m_heap s)"
  using release_effect[OF assms] by blast

section \<open>The interface of a page map\<close>

text \<open>
  What the rest of the kernel relies on: adding a range makes it translate to the physical range,
  removing it takes it out, and neither touches any other address.
\<close>

locale page_map =
  fixes inv :: "'s \<Rightarrow> bool" and look :: "'s \<Rightarrow> addr \<Rightarrow> addr option"
    and add :: "addr \<Rightarrow> addr \<Rightarrow> nat \<Rightarrow> 's \<Rightarrow> 's option" and rem :: "addr \<Rightarrow> nat \<Rightarrow> 's \<Rightarrow> 's option"
    and can_add :: "addr \<Rightarrow> nat \<Rightarrow> 's \<Rightarrow> bool" and can_rem :: "addr \<Rightarrow> nat \<Rightarrow> 's \<Rightarrow> bool"
  assumes add_law: "inv s \<Longrightarrow> can_add a n s \<Longrightarrow> p AND mask 12 = 0 \<Longrightarrow>
      \<exists>t. add a p n s = Some t \<and> inv t \<and> can_rem a n t \<and>
        (\<forall>v. look t v = (if in_range a n v then Some (p + (v - a)) else look s v))"
    and rem_law: "inv s \<Longrightarrow> can_rem a n s \<Longrightarrow>
      \<exists>t. rem a n s = Some t \<and> inv t \<and> (\<forall>v. look t v = (if in_range a n v then None else look s v))"
begin

lemma add_rem:
  assumes "inv s" "can_add a n s" "p AND mask 12 = 0" "\<And>v. in_range a n v \<Longrightarrow> look s v = None"
  shows "\<exists>t u. add a p n s = Some t \<and> rem a n t = Some u \<and> inv u \<and> look u = look s"
proof -
  obtain t where t: "add a p n s = Some t" "inv t" "can_rem a n t"
    "\<And>v. look t v = (if in_range a n v then Some (p + (v - a)) else look s v)"
    using add_law[OF assms(1-3)] by blast
  obtain u where u: "rem a n t = Some u" "inv u" "\<And>v. look u v = (if in_range a n v then None else look t v)"
    using rem_law[OF t(2,3)] by blast
  have "look u v = look s v" for v using t(4) u(3) assms(4) by simp
  then show ?thesis using t(1) u(1,2) by blast
qed

end

interpretation tables: page_map
  "\<lambda>s. arm_format E \<and> root \<noteq> NULL \<and> tables_ok E root s" "translate E root"
  "\<lambda>a p n. create_mapping E root a p (of_nat n * 0x1000) nc" "\<lambda>a n. release_mapping E root a (of_nat n * 0x1000)"
  "mappable E root" "\<lambda>a n s. page_range a n \<and> has_l2 E root s (i1 a)" for E root nc
proof (unfold_locales, goal_cases)
  case (1 s a n p)
  moreover have "root = the_table root s" using 1(1) by (simp add: the_table_def)
  moreover have "page_range a n" using 1(2) by (simp add: mappable_def)
  ultimately show ?case using mapping_effect[of E root root s a n p nc] unfolding in_range_def by blast
next
  case (2 s a n)
  moreover have "root = the_table root s" using 2(1) by (simp add: the_table_def)
  ultimately show ?case using release_effect[of E root root s a n] by blast
qed

text \<open>
  C22. Mapping a free range and releasing it again leaves every translation as it was: the kernel's
  temporary mappings (the fixed mapping of \<open>duplicate_user_space\<close>) leave no trace.
\<close>

theorem mapping_round_trip:
  assumes "arm_format E" "root \<noteq> NULL" "tables_ok E root s" "mappable E root a n s" "p AND mask 12 = 0"
    and "\<And>v. in_range a n v \<Longrightarrow> translate E root s v = None"
  shows "\<exists>t u. create_mapping E root a p (of_nat n * 0x1000) nc s = Some t \<and>
    release_mapping E root a (of_nat n * 0x1000) t = Some u \<and>
    tables_ok E root u \<and> translate E root u = translate E root s"
  using tables.add_rem[of E root s a n p nc] assms by blast

section \<open>Root tables\<close>

lemma reset_entries:
  assumes "k \<le> 4096"
  shows "(\<forall>a. m_mem (fold (reset_entry E root) [0..<k] s) a =
      (if \<exists>j < k. a = ent root j then 0 else m_mem s a)) \<and>
    m_heap (fold (reset_entry E root) [0..<k] s) =
      fold (me_free E) (map (l2_of E root s) (filter (has_l2 E root s) [0..<k])) (m_heap s)"
  using assms
proof (induction k)
  case (Suc k)
  let ?s = "fold (reset_entry E root) [0..<k] s"
  have e: "m_mem ?s (ent root k) = m_mem s (ent root k)"
  proof -
    have "\<not> (\<exists>j < k. ent root k = ent root j)" using ent_inj[of k _ root] Suc.prems by auto
    then show ?thesis using Suc by auto
  qed
  have "m_mem (reset_entry E root k ?s) a = (if a = ent root k then 0 else m_mem ?s a)" for a
    by (simp add: reset_entry_def Let_def)
  then have "m_mem (reset_entry E root k ?s) a = (if \<exists>j < Suc k. a = ent root j then 0 else m_mem s a)" for a
    using Suc by (auto simp: less_Suc_eq)
  moreover have "m_heap (reset_entry E root k ?s) =
      (if has_l2 E root s k then me_free E (l2_of E root s k) (m_heap ?s) else m_heap ?s)"
    using Suc.prems by (simp add: reset_entry_def Let_def e has_l2_def l2_of_def l2_table_def store_def op_def)
  ultimately show ?case using Suc by simp
qed simp

text \<open>
  Resetting a root table gives the whole user space back: every entry below the kernel area is
  cleared, every second-level table it led to is freed, each once and in order, and the kernel
  entries and all other words stay. The flush at the end covers the first 4096 bytes of the
  table, a quarter of it: the end address is computed on a \<open>void\<close> pointer.
\<close>

theorem reset_root_pgtable_clears:
  assumes fmt: "arm_format E"
  shows "let t = reset_root_pgtable E root False s; k = i1 (me_KERNEL_VADDR E) in
    (\<forall>j < 4096. m_mem t (ent root j) = (if j < k then 0 else m_mem s (ent root j))) \<and>
    (\<forall>a. (\<forall>j < 4096. a \<noteq> ent root j) \<longrightarrow> m_mem t a = m_mem s a) \<and>
    m_heap t = fold (me_free E) (map (l2_of E root s) (filter (has_l2 E root s) [0..<k])) (m_heap s) \<and>
    last (m_ops t) = TableFlush root (root + 4096)"
proof -
  define k where "k = i1 (me_KERNEL_VADDR E)"
  define t where "t = reset_root_pgtable E root False s"
  have k: "k \<le> 4096" unfolding k_def using i1_less[of "me_KERNEL_VADDR E"] by (rule less_imp_le)
  have t: "t = op (TableFlush root (root + 4096)) (fold (reset_entry E root) [0..<k] s)"
    by (simp add: t_def reset_root_pgtable_def arm_offsets(1)[OF fmt] arm_sizes(6)[OF fmt] k_def)
  have m: "m_mem t a = (if \<exists>j < k. a = ent root j then 0 else m_mem s a)" for a
    using reset_entries[OF k, of E root s] by (simp add: t)
  have "m_mem t (ent root j) = (if j < k then 0 else m_mem s (ent root j))" if "j < 4096" for j
  proof -
    have "ent root j = ent root i \<longleftrightarrow> j = i" if "i < k" for i
      using ent_inj[of j i root] \<open>j < 4096\<close> that k by simp
    then have "(\<exists>i < k. ent root j = ent root i) \<longleftrightarrow> j < k" by blast
    then show ?thesis unfolding m by (rule arg_cong)
  qed
  moreover have "m_mem t a = m_mem s a" if "\<forall>j < 4096. a \<noteq> ent root j" for a
  proof -
    have "\<not> (\<exists>j < k. a = ent root j)" using that k order_less_le_trans by blast
    then show ?thesis unfolding m by (rule if_not_P)
  qed
  moreover have "m_heap t = fold (me_free E) (map (l2_of E root s) (filter (has_l2 E root s) [0..<k])) (m_heap s)"
    "last (m_ops t) = TableFlush root (root + 4096)"
    using reset_entries[OF k, of E root s] by (simp_all add: t op_def)
  ultimately show ?thesis unfolding Let_def k_def[symmetric] t_def[symmetric] by blast
qed

section \<open>A concrete format\<close>

text \<open>
  An instance of the headers: the type of an entry in its low bits, virtual and physical addresses the
  same, and a heap that hands out 256 blocks of 16 KB and 4096 frames in order, and remembers what is
  freed.
\<close>

type_synonym sim_heap = "nat \<times> nat \<times> addr list"

definition sim_memalign :: "u32 \<Rightarrow> u32 \<Rightarrow> sim_heap \<Rightarrow> addr \<times> sim_heap" where
  "sim_memalign n al h = (case h of (k, f, fr) \<Rightarrow>
     if k < 256 \<and> n \<le> 0x4000 then (of_nat (0x20000 + 0x4000 * k), (Suc k, f, fr)) else (NULL, h))"

definition sim_get_free_page :: "sim_heap \<Rightarrow> addr \<times> sim_heap" where
  "sim_get_free_page h = (case h of (k, f, fr) \<Rightarrow>
     if f < 4096 then (of_nat (0x800000 + 0x1000 * f), (k, Suc f, fr)) else (NULL, h))"

definition sim_arm :: "sim_heap mmu_env" where
  "sim_arm = \<lparr>me_PAGE_SIZE = 0x1000, me_PAGE_SHIFT = 12, me_PAGE_MASK = NOT (mask 12),
     me_SECT_SIZE = 0x100000, me_SECT_MASK = NOT (mask 20), me_L1_ENTRIES = 4096, me_L2_ENTRIES = 256,
     me_L1_SIZE = 0x4000, me_L1_ORDER = 12, me_L1_PAGE_ADDR_MASK = NOT (mask 10),
     me_L1_SECT_ADDR_MASK = NOT (mask 20), me_L2_ADDR_MASK = NOT (mask 12),
     me_TTBR0_BASE_ADDR_MASK = NOT (mask 14), me_SZ_1K = 0x400, me_SZ_16K = 0x4000,
     me_RAM_BASE = 0x40000000, me_KERNEL_VADDR = 0xC0000000, me_UART_LL_PADDR = 0x09000000,
     me_L1_SYS_OFFSET = 0x4000, me_FIXMAP_MAPPING = 0xF0000000, me_RAMDEV_VADDR = 0xE0000000,
     me_valid_ramdev = False, me_ALIGN_UP = (\<lambda>x a. (x + (a - 1)) AND NOT (mask 12)),
     me_va = (\<lambda>x. x), me_pa = (\<lambda>x. x), me_l1pte_index = i1, me_l1pte_offset = (\<lambda>t v. ent t (i1 v)),
     me_l2pte_offset = (\<lambda>e v. ent (e AND NOT (mask 10)) (i2 v)), me_l2pte_first = (\<lambda>e. e AND NOT (mask 10)),
     me_l1pte_is_sect = (\<lambda>e. bit e 1),
     me_l1sect_addr_end = (\<lambda>a e. let b = (a + 0x100000) AND NOT (mask 20) in if b - 1 < e - 1 then b else e),
     me_pte_index_to_vaddr = (\<lambda>i j. of_nat (1048576 * i + 4096 * j)),
     me_set_l1_page = (\<lambda>nc e. (e AND NOT (mask 10)) OR 1), me_set_l1_sect = (\<lambda>nc e. (e AND NOT (mask 20)) OR 2),
     me_set_l2 = (\<lambda>nc e. (e AND NOT (mask 12)) OR 2), me_memalign = sim_memalign,
     me_free = (\<lambda>a (k, f, fr). (k, f, a # fr)), me_get_free_page = sim_get_free_page, me_malloc_node = Some\<rparr>"

lemma sim_attr:
  fixes e :: u32
  shows "(e AND NOT (mask 10)) OR 1 \<noteq> 0" "\<not> bit ((e AND NOT (mask 10)) OR 1) 1"
    "((e AND NOT (mask 10)) OR 1) AND NOT (mask 10) = e AND NOT (mask 10)"
    "(e AND NOT (mask 20)) OR 2 \<noteq> 0" "bit ((e AND NOT (mask 20)) OR 2) 1"
    "((e AND NOT (mask 20)) OR 2) AND NOT (mask 20) = e AND NOT (mask 20)"
    "(e AND NOT (mask 12)) OR 2 \<noteq> 0" "((e AND NOT (mask 12)) OR 2) AND NOT (mask 12) = e AND NOT (mask 12)"
proof -
  have two: "(2 :: u32) = push_bit 1 1" by simp
  have b: "bit ((e AND NOT (mask 10)) OR 1) 0" "bit ((e AND NOT (mask 20)) OR 2) 1" "bit ((e AND NOT (mask 12)) OR 2) 1"
    unfolding two by (simp_all add: bit_simps)
  then show "(e AND NOT (mask 10)) OR 1 \<noteq> 0" "(e AND NOT (mask 20)) OR 2 \<noteq> 0" "(e AND NOT (mask 12)) OR 2 \<noteq> 0"
    "bit ((e AND NOT (mask 20)) OR 2) 1" by (metis bit_0_eq bot_apply bot_bool_def)+
  show "\<not> bit ((e AND NOT (mask 10)) OR 1) 1" by (simp add: bit_simps)
  show "((e AND NOT (mask 10)) OR 1) AND NOT (mask 10) = e AND NOT (mask 10)"
    by (rule bit_word_eqI) (auto simp: bit_simps)
  show "((e AND NOT (mask 20)) OR 2) AND NOT (mask 20) = e AND NOT (mask 20)"
    "((e AND NOT (mask 12)) OR 2) AND NOT (mask 12) = e AND NOT (mask 12)"
    unfolding two by (rule bit_word_eqI, auto simp: bit_simps)+
qed

lemma sim_blocks: "(of_nat (0x20000 + 0x4000 * k) :: u32) AND NOT (mask 10) = of_nat (0x20000 + 0x4000 * k)"
proof -
  have "(of_nat (0x20000 + 0x4000 * k) :: u32) = push_bit 14 (of_nat (8 + k))" by (simp add: push_bit_eq_mult)
  moreover have "push_bit 14 w AND NOT (mask 10) = push_bit 14 w" for w :: u32
    by (rule bit_word_eqI) (auto simp: bit_simps)
  ultimately show ?thesis by simp
qed

lemma sim_arm_format: "arm_format sim_arm"
proof -
  have "fst (sim_memalign n m h) AND NOT (mask 10) = fst (sim_memalign n m h)" for n m h
    using sim_blocks by (simp add: sim_memalign_def split: prod.split del: of_nat_add of_nat_mult)
  then show ?thesis using sim_attr(2,5) unfolding One_nat_def
    unfolding arm_format_def by (simp add: sim_arm_def sim_attr l2_table_def Let_def)
qed

definition sim_tables :: "sim_heap mmu" where
  "sim_tables = \<lparr>m_mem = (\<lambda>_. 0), m_phys = (\<lambda>_. 0), m_heap = (0, 0, []), m_sys_root = 0x10000, m_current = 0x10000, m_ops = []\<rparr>"

lemma sim_tables_ok: "tables_ok sim_arm 0x10000 sim_tables"
  by (simp add: tables_ok_def has_l2_def sim_tables_def)

lemma sim_mappable: "mappable sim_arm 0x10000 0x8000 2 sim_tables"
proof -
  have "ent 0x10000 i \<noteq> ent 0x20000 j" if "i < 4096" "j < 256" for i j
  proof -
    have "unat (ent 0x10000 i) = 0x10000 + 4 * i"
      using that unat_of_nat_u32[of "0x10000 + 4 * i"] by (simp add: ent_def)
    moreover have "unat (ent 0x20000 j) = 0x20000 + 4 * j"
      using that unat_of_nat_u32[of "0x20000 + 4 * j"] by (simp add: ent_def)
    ultimately have "unat (ent 0x10000 i) < unat (ent 0x20000 j)" using that by simp
    then show ?thesis by auto
  qed
  moreover have "(0x8000 :: addr) AND mask 12 = 0" by (simp add: mask_eq_exp_minus_1)
  ultimately show ?thesis
    by (simp add: mappable_def page_range_def i2_def fresh_table_def apart_def has_l2_def sim_tables_def
        sim_arm_def sim_memalign_def)
qed

theorem create_mapping_refines_witness:
  "\<exists>s'. create_mapping sim_arm 0x10000 0x8000 0x50000 0x2000 False sim_tables = Some s' \<and>
    translate sim_arm 0x10000 s' 0x9004 = Some 0x51004 \<and> translate sim_arm 0x10000 s' 0xA000 = None"
proof -
  have phys: "(0x50000 :: addr) AND mask 12 = 0" by (simp add: mask_eq_exp_minus_1)
  have no: "translate sim_arm 0x10000 sim_tables v = None" for v by (simp add: translate_def sim_tables_def)
  show ?thesis
    using create_mapping_refines[OF sim_arm_format _ sim_tables_ok sim_mappable phys, of "0x10000" False]
    by (auto simp: the_table_def in_range_def no)
qed

theorem virt_to_phys_pt_agrees_witness:
  "virt_to_phys_pt sim_arm 0xC0012345 (store (ent 0x10000 0xC00) 0x40000002 sim_tables)
    \<noteq> translate sim_arm 0x10000 (store (ent 0x10000 0xC00) 0x40000002 sim_tables) 0xC0012345"
proof -
  let ?s = "store (ent 0x10000 0xC00) 0x40000002 sim_tables"
  have "m_mem ?s (ent (m_current ?s) (i1 0xC0012345)) = 0x40000002" "m_current ?s = 0x10000"
    by (simp_all add: sim_tables_def i1_def store_def)
  moreover have "me_l1pte_is_sect sim_arm 0x40000002" by (simp add: sim_arm_def)
  moreover have "(0xC0012345 :: addr) AND mask 20 \<noteq> 0xC0012345 AND mask 12" by (simp add: mask_eq_exp_minus_1)
  ultimately show ?thesis
    using virt_to_phys_pt_agrees[OF sim_arm_format, of ?s "0xC0012345"] by simp
qed

theorem release_mapping_refines_witness:
  "\<exists>s u. create_mapping sim_arm 0x10000 0x8000 0x50000 0x2000 False sim_tables = Some s \<and>
    release_mapping sim_arm 0x10000 0x8000 0x2000 s = Some u \<and> translate sim_arm 0x10000 u 0x9004 = None"
proof -
  have phys: "(0x50000 :: addr) AND mask 12 = 0" by (simp add: mask_eq_exp_minus_1)
  have root: "0x10000 = the_table 0x10000 s" for s :: "sim_heap mmu" by (simp add: the_table_def)
  obtain s where s: "create_mapping sim_arm 0x10000 0x8000 0x50000 0x2000 False sim_tables = Some s"
    "tables_ok sim_arm 0x10000 s" "has_l2 sim_arm 0x10000 s (i1 0x8000)"
    using mapping_effect[OF sim_arm_format root sim_tables_ok sim_mappable phys, of False] by auto
  moreover have "page_range 0x8000 2" using sim_mappable by (simp add: mappable_def)
  ultimately show ?thesis
    using release_mapping_refines[OF sim_arm_format root s(2) _ s(3), of 2] by (auto simp: in_range_def)
qed

theorem mapping_round_trip_witness:
  "\<exists>t u. create_mapping sim_arm 0x10000 0x8000 0x50000 0x2000 True sim_tables = Some t \<and>
    release_mapping sim_arm 0x10000 0x8000 0x2000 t = Some u \<and>
    translate sim_arm 0x10000 u = translate sim_arm 0x10000 sim_tables"
proof -
  have phys: "(0x50000 :: addr) AND mask 12 = 0" by (simp add: mask_eq_exp_minus_1)
  have no: "translate sim_arm 0x10000 sim_tables v = None" for v by (simp add: translate_def sim_tables_def)
  show ?thesis
    using mapping_round_trip[OF sim_arm_format _ sim_tables_ok sim_mappable phys no, of True] by auto
qed

theorem reset_root_pgtable_clears_witness:
  "m_mem (reset_root_pgtable sim_arm 0x10000 False (store (ent 0x10000 5) 0x20001 sim_tables)) (ent 0x10000 5) = 0"
  using reset_root_pgtable_clears[OF sim_arm_format, of "0x10000" "store (ent 0x10000 5) 0x20001 sim_tables"]
  by (simp add: Let_def sim_arm_def i1_def)

end
