(* ===== verification/AddressSpace.thy ===== *)
theory AddressSpace
  imports Mmu
begin

unbundle bit_operations_syntax

text \<open>
  The copy of a user space that \<open>fork\<close> makes, \<open>duplicate_user_space\<close> of \<open>so3/arch/arm32/mmu.c\<close>: what
  it promises is stated on addresses and bytes, and the tables, the fixed mapping and the
  allocations by which the code gets there are shown to keep the promise.
\<close>

section \<open>Bytes of a page\<close>

definition frame_of :: "addr \<Rightarrow> addr" where "frame_of a = a AND NOT (mask 12)"

lemma frame_split: "frame_of a + (a AND mask 12) = a"
  using and_plus_not_and[of a "mask 12"] by (simp add: frame_of_def add.commute)

lemma offset_small: "unat (a AND mask 12 :: addr) < 4096"
  by (simp add: unat_and_mask)

lemma frame_add:
  assumes p: "p AND mask 12 = 0" and k: "k < 4096"
  shows "frame_of (p + of_nat k) = p" "(p + of_nat k) AND mask 12 = (of_nat k :: addr)"
proof -
  have "take_bit 12 k = k" using k by (simp add: take_bit_eq_mod)
  then have "(of_nat k :: addr) AND mask 12 = of_nat k"
    by (metis of_nat_take_bit take_bit_eq_mask)
  then have small: "bit (of_nat k :: addr) i \<Longrightarrow> i < 12" for i by (metis bit_and_iff bit_mask_iff)
  have high: "bit p i \<Longrightarrow> 12 \<le> i" for i
  proof (rule ccontr)
    assume "bit p i" "\<not> 12 \<le> i"
    moreover have "bit p i \<Longrightarrow> i < LENGTH(32)" by (rule bit_imp_le_length)
    ultimately have "bit (p AND mask 12) i" by (simp add: bit_simps)
    then show False using p by simp
  qed
  have "p AND of_nat k = 0" by (rule bit_word_eqI) (use small high in \<open>auto simp: bit_and_iff not_le[symmetric]\<close>)
  then have "p + of_nat k = p OR of_nat k" by (rule disjunctive_add_eq_or)
  then show "frame_of (p + of_nat k) = p" "(p + of_nat k) AND mask 12 = (of_nat k :: addr)"
    unfolding frame_of_def
    by (simp_all only:) (rule bit_word_eqI, use small high in \<open>auto simp: bit_simps not_le[symmetric]\<close>)+
qed

lemma page_byte:
  assumes "p AND mask 12 = 0" "k < 4096"
  shows "a = p + of_nat k \<longleftrightarrow> frame_of a = p \<and> unat (a AND mask 12) = k"
proof
  assume "a = p + of_nat k"
  then show "frame_of a = p \<and> unat (a AND mask 12) = k"
    using frame_add[OF assms] unat_of_nat_u32[of k] assms(2) by simp
next
  assume h: "frame_of a = p \<and> unat (a AND mask 12) = k"
  moreover have "of_nat (unat (a AND mask 12)) = a AND mask 12" by simp
  ultimately have "a AND mask 12 = of_nat k" by simp
  then show "a = p + of_nat k" using frame_split[of a] h by simp
qed

lemma memcpy_page:
  assumes dst: "\<And>k. k < 4096 \<Longrightarrow> translate E (m_current s) s (dst + of_nat k) = Some (p + of_nat k)"
    and src: "\<And>k. k < 4096 \<Longrightarrow> translate E (m_current s) s (src + of_nat k) = Some (q + of_nat k)"
    and al: "p AND mask 12 = 0" "q AND mask 12 = 0" and ne: "p \<noteq> q"
  shows "memcpy E dst src 4096 s = Some (s\<lparr>m_phys := \<lambda>a.
    if frame_of a = p then m_phys s (q + (a AND mask 12)) else m_phys s a\<rparr>)"
proof -
  define f where "f = (\<lambda>n a. if frame_of a = p \<and> unat (a AND mask 12) < n then m_phys s (q + (a AND mask 12)) else m_phys s a)"
  have "n \<le> 4096 \<Longrightarrow> memcpy E dst src n s = Some (s\<lparr>m_phys := f n\<rparr>)" for n
  proof (induction n)
    case 0
    show ?case by (simp add: f_def)
  next
    case (Suc n)
    let ?s = "s\<lparr>m_phys := f n\<rparr>"
    have n: "n < 4096" using Suc.prems by simp
    have tr: "translate E (m_current ?s) ?s v = translate E (m_current s) s v" for v
      by (simp add: translate_def)
    have "f n (q + of_nat n) = m_phys s (q + of_nat n)"
      using frame_add(1)[OF al(2) n] ne by (simp add: f_def)
    then have load: "load_byte E (src + of_nat n) ?s = Some (m_phys s (q + of_nat n))"
      unfolding load_byte_def tr src[OF n] by simp
    have "(f n)(p + of_nat n := m_phys s (q + of_nat n)) = f (Suc n)"
    proof
      fix a
      show "((f n)(p + of_nat n := m_phys s (q + of_nat n))) a = f (Suc n) a"
      proof (cases "a = p + of_nat n")
        case True
        then show ?thesis
          using page_byte[OF al(1) n, of a] frame_add(2)[OF al(1) n] by (simp add: f_def)
      next
        case False
        then show ?thesis using page_byte[OF al(1) n, of a] by (auto simp: f_def less_Suc_eq)
      qed
    qed
    then have "store_byte E (dst + of_nat n) (m_phys s (q + of_nat n)) ?s = Some (s\<lparr>m_phys := f (Suc n)\<rparr>)"
      unfolding store_byte_def tr dst[OF n] by simp
    then show ?case using Suc.IH n load by simp
  qed
  from this[of 4096] show ?thesis using offset_small by (simp add: f_def)
qed


section \<open>The promise of the copy\<close>

text \<open>The words of a table, and of all tables of a root.\<close>

definition words_at :: "addr \<Rightarrow> nat \<Rightarrow> addr set" where "words_at t n = ent t ` {..<n}"

definition table_words :: "'h mmu_env \<Rightarrow> addr \<Rightarrow> 'h mmu \<Rightarrow> addr set" where
  "table_words E root s = words_at root 4096 \<union> (\<Union>i \<in> {i. has_l2 E root s i}. words_at (l2_of E root s i) 256)"

text \<open>
  What the kernel heap and the frame allocator promise: with \<open>owned\<close> the words of the blocks and \<open>used\<close> the
  frames handed out so far, a new block shares no word with the ones before, a new frame is aligned and none
  of the ones before, and a list node leaves both alone. \<open>room\<close> is enough space for the next \<open>n\<close> allocations
  of either kind, each frame with a node.
\<close>

definition heap_laws :: "'h mmu_env \<Rightarrow> ('h \<Rightarrow> addr set) \<Rightarrow> ('h \<Rightarrow> addr set) \<Rightarrow> bool" where
  "heap_laws E owned used \<longleftrightarrow>
     (\<forall>n al h t h'. me_memalign E n al h = (t, h') \<longrightarrow> t \<noteq> NULL \<longrightarrow>
        words_at t (unat n div 4) \<inter> owned h = {} \<and> owned h \<union> words_at t (unat n div 4) \<subseteq> owned h' \<and>
        used h \<subseteq> used h') \<and>
     (\<forall>h p h'. me_get_free_page E h = (p, h') \<longrightarrow> p \<noteq> 0 \<longrightarrow>
        p AND mask 12 = 0 \<and> p \<notin> used h \<and> insert p (used h) \<subseteq> used h' \<and> owned h \<subseteq> owned h') \<and>
     (\<forall>h h'. me_malloc_node E h = Some h' \<longrightarrow> owned h \<subseteq> owned h' \<and> used h \<subseteq> used h')"

primrec room :: "'h mmu_env \<Rightarrow> nat \<Rightarrow> 'h \<Rightarrow> bool" where
  "room E 0 h = True"
| "room E (Suc n) h =
     ((case me_memalign E 0x400 (me_SZ_1K E) h of (t, h') \<Rightarrow> t \<noteq> NULL \<and> room E n h') \<and>
      (case me_get_free_page E h of (p, h') \<Rightarrow> p \<noteq> 0 \<and>
         (case me_malloc_node E h' of None \<Rightarrow> False | Some h'' \<Rightarrow> room E n h'')))"

abbreviation user_end :: "'h mmu_env \<Rightarrow> nat" where "user_end E \<equiv> i1 (me_KERNEL_VADDR E)"
abbreviation fix_index :: "'h mmu_env \<Rightarrow> nat" where "fix_index E \<equiv> i1 (me_FIXMAP_MAPPING E)"

text \<open>The entry of a page, and the number of blocks and frames the copy takes.\<close>

definition page_entry :: "'h mmu_env \<Rightarrow> addr \<Rightarrow> 'h mmu \<Rightarrow> nat \<Rightarrow> nat \<Rightarrow> u32" where
  "page_entry E root s i j = m_mem s (ent (l2_of E root s i) j)"

definition pages_in :: "'h mmu_env \<Rightarrow> addr \<Rightarrow> 'h mmu \<Rightarrow> nat \<Rightarrow> nat list \<Rightarrow> nat" where
  "pages_in E root s i js = length (filter (\<lambda>j. page_entry E root s i j \<noteq> 0) js)"

definition needed :: "'h mmu_env \<Rightarrow> addr \<Rightarrow> 'h mmu \<Rightarrow> nat list \<Rightarrow> nat" where
  "needed E root s is =
     sum_list (map (\<lambda>i. if has_l2 E root s i then Suc (pages_in E root s i [0..<256]) else 0) is)"

text \<open>
  The state in which \<open>fork\<close> finds the parent: its table is the current one, its user space has small
  pages only, in frames that are in use; the tables are in blocks of the heap and share no word; the fixed
  mapping is in the kernel area and not within a section, and the headers compute the address of a page
  from its indices.
\<close>

definition user_space_ok ::
  "'h mmu_env \<Rightarrow> addr \<Rightarrow> ('h \<Rightarrow> addr set) \<Rightarrow> ('h \<Rightarrow> addr set) \<Rightarrow> 'h mmu \<Rightarrow> bool" where
  "user_space_ok E root owned used s \<longleftrightarrow>
     m_current s = root \<and> root \<noteq> NULL \<and> tables_ok E root s \<and>
     (\<forall>i < user_end E. m_mem s (ent root i) \<noteq> 0 \<longrightarrow> has_l2 E root s i) \<and>
     (\<forall>i < user_end E. \<forall>j < 256. has_l2 E root s i \<longrightarrow> page_entry E root s i j \<noteq> 0 \<longrightarrow>
        frame_of (page_entry E root s i j) \<in> used (m_heap s)) \<and>
     table_words E root s \<subseteq> owned (m_heap s) \<and>
     me_FIXMAP_MAPPING E AND mask 12 = 0 \<and> user_end E \<le> fix_index E \<and>
     (has_l2 E root s (fix_index E) \<or> m_mem s (ent root (fix_index E)) = 0 \<and>
        (\<exists>i < user_end E. has_l2 E root s i \<and> pages_in E root s i [0..<256] \<noteq> 0)) \<and>
     (\<forall>i j. me_pte_index_to_vaddr E i j = of_nat (1048576 * i + 4096 * j))"

text \<open>With that, and an empty user space of the child, and room for the copy, it can be made.\<close>

definition copyable ::
  "'h mmu_env \<Rightarrow> addr \<Rightarrow> addr \<Rightarrow> ('h \<Rightarrow> addr set) \<Rightarrow> ('h \<Rightarrow> addr set) \<Rightarrow> 'h mmu \<Rightarrow> bool" where
  "copyable E root to_table owned used s \<longleftrightarrow>
     user_space_ok E root owned used s \<and>
     (\<forall>i < user_end E. m_mem s (ent to_table i) = 0) \<and> words_at to_table 4096 \<subseteq> owned (m_heap s) \<and>
     table_words E root s \<inter> words_at to_table 4096 = {} \<and>
     room E (Suc (needed E root s [0..<user_end E])) (m_heap s)"

section \<open>Memory outside the tables of a root\<close>

lemma words_atI: "i < n \<Longrightarrow> ent t i \<in> words_at t n"
  by (simp add: words_at_def)

lemma apart_words: "apart t n u k \<longleftrightarrow> words_at t n \<inter> words_at u k = {}"
  unfolding apart_def words_at_def by blast

lemma root_word: "i < 4096 \<Longrightarrow> ent root i \<in> table_words E root s"
  by (simp add: table_words_def words_atI)

lemma l2_word: "has_l2 E root s i \<Longrightarrow> j < 256 \<Longrightarrow> ent (l2_of E root s i) j \<in> table_words E root s"
  unfolding table_words_def by (auto intro: words_atI)

text \<open>What a root means depends on the words of its tables only.\<close>

lemma table_words_cong:
  assumes eq: "\<forall>a \<in> table_words E root s. m_mem s' a = m_mem s a"
  shows "has_l2 E root s' = has_l2 E root s" "has_l2 E root s i \<Longrightarrow> l2_of E root s' i = l2_of E root s i"
    "table_words E root s' = table_words E root s" "tables_ok E root s' = tables_ok E root s"
    "translate E root s' = translate E root s"
proof -
  have r: "m_mem s' (ent root i) = m_mem s (ent root i)" if "i < 4096" for i
    by (rule bspec[OF eq root_word[OF that]])
  show h: "has_l2 E root s' = has_l2 E root s" using r by (auto simp: has_l2_def fun_eq_iff)
  show l: "has_l2 E root s i \<Longrightarrow> l2_of E root s' i = l2_of E root s i" for i using r by (simp add: has_l2_def l2_of_def)
  show "table_words E root s' = table_words E root s" unfolding table_words_def h using l by auto
  show "tables_ok E root s' = tables_ok E root s" unfolding tables_ok_def h using l by auto
  show "translate E root s' = translate E root s"
  proof
    fix v
    have "has_l2 E root s (i1 v) \<Longrightarrow> m_mem s' (ent (l2_of E root s (i1 v)) (i2 v)) = m_mem s (ent (l2_of E root s (i1 v)) (i2 v))"
      by (rule bspec[OF eq l2_word[OF _ i2_less]])
    then show "translate E root s' v = translate E root s v"
      using r[OF i1_less, of v] by (auto simp: translate_def Let_def has_l2_def l2_of_def)
  qed
qed

lemma fresh_words:
  assumes "heap_laws E owned used" "me_memalign E n al h = (t, h')" "t \<noteq> NULL" "unat n div 4 = k"
  shows "words_at t k \<inter> owned h = {}" "owned h \<subseteq> owned h'" "words_at t k \<subseteq> owned h'" "used h \<subseteq> used h'"
  using assms unfolding heap_laws_def by blast+

lemma fresh_block:
  assumes "heap_laws E owned used" "me_memalign E 0x400 (me_SZ_1K E) h = (t, h')" "t \<noteq> NULL"
  shows "words_at t 256 \<inter> owned h = {}" "owned h \<subseteq> owned h'" "words_at t 256 \<subseteq> owned h'" "used h \<subseteq> used h'"
  by (rule fresh_words[OF assms], simp)+

lemma fresh_frame:
  assumes "heap_laws E owned used" "me_get_free_page E h = (p, h')" "p \<noteq> 0"
  shows "p AND mask 12 = 0" "p \<notin> used h" "p \<in> used h'" "used h \<subseteq> used h'" "owned h \<subseteq> owned h'"
  using assms unfolding heap_laws_def by blast+

lemma fresh_node:
  assumes "heap_laws E owned used" "me_malloc_node E h = Some h'"
  shows "owned h \<subseteq> owned h'" "used h \<subseteq> used h'"
  using assms unfolding heap_laws_def by blast+

lemma fresh_block_table:
  assumes "table_words E root s \<subseteq> A" "words_at t 256 \<inter> A = {}"
  shows "fresh_table E root s t"
  using assms unfolding fresh_table_def apart_words table_words_def by blast


section \<open>The state between two steps\<close>

text \<open>
  The parent's user space is as it was; the child has a table \<open>C i\<close> for each megabyte \<open>i\<close> of \<open>R\<close>, with the frame
  \<open>F (i, j)\<close> for each page of \<open>D\<close>; these frames are new, one for each page, and hold its bytes.
\<close>

definition child_words :: "addr \<Rightarrow> (nat \<Rightarrow> addr) \<Rightarrow> nat set \<Rightarrow> addr set" where
  "child_words to_table C R = words_at to_table 4096 \<union> (\<Union>i \<in> R. words_at (C i) 256)"

definition parent_kept :: "'h mmu_env \<Rightarrow> addr \<Rightarrow> 'h mmu \<Rightarrow> 'h mmu \<Rightarrow> bool" where
  "parent_kept E root s0 s \<longleftrightarrow>
     m_current s = root \<and> tables_ok E root s \<and>
     (\<forall>i < user_end E. m_mem s (ent root i) = m_mem s0 (ent root i)) \<and>
     (\<forall>i < user_end E. has_l2 E root s0 i \<longrightarrow>
        (\<forall>j < 256. m_mem s (ent (l2_of E root s0 i) j) = page_entry E root s0 i j)) \<and>
     (has_l2 E root s (fix_index E) \<or> m_mem s (ent root (fix_index E)) = 0) \<and>
     (has_l2 E root s0 (fix_index E) \<longrightarrow> has_l2 E root s (fix_index E))"

definition child_built ::
  "'h mmu_env \<Rightarrow> addr \<Rightarrow> (nat \<Rightarrow> addr) \<Rightarrow> (nat \<times> nat \<Rightarrow> addr) \<Rightarrow> nat set \<Rightarrow> (nat \<times> nat) set \<Rightarrow> 'h mmu \<Rightarrow> bool" where
  "child_built E to_table C F R D s \<longleftrightarrow>
     fst ` D \<subseteq> R \<and> R \<subseteq> {..<user_end E} \<and>
     (\<forall>i < user_end E. i \<notin> R \<longrightarrow> m_mem s (ent to_table i) = 0) \<and>
     (\<forall>i \<in> R. has_l2 E to_table s i \<and> l2_of E to_table s i = C i \<and>
        words_at to_table 4096 \<inter> words_at (C i) 256 = {}) \<and>
     (\<forall>i \<in> R. \<forall>j < 256. m_mem s (ent (C i) j) = (if (i, j) \<in> D then me_set_l2 E False (F (i, j)) else 0)) \<and>
     (\<forall>i \<in> R. \<forall>k \<in> R. i \<noteq> k \<longrightarrow> words_at (C i) 256 \<inter> words_at (C k) 256 = {})"

definition frames_filled ::
  "'h mmu_env \<Rightarrow> addr \<Rightarrow> ('h \<Rightarrow> addr set) \<Rightarrow> 'h mmu \<Rightarrow> (nat \<times> nat \<Rightarrow> addr) \<Rightarrow> (nat \<times> nat) set \<Rightarrow> 'h mmu \<Rightarrow> bool" where
  "frames_filled E root used s0 F D s \<longleftrightarrow>
     used (m_heap s0) \<subseteq> used (m_heap s) \<and> inj_on F D \<and>
     (\<forall>d \<in> D. F d AND mask 12 = 0 \<and> F d \<in> used (m_heap s) \<and> F d \<notin> used (m_heap s0)) \<and>
     (\<forall>a. frame_of a \<notin> F ` D \<longrightarrow> m_phys s a = m_phys s0 a) \<and>
     (\<forall>i j a. (i, j) \<in> D \<longrightarrow> frame_of a = F (i, j) \<longrightarrow>
        m_phys s a = m_phys s0 (frame_of (page_entry E root s0 i j) + (a AND mask 12)))"

definition copying ::
  "'h mmu_env \<Rightarrow> addr \<Rightarrow> addr \<Rightarrow> ('h \<Rightarrow> addr set) \<Rightarrow> ('h \<Rightarrow> addr set) \<Rightarrow> 'h mmu \<Rightarrow>
   (nat \<Rightarrow> addr) \<Rightarrow> (nat \<times> nat \<Rightarrow> addr) \<Rightarrow> nat set \<Rightarrow> (nat \<times> nat) set \<Rightarrow> 'h mmu \<Rightarrow> bool" where
  "copying E root to_table owned used s0 C F R D s \<longleftrightarrow>
     parent_kept E root s0 s \<and> child_built E to_table C F R D s \<and> frames_filled E root used s0 F D s \<and>
     table_words E root s \<subseteq> owned (m_heap s) \<and> child_words to_table C R \<subseteq> owned (m_heap s) \<and>
     table_words E root s \<inter> child_words to_table C R = {} \<and> (D \<noteq> {} \<longrightarrow> has_l2 E root s (fix_index E))"

lemma copyingD:
  assumes "copying E root to_table owned used s0 C F R D s"
  shows "parent_kept E root s0 s" "child_built E to_table C F R D s" "frames_filled E root used s0 F D s"
    "table_words E root s \<subseteq> owned (m_heap s)" "child_words to_table C R \<subseteq> owned (m_heap s)"
    "table_words E root s \<inter> child_words to_table C R = {}" "D \<noteq> {} \<Longrightarrow> has_l2 E root s (fix_index E)"
  using assms unfolding copying_def by blast+

lemma user_l2:
  assumes "parent_kept E root s0 s" "i < user_end E" "has_l2 E root s0 i"
  shows "has_l2 E root s i" "l2_of E root s i = l2_of E root s0 i"
    "j < 256 \<Longrightarrow> m_mem s (ent (l2_of E root s0 i) j) = page_entry E root s0 i j"
  using assms by (simp_all add: parent_kept_def has_l2_def l2_of_def)

lemma user_index: "i < user_end E \<Longrightarrow> i < 4096"
  by (rule order.strict_trans[OF _ i1_less])

lemma parent_kept_outside:
  assumes pk: "parent_kept E root s0 s" and cur: "m_current s' = m_current s"
    and eq: "\<forall>a \<in> table_words E root s. m_mem s' a = m_mem s a"
  shows "parent_kept E root s0 s'"
proof -
  note c = table_words_cong[OF eq]
  have r: "m_mem s' (ent root i) = m_mem s (ent root i)" if "i < 4096" for i
    by (rule bspec[OF eq root_word[OF that]])
  have "m_mem s' (ent (l2_of E root s0 i) j) = page_entry E root s0 i j"
    if "i < user_end E" "has_l2 E root s0 i" "j < 256" for i j
    using bspec[OF eq l2_word[OF user_l2(1)[OF pk that(1,2)] that(3)]] user_l2(2,3)[OF pk that(1,2)] that(3) by simp
  moreover have "m_mem s' (ent root i) = m_mem s (ent root i)" if "i < user_end E" for i
    by (rule r[OF user_index[OF that]])
  ultimately show ?thesis using pk cur r[OF i1_less] unfolding parent_kept_def c(1) c(4) by simp
qed

lemma child_built_outside:
  assumes cb: "child_built E to_table C F R D s"
    and eq: "\<forall>a \<in> child_words to_table C R. m_mem s' a = m_mem s a"
  shows "child_built E to_table C F R D s'"
proof -
  have r: "m_mem s' (ent to_table i) = m_mem s (ent to_table i)" if "i < 4096" for i
    by (rule bspec[OF eq]) (simp add: child_words_def words_atI that)
  have l: "m_mem s' (ent (C i) j) = m_mem s (ent (C i) j)" if "i \<in> R" "j < 256" for i j
    by (rule bspec[OF eq]) (use that in \<open>auto simp: child_words_def intro: words_atI\<close>)
  have "has_l2 E to_table s' i = has_l2 E to_table s i" for i using r by (auto simp: has_l2_def)
  moreover have "l2_of E to_table s' i = l2_of E to_table s i" if "i \<in> R" for i
    using r[OF user_index, of i E] cb that unfolding child_built_def l2_of_def by auto
  moreover have "m_mem s' (ent to_table i) = m_mem s (ent to_table i)" if "i < user_end E" for i
    by (rule r[OF user_index[OF that]])
  ultimately show ?thesis using cb l unfolding child_built_def by simp
qed

lemma frames_same:
  assumes "frames_filled E root used s0 F D s" "m_phys s' = m_phys s" "used (m_heap s) \<subseteq> used (m_heap s')"
  shows "frames_filled E root used s0 F D s'"
  using assms unfolding frames_filled_def by auto

section \<open>A second-level table for the child\<close>

lemma child_table_step:
  assumes fmt: "arm_format E" and laws: "heap_laws E owned used"
    and inv: "copying E root to_table owned used s0 C F R D s" and i: "i < user_end E" "i \<notin> R"
    and al: "me_memalign E 0x400 (me_SZ_1K E) (m_heap s) = (t, h)" "t \<noteq> NULL"
  defines "s' \<equiv> store (ent to_table i) (me_set_l1_page E False (me_pa E t)) (clear_words t 256 (s\<lparr>m_heap := h\<rparr>))"
  shows "copying E root to_table owned used s0 (C(i := t)) F (insert i R) D s' \<and>
    has_l2 E root s' = has_l2 E root s \<and> m_heap s' = h"
proof -
  note cp = copyingD[OF inv] and fb = fresh_block[OF laws al]
  let ?e = "me_set_l1_page E False (me_pa E t)"
  have mem: "m_mem s' a = (if a = ent to_table i then ?e else if a \<in> words_at t 256 then 0 else m_mem s a)" for a
    by (auto simp: s'_def clear_words_mem words_at_def)
  have heap: "m_heap s' = h" "m_phys s' = m_phys s" "m_current s' = m_current s"
    by (simp_all add: s'_def store_def)
  have i4: "i < 4096" by (rule user_index[OF i(1)])
  have to_word: "ent to_table i \<in> child_words to_table C R" using words_atI[OF i4] by (simp add: child_words_def)
  have out: "\<forall>a \<in> table_words E root s. m_mem s' a = m_mem s a"
    using cp(4,6) fb(1) to_word unfolding mem by auto
  have tw: "table_words E root s' = table_words E root s" "has_l2 E root s' = has_l2 E root s"
    using table_words_cong[OF out] by blast+
  have cw: "child_words to_table (C(i := t)) (insert i R) = child_words to_table C R \<union> words_at t 256"
  proof -
    have "(\<Union>k \<in> R. words_at ((C(i := t)) k) 256) = (\<Union>k \<in> R. words_at (C k) 256)"
      by (rule SUP_cong) (use i(2) in auto)
    then show ?thesis unfolding child_words_def by auto
  qed
  have old: "m_mem s' a = m_mem s a" if "a \<in> child_words to_table C R" "a \<noteq> ent to_table i" for a
    using that cp(5) fb(1) unfolding mem by auto
  have ent: "has_l2 E to_table s' i" "l2_of E to_table s' i = t"
    using arm_entries(1-3)[OF fmt, of False "me_pa E t"] arm_memalign[OF fmt al] i4
    by (simp_all add: has_l2_def l2_of_def mem)
  have cb: "child_built E to_table (C(i := t)) F (insert i R) D s'"
  proof -
    note cb = cp(2)[unfolded child_built_def]
    have top: "m_mem s' (ent to_table k) = m_mem s (ent to_table k)" if "k < user_end E" "k \<noteq> i" for k
    proof (rule old)
      show "ent to_table k \<in> child_words to_table C R" using words_atI[OF user_index[OF that(1)]] by (simp add: child_words_def)
      show "ent to_table k \<noteq> ent to_table i" using ent_inj[of k i to_table] user_index[OF that(1)] i4 that(2) by simp
    qed
    have R: "k < user_end E" "k \<noteq> i" if "k \<in> R" for k using cb i(2) that by blast+
    have sep: "words_at to_table 4096 \<inter> words_at t 256 = {}" "k \<in> R \<Longrightarrow> words_at (C k) 256 \<inter> words_at t 256 = {}" for k
      using cp(5) fb(1) unfolding child_words_def by blast+
    have tab: "m_mem s' (ent (C k) j) = m_mem s (ent (C k) j)" if "k \<in> R" "j < 256" for k j
    proof (rule old)
      have w: "ent (C k) j \<in> words_at (C k) 256" by (rule words_atI[OF that(2)])
      then show "ent (C k) j \<in> child_words to_table C R" using that(1) unfolding child_words_def by blast
      have "words_at to_table 4096 \<inter> words_at (C k) 256 = {}" using cb that(1) by blast
      then show "ent (C k) j \<noteq> ent to_table i" using w words_atI[OF i4, of to_table] by auto
    qed
    have new: "m_mem s' (ent t j) = 0" if "j < 256" for j
    proof -
      have w: "ent t j \<in> words_at t 256" by (rule words_atI[OF that])
      then have "ent t j \<noteq> ent to_table i" using sep(1) words_atI[OF i4, of to_table] by auto
      then show ?thesis using w unfolding mem by simp
    qed
    have l2: "has_l2 E to_table s' k" "l2_of E to_table s' k = C k" if "k \<in> R" for k
      using cb that top[OF R[OF that]] by (simp_all add: has_l2_def l2_of_def)
    have D: "(i, j) \<notin> D" for j
    proof
      assume "(i, j) \<in> D"
      then have "i \<in> fst ` D" by (rule image_eqI[rotated]) simp
      then show False using cb i(2) by blast
    qed
    show ?thesis unfolding child_built_def
    proof (intro conjI ballI allI impI)
      show "fst ` D \<subseteq> insert i R" "insert i R \<subseteq> {..<user_end E}" using cb i(1) by blast+
      show "m_mem s' (ent to_table k) = 0" if "k < user_end E" "k \<notin> insert i R" for k
        using cb top[OF that(1)] that(1,2) by simp
    next
      fix k assume k: "k \<in> insert i R"
      show "has_l2 E to_table s' k" using k ent(1) l2(1) by blast
      show "l2_of E to_table s' k = (C(i := t)) k" using k ent(2) l2(2) i(2) by (cases "k = i") simp_all
      have "k \<in> R \<Longrightarrow> words_at to_table 4096 \<inter> words_at (C k) 256 = {}" using cb by blast
      then show "words_at to_table 4096 \<inter> words_at ((C(i := t)) k) 256 = {}"
        using k sep(1) by (cases "k = i") simp_all
      fix j :: nat assume j: "j < 256"
      show "m_mem s' (ent ((C(i := t)) k) j) = (if (k, j) \<in> D then me_set_l2 E False (F (k, j)) else 0)"
      proof (cases "k = i")
        case True
        then show ?thesis using new[OF j] D by simp
      next
        case False
        then have "k \<in> R" using k by blast
        moreover have "m_mem s (ent (C k) j) = (if (k, j) \<in> D then me_set_l2 E False (F (k, j)) else 0)"
          using cb \<open>k \<in> R\<close> j by blast
        ultimately show ?thesis using tab[OF _ j] False by simp
      qed
    next
      fix k l assume k: "k \<in> insert i R" "l \<in> insert i R" "k \<noteq> l"
      have "k \<in> R \<Longrightarrow> l \<in> R \<Longrightarrow> words_at (C k) 256 \<inter> words_at (C l) 256 = {}" using cb k(3) by blast
      then show "words_at ((C(i := t)) k) 256 \<inter> words_at ((C(i := t)) l) 256 = {}"
        using k sep(2)[of k] sep(2)[of l] by (cases "k = i"; cases "l = i") (simp_all add: Int_commute)
    qed
  qed
  have "parent_kept E root s0 s'" by (rule parent_kept_outside[OF cp(1) heap(3) out])
  moreover have "frames_filled E root used s0 F D s'" by (rule frames_same[OF cp(3)]) (use heap fb in auto)
  moreover have "table_words E root s' \<inter> child_words to_table (C(i := t)) (insert i R) = {}"
    unfolding tw cw using cp(4,6) fb(1) by blast
  moreover have "table_words E root s' \<subseteq> owned (m_heap s')" "child_words to_table (C(i := t)) (insert i R) \<subseteq> owned (m_heap s')"
    unfolding tw cw heap using cp(4,5) fb(2,3) by blast+
  ultimately show ?thesis using cb cp(7) tw(2) heap(1) unfolding copying_def tw by blast
qed


section \<open>A page for the child\<close>

lemma page_address:
  assumes "i < 4096" "j < 256" "k < 4096"
  defines "v \<equiv> (of_nat (1048576 * i + 4096 * j) + of_nat k :: addr)"
  shows "i1 v = i" "i2 v = j" "v AND mask 12 = of_nat k"
proof -
  have "v = of_nat (1048576 * i + 4096 * j + k)" by (simp add: v_def)
  moreover have "1048576 * i + 4096 * j + k < 4294967296" using assms(1-3) by linarith
  ultimately have u: "unat v = 1048576 * i + 4096 * j + k" by (simp only: unat_of_nat_u32)
  have "4096 * j + k < 1048576" using assms(2,3) by linarith
  moreover have "unat v = 1048576 * i + (4096 * j + k)" using u by simp
  ultimately show "i1 v = i" by (simp add: i1_def)
  have "unat v = 4096 * (256 * i + j) + k" using u by simp
  then have "unat v div 4096 = 256 * i + j" using assms(3) by simp
  then show "i2 v = j" using assms(2) by (simp add: i2_def)
  have "(4096 * q + k) mod 4096 = k" for q using assms(3) by simp
  then have "unat v mod 4096 = k" using \<open>unat v = 4096 * (256 * i + j) + k\<close> by metis
  then have "unat (v AND mask 12) = k" by (simp add: unat_and_mask)
  moreover have "of_nat (unat (v AND mask 12)) = v AND mask 12" by simp
  ultimately show "v AND mask 12 = of_nat k" by simp
qed

lemma fix_address:
  assumes al: "a AND mask 12 = 0" and k: "k < 4096"
  shows "in_range a 1 (a + of_nat k)"
proof -
  have "unat a mod 4096 = 0" using al aligned_unat by blast
  then obtain m where m: "unat a = 4096 * m" by auto
  have "unat a < 4294967296" by simp
  then have "m < 1048576" using m by linarith
  then have "unat a + k < 4294967296" using m k by linarith
  then have "unat (a + of_nat k) = unat a + k"
    using unat_of_nat_u32[of "unat a + k"] by simp
  then show ?thesis using k by (simp add: in_range_def)
qed

lemma same_place:
  assumes "i1 v = i1 w" "i2 v = i2 w" "v AND mask 12 = w AND mask 12"
  shows "v = w"
proof -
  have split: "unat x = 4096 * (256 * i1 x + i2 x) + unat (x AND mask 12)" for x :: addr
  proof -
    define P where "P = unat x div 4096"
    have "i1 x = P div 256" "i2 x = P mod 256" by (simp_all add: i1_def i2_def P_def div_mult2_eq[symmetric])
    then have "256 * i1 x + i2 x = P" by simp
    moreover have "unat x = 4096 * P + unat x mod 4096" by (simp add: P_def)
    ultimately show ?thesis by (simp add: unat_and_mask)
  qed
  have "unat v = unat w" unfolding split[of v] split[of w] assms by (rule refl)
  then show ?thesis by (rule word_unat_eq_iff[THEN iffD2])
qed

lemma frame_or: "k < 4096 \<Longrightarrow> (w AND NOT (mask 12)) OR of_nat k = frame_of w + (of_nat k :: addr)"
proof -
  assume k: "k < 4096"
  have al: "frame_of w AND mask 12 = 0" unfolding frame_of_def by (rule bit_word_eqI) (simp add: bit_simps)
  have "of_nat k = (frame_of w + of_nat k) AND (mask 12 :: addr)" using frame_add(2)[OF al k] by simp
  moreover have "frame_of w = (frame_of w + of_nat k) AND NOT (mask 12)"
    using frame_add(1)[OF al k] by (simp only: frame_of_def)
  moreover have "(x AND NOT (mask 12)) OR (x AND mask 12) = x" for x :: addr
    by (rule bit_word_eqI) (auto simp: bit_simps)
  ultimately show ?thesis unfolding frame_of_def by metis
qed

text \<open>The fixed mapping: it changes no word of a block but those of the tables of the root.\<close>

lemma fixed_mapping:
  assumes fmt: "arm_format E" and laws: "heap_laws E owned used" and root: "root \<noteq> NULL"
    and ok: "tables_ok E root s" and own: "table_words E root s \<subseteq> owned (m_heap s)"
    and fix_l2: "has_l2 E root s (fix_index E) \<or> m_mem s (ent root (fix_index E)) = 0"
    and al: "me_FIXMAP_MAPPING E AND mask 12 = 0" "p AND mask 12 = 0"
    and block: "m_mem s (ent root (fix_index E)) = 0 \<Longrightarrow> fst (me_memalign E 0x400 (me_SZ_1K E) (m_heap s)) \<noteq> NULL"
  shows "\<exists>s'. create_mapping E root (me_FIXMAP_MAPPING E) p (me_PAGE_SIZE E) False s = Some s' \<and>
    tables_ok E root s' \<and> has_l2 E root s' (fix_index E) \<and> m_current s' = m_current s \<and> m_phys s' = m_phys s \<and>
    m_heap s' = (if has_l2 E root s (fix_index E) then m_heap s
       else snd (me_memalign E 0x400 (me_SZ_1K E) (m_heap s))) \<and>
    owned (m_heap s) \<subseteq> owned (m_heap s') \<and> used (m_heap s) \<subseteq> used (m_heap s') \<and>
    table_words E root s' \<subseteq> owned (m_heap s') \<and>
    (\<forall>a \<in> owned (m_heap s). a \<notin> table_words E root s \<longrightarrow> a \<notin> table_words E root s' \<and> m_mem s' a = m_mem s a) \<and>
    (\<forall>i < 4096. i \<noteq> fix_index E \<longrightarrow> m_mem s' (ent root i) = m_mem s (ent root i) \<and>
       (has_l2 E root s i \<longrightarrow> (\<forall>j < 256. m_mem s' (ent (l2_of E root s i) j) = m_mem s (ent (l2_of E root s i) j)))) \<and>
    (\<forall>k < 4096. translate E root s' (me_FIXMAP_MAPPING E + of_nat k) = Some (p + of_nat k))"
proof -
  let ?f = "me_FIXMAP_MAPPING E" and ?i = "fix_index E"
  obtain t h where mal: "me_memalign E 0x400 (me_SZ_1K E) (m_heap s) = (t, h)"
    by (cases "me_memalign E 0x400 (me_SZ_1K E) (m_heap s)")
  define new where "new = (m_mem s (ent root ?i) = 0)"
  have l2: "has_l2 E root s ?i \<longleftrightarrow> \<not> new" using fix_l2 unfolding new_def has_l2_def by auto
  have t: "t \<noteq> NULL" if new using block that mal by (simp add: new_def)
  note fb = fresh_block[OF laws mal t]
  have range: "page_range ?f 1" using al(1) i2_less[of ?f] by (simp add: page_range_def Suc_le_eq)
  have can: "mappable E root ?f 1 s"
    unfolding mappable_def Let_def mal fst_conv
    using range l2 t fresh_block_table[OF own fb(1)] by (auto simp: new_def has_l2_def)
  have tbl: "root = the_table root s" using root by (simp add: the_table_def)
  obtain s' where s': "create_mapping E root ?f p (of_nat 1 * 0x1000) False s = Some s'" "tables_ok E root s'"
      "has_l2 E root s' ?i" "m_current s' = m_current s" "m_phys s' = m_phys s"
    and tr: "\<And>v. translate E root s' v = (if unat ?f \<le> unat v \<and> unat v < unat ?f + 4096 * 1
       then Some (p + (v - ?f)) else translate E root s v)"
    and heap: "m_heap s' = (if new then h else m_heap s)"
    and T: "l2_of E root s' ?i = (if new then t else l2_of E root s ?i)"
    and other: "\<And>b. b \<noteq> ent root ?i \<Longrightarrow> \<forall>j < 256. b \<noteq> ent (l2_of E root s' ?i) j \<Longrightarrow> m_mem s' b = m_mem s b"
    using mapping_effect[OF fmt tbl ok can al(2), of False] unfolding Let_def mal new_def fst_conv snd_conv by blast
  define W where "W = words_at (l2_of E root s' ?i) 256"
  have other: "m_mem s' b = m_mem s b" if "b \<noteq> ent root ?i" "b \<notin> W" for b
    using that(2) by (intro other[OF that(1)]) (auto simp: W_def words_at_def)
  have W: "W \<subseteq> table_words E root s \<or> new \<and> W = words_at t 256"
    using T l2 unfolding W_def table_words_def by auto
  have owns: "owned (m_heap s) \<subseteq> owned (m_heap s')" "used (m_heap s) \<subseteq> used (m_heap s')"
    using fb(2,4) heap by (cases new; auto)+
  have Wown: "W \<subseteq> owned (m_heap s')" using W fb(3) own owns(1) heap by (cases new) auto
  have apW: "ent root i \<notin> W" if "i < 4096" for i
  proof -
    have "words_at root 4096 \<inter> W = {}" using s'(2,3) unfolding tables_ok_def apart_words W_def by blast
    then show ?thesis using words_atI[OF that] by blast
  qed
  have keep: "m_mem s' (ent root i) = m_mem s (ent root i)" if "i < 4096" "i \<noteq> ?i" for i
    using other apW[OF that(1)] ent_inj[of i ?i root] that i1_less[of ?f] by simp
  have l2k: "has_l2 E root s' i = has_l2 E root s i" "l2_of E root s' i = l2_of E root s i" if "i < 4096" "i \<noteq> ?i" for i
    using keep[OF that] by (simp_all add: has_l2_def l2_of_def)
  have keep2: "m_mem s' (ent (l2_of E root s i) j) = m_mem s (ent (l2_of E root s i) j)"
    if "i < 4096" "i \<noteq> ?i" "has_l2 E root s i" "j < 256" for i j
  proof -
    have w: "ent (l2_of E root s i) j \<in> words_at (l2_of E root s i) 256" by (rule words_atI[OF that(4)])
    have "words_at (l2_of E root s' i) 256 \<inter> W = {}"
      using s'(2,3) l2k(1)[OF that(1,2)] that(2,3) unfolding tables_ok_def apart_words W_def by blast
    then have "ent (l2_of E root s i) j \<notin> W" using w l2k(2)[OF that(1,2)] by auto
    moreover have "ent (l2_of E root s i) j \<noteq> ent root ?i"
    proof -
      have "words_at root 4096 \<inter> words_at (l2_of E root s i) 256 = {}"
        using ok that(3) unfolding tables_ok_def apart_words by blast
      then show ?thesis using w words_atI[OF i1_less, of root ?f] by (metis disjoint_iff)
    qed
    ultimately show ?thesis by (intro other)
  qed
  have tw: "table_words E root s' \<subseteq> table_words E root s \<union> W"
  proof -
    have "words_at (l2_of E root s' i) 256 \<subseteq> table_words E root s \<union> W" if "has_l2 E root s' i" for i
    proof (cases "i = ?i")
      case False
      have "i < 4096" using that by (simp add: has_l2_def)
      then show ?thesis using l2k[OF _ False] that unfolding table_words_def by auto
    qed (simp add: W_def)
    then show ?thesis unfolding table_words_def by blast
  qed
  have "a \<notin> table_words E root s' \<and> m_mem s' a = m_mem s a" if "a \<in> owned (m_heap s)" "a \<notin> table_words E root s" for a
  proof -
    have "a \<notin> W" using W that fb(1) by blast
    moreover have "a \<noteq> ent root ?i" using that(2) root_word[OF i1_less, of root ?f E s] by blast
    ultimately show ?thesis using tw that(2) other[of a] by blast
  qed
  moreover have "translate E root s' (?f + of_nat k) = Some (p + of_nat k)" if "k < 4096" for k
    using tr[of "?f + of_nat k"] fix_address[OF al(1) that] by (simp add: in_range_def)
  moreover have "table_words E root s' \<subseteq> owned (m_heap s')" using tw own owns(1) Wown by blast
  moreover have "create_mapping E root ?f p (me_PAGE_SIZE E) False s = Some s'"
    using s'(1) arm_sizes(1)[OF fmt] by simp
  ultimately show ?thesis
    using s'(2-5) owns keep keep2 heap l2 by (intro exI[of _ s']) (simp add: mal)
qed


lemma child_entry:
  assumes cb: "child_built E to_table C F R D s" and i: "i \<in> R" and j: "j < 256"
    and mem: "m_mem s' = (m_mem s)(ent (C i) j := me_set_l2 E False p)"
  shows "child_built E to_table C (F((i, j) := p)) R (insert (i, j) D) s'"
proof -
  note cb = cb[unfolded child_built_def]
  have "R \<subseteq> {..<user_end E}" using cb by blast
  then have R: "k < 4096" if "k \<in> R" for k using that by (intro user_index[of k E]) auto
  have w: "ent (C i) j \<in> words_at (C i) 256" by (rule words_atI[OF j])
  have sep: "words_at to_table 4096 \<inter> words_at (C i) 256 = {}" using cb i by blast
  have top: "m_mem s' (ent to_table k) = m_mem s (ent to_table k)" if "k < 4096" for k
  proof -
    have "ent to_table k \<noteq> ent (C i) j" using w sep words_atI[OF that, of to_table] by (metis disjoint_iff)
    then show ?thesis by (simp add: mem)
  qed
  have other: "m_mem s' (ent (C k) l) = m_mem s (ent (C k) l)" if "k \<in> R" "l < 256" "(k, l) \<noteq> (i, j)" for k l
  proof (cases "k = i")
    case True
    then show ?thesis using ent_inj[of l j "C i"] that(2,3) j unfolding mem by simp
  next
    case False
    then have "words_at (C k) 256 \<inter> words_at (C i) 256 = {}" using cb i that(1) by blast
    then have "ent (C k) l \<noteq> ent (C i) j" using w words_atI[OF that(2), of "C k"] by (metis disjoint_iff)
    then show ?thesis by (simp add: mem)
  qed
  show ?thesis unfolding child_built_def
  proof (intro conjI ballI allI impI)
    have "fst ` D \<subseteq> R" using cb by blast
    then show "fst ` insert (i, j) D \<subseteq> R" using i by simp
    show "R \<subseteq> {..<user_end E}" using cb by blast
    show "m_mem s' (ent to_table k) = 0" if "k < user_end E" "k \<notin> R" for k
    proof -
      have "m_mem s (ent to_table k) = 0" using cb that by blast
      then show ?thesis using top[OF user_index[OF that(1)]] by simp
    qed
  next
    fix k assume k: "k \<in> R"
    have "has_l2 E to_table s k" "l2_of E to_table s k = C k" using cb k by blast+
    then show "has_l2 E to_table s' k" "l2_of E to_table s' k = C k"
      using top[OF R[OF k]] by (simp_all add: has_l2_def l2_of_def)
    show "words_at to_table 4096 \<inter> words_at (C k) 256 = {}" using cb k by blast
    show "m_mem s' (ent (C k) l) = (if (k, l) \<in> insert (i, j) D then me_set_l2 E False ((F((i, j) := p)) (k, l)) else 0)"
      if l: "l < 256" for l
    proof (cases "(k, l) = (i, j)")
      case True
      then show ?thesis by (simp add: mem)
    next
      case False
      moreover have "m_mem s (ent (C k) l) = (if (k, l) \<in> D then me_set_l2 E False (F (k, l)) else 0)"
        using cb k l by blast
      ultimately show ?thesis using other[OF k l False] by (simp only: fun_upd_apply insert_iff if_False simp_thms)
    qed
    show "words_at (C k) 256 \<inter> words_at (C l) 256 = {}" if "l \<in> R" "k \<noteq> l" for l
      using cb k that by blast
  qed
qed

lemma frame_added:
  assumes ff: "frames_filled E root used s0 F D s" and new: "(i, j) \<notin> D"
    and p: "p AND mask 12 = 0" "p \<notin> used (m_heap s)"
    and heap: "used (m_heap s) \<subseteq> used (m_heap s')" "p \<in> used (m_heap s')"
    and src: "frame_of (page_entry E root s0 i j) \<in> used (m_heap s0)"
    and phys: "m_phys s' = (\<lambda>b. if frame_of b = p
       then m_phys s (frame_of (page_entry E root s0 i j) + (b AND mask 12)) else m_phys s b)"
  shows "frames_filled E root used s0 (F((i, j) := p)) (insert (i, j) D) s'"
proof -
  note ff = ff[unfolded frames_filled_def]
  have pF: "p \<notin> F ` D" "p \<notin> used (m_heap s0)" using ff p(2) by blast+
  have img: "(F((i, j) := p)) ` insert (i, j) D = insert p (F ` D)"
    using new by (auto simp: image_iff)
  have same: "(F((i, j) := p)) d = F d" if "d \<in> D" for d using new that by auto
  have "inj_on (F((i, j) := p)) D" using ff same by (simp cong: inj_on_cong)
  then have inj: "inj_on (F((i, j) := p)) (insert (i, j) D)"
    using new pF(1) same by (simp only: inj_on_insert) (auto simp: image_iff)
  have "m_phys s' a = m_phys s0 a" if "frame_of a \<notin> insert p (F ` D)" for a
    using ff that unfolding phys by simp
  moreover have "m_phys s' a = m_phys s0 (frame_of (page_entry E root s0 k l) + (a AND mask 12))"
    if "(k, l) \<in> insert (i, j) D" "frame_of a = (F((i, j) := p)) (k, l)" for k l a
  proof (cases "(k, l) = (i, j)")
    case True
    let ?b = "frame_of (page_entry E root s0 i j) + (a AND mask 12)"
    have "frame_of (page_entry E root s0 i j) AND mask 12 = 0" by (simp add: frame_of_def and.assoc)
    then have "frame_of ?b = frame_of (page_entry E root s0 i j)"
      using frame_add(1)[OF _ offset_small[of a]] by simp
    then have "frame_of ?b \<notin> F ` D" using ff src by auto
    then have "m_phys s ?b = m_phys s0 ?b" using ff by blast
    then show ?thesis using True that(2) by (simp add: phys)
  next
    case False
    then have d: "(k, l) \<in> D" using that(1) by blast
    then have "frame_of a = F (k, l)" "frame_of a \<noteq> p" using same[OF d] that(2) pF(1) by auto
    then show ?thesis using ff d unfolding phys by simp
  qed
  moreover have "(F((i, j) := p)) d AND mask 12 = 0 \<and> (F((i, j) := p)) d \<in> used (m_heap s') \<and>
      (F((i, j) := p)) d \<notin> used (m_heap s0)" if "d \<in> insert (i, j) D" for d
  proof (cases "d = (i, j)")
    case True
    then show ?thesis using p(1) heap(2) pF(2) by simp
  next
    case False
    then have "d \<in> D" using that by blast
    then show ?thesis using ff same heap(1) by auto
  qed
  moreover have "used (m_heap s0) \<subseteq> used (m_heap s')" using ff heap(1) by blast
  ultimately show ?thesis
    unfolding frames_filled_def img using inj by blast
qed

text \<open>
  What a copied page leaves: the child's entry with a new frame, which holds the bytes of the parent's
  page, and nothing else changed in the blocks of either user space.
\<close>

lemma child_page_step:
  assumes fmt: "arm_format E" and laws: "heap_laws E owned used"
    and can: "copyable E root to_table owned used s0"
    and inv: "copying E root to_table owned used s0 C F R D s"
    and i: "i \<in> R" "has_l2 E root s0 i" and j: "j < 256" "(i, j) \<notin> D"
    and page: "page_entry E root s0 i j \<noteq> 0"
    and space: "room E (Suc (if has_l2 E root s (fix_index E) then n else Suc n)) (m_heap s)"
  shows "\<exists>s' p. dup_page E (l2_of E root s0 i) (C i) i j s = Some s' \<and>
    copying E root to_table owned used s0 C (F((i, j) := p)) R (insert (i, j) D) s' \<and> room E n (m_heap s')"
proof -
  note cp = copyingD[OF inv]
  let ?f = "me_FIXMAP_MAPPING E" and ?fi = "fix_index E"
  have root: "m_current s = root" "root \<noteq> NULL" "tables_ok E root s"
    using can cp(1) unfolding copyable_def user_space_ok_def parent_kept_def by blast+
  have fix_al: "?f AND mask 12 = 0" "user_end E \<le> ?fi" using can unfolding copyable_def user_space_ok_def by blast+
  have addr: "me_pte_index_to_vaddr E i j = of_nat (1048576 * i + 4096 * j)" using can unfolding copyable_def user_space_ok_def by blast
  have ik: "i < user_end E" using cp(2) i(1) unfolding child_built_def by blast
  have i4: "i < 4096" by (rule user_index[OF ik])
  define q where "q = frame_of (page_entry E root s0 i j)"
  have q: "q \<in> used (m_heap s0)" "q AND mask 12 = 0"
    using can ik i(2) j(1) page unfolding copyable_def user_space_ok_def q_def
    by (blast, simp add: frame_of_def and.assoc)
  note ul = user_l2[OF cp(1) ik i(2)]
  obtain p h0 where gp: "me_get_free_page E (m_heap s) = (p, h0)" by (cases "me_get_free_page E (m_heap s)")
  obtain h where p0: "p \<noteq> 0" and node: "me_malloc_node E h0 = Some h"
    and space1: "room E (if has_l2 E root s ?fi then n else Suc n) h"
    using space gp by (auto split: option.splits)
  have ff: "p AND mask 12 = 0" "p \<notin> used (m_heap s)" "p \<in> used h" "used (m_heap s) \<subseteq> used h" "owned (m_heap s) \<subseteq> owned h"
    using fresh_frame[OF laws gp p0] fresh_node[OF laws node] by blast+
  define s1 where "s1 = op (PageAdded p) (s\<lparr>m_heap := h\<rparr>)"
  have s1: "m_mem s1 = m_mem s" "m_current s1 = root" "m_heap s1 = h" "m_phys s1 = m_phys s"
    using root(1) by (simp_all add: s1_def)
  have same1: "has_l2 E root s1 = has_l2 E root s" "l2_of E root s1 k = l2_of E root s k"
    "table_words E root s1 = table_words E root s" "tables_ok E root s1 = tables_ok E root s" for k
    using table_words_cong[of E root s s1] by (simp_all add: s1 l2_of_def)
  have own1: "table_words E root s1 \<subseteq> owned (m_heap s1)" using cp(4) ff(5) unfolding same1 s1 by blast
  have fix1: "has_l2 E root s1 ?fi \<or> m_mem s1 (ent root ?fi) = 0"
    using cp(1) unfolding parent_kept_def same1 s1 by blast
  have blk: "fst (me_memalign E 0x400 (me_SZ_1K E) (m_heap s1)) \<noteq> NULL" if "m_mem s1 (ent root ?fi) = 0"
  proof -
    have "\<not> has_l2 E root s ?fi" using that by (simp add: has_l2_def s1)
    then show ?thesis using space1 by (simp add: s1 split: prod.splits)
  qed
  obtain s2 where s2: "create_mapping E root ?f p (me_PAGE_SIZE E) False s1 = Some s2" "tables_ok E root s2"
      "has_l2 E root s2 ?fi" "m_current s2 = root" "m_phys s2 = m_phys s"
    and heap2: "m_heap s2 = (if has_l2 E root s ?fi then h else snd (me_memalign E 0x400 (me_SZ_1K E) h))"
    and own2: "owned h \<subseteq> owned (m_heap s2)" "used h \<subseteq> used (m_heap s2)" "table_words E root s2 \<subseteq> owned (m_heap s2)"
    and out2: "\<And>a. a \<in> owned h \<Longrightarrow> a \<notin> table_words E root s \<Longrightarrow> a \<notin> table_words E root s2 \<and> m_mem s2 a = m_mem s a"
    and keep2: "\<And>k. k < 4096 \<Longrightarrow> k \<noteq> ?fi \<Longrightarrow> m_mem s2 (ent root k) = m_mem s (ent root k) \<and>
       (has_l2 E root s k \<longrightarrow> (\<forall>j < 256. m_mem s2 (ent (l2_of E root s k) j) = m_mem s (ent (l2_of E root s k) j)))"
    and tr2: "\<And>k. k < 4096 \<Longrightarrow> translate E root s2 (?f + of_nat k) = Some (p + of_nat k)"
    using fixed_mapping[OF fmt laws root(2) root(3)[folded same1(4)] own1 fix1 fix_al(1) ff(1) blk]
    unfolding same1 s1 by blast
  define a where "a = ent (C i) j"
  define s3 where "s3 = store a (me_set_l2 E False p) s2"
  have aC: "a \<in> words_at (C i) 256" unfolding a_def by (rule words_atI[OF j(1)])
  then have aW: "a \<in> child_words to_table C R" using i(1) unfolding child_words_def by blast
  have cw2: "b \<notin> table_words E root s2 \<and> m_mem s2 b = m_mem s b" if "b \<in> child_words to_table C R" for b
    using that cp(5,6) ff(5) by (intro out2) blast+
  have out3: "\<forall>b \<in> table_words E root s2. m_mem s3 b = m_mem s2 b" using cw2[OF aW] by (auto simp: s3_def)
  note tw3 = table_words_cong[OF out3]
  have s3: "m_current s3 = root" "m_heap s3 = m_heap s2" "m_phys s3 = m_phys s"
    using s2(4,5) by (simp_all add: s3_def store_def)
  have pk2: "parent_kept E root s0 s2"
  proof -
    have "m_mem s2 (ent root k) = m_mem s0 (ent root k)" if "k < user_end E" for k
      using keep2[OF user_index[OF that]] that fix_al(2) cp(1) by (simp add: parent_kept_def)
    moreover have "m_mem s2 (ent (l2_of E root s0 k) l) = page_entry E root s0 k l"
      if "k < user_end E" "has_l2 E root s0 k" "l < 256" for k l
      using keep2[OF user_index[OF that(1)]] user_l2[OF cp(1) that(1,2)] that(1,3) fix_al(2) by simp
    ultimately show ?thesis using s2(2-4) unfolding parent_kept_def by blast
  qed
  have pk3: "parent_kept E root s0 s3" by (rule parent_kept_outside[OF pk2 _ out3]) (simp add: s3 s2(4))
  have src: "translate E root s3 (me_pte_index_to_vaddr E i j + of_nat k) = Some (q + of_nat k)" if k: "k < 4096" for k
  proof -
    note pa = page_address[OF i4 j(1) k]
    note u3 = user_l2[OF pk3 ik i(2)]
    have "m_mem s3 (ent root i) \<noteq> 0" "\<not> me_l1pte_is_sect E (m_mem s3 (ent root i))"
      "l2_table E (m_mem s3 (ent root i)) = l2_of E root s0 i"
      using u3(1,2) by (simp_all add: has_l2_def l2_of_def)
    then show ?thesis
      using page u3(3)[OF j(1)] frame_or[OF k, of "page_entry E root s0 i j"]
      unfolding translate_def Let_def addr pa q_def by simp
  qed
  have ne: "p \<noteq> q" using ff(2) q(1) cp(3) unfolding frames_filled_def by blast
  define s4 where "s4 = s3\<lparr>m_phys := \<lambda>b. if frame_of b = p then m_phys s (q + (b AND mask 12)) else m_phys s b\<rparr>"
  have copy: "memcpy E ?f (me_pte_index_to_vaddr E i j) 4096 s3 = Some s4"
    using memcpy_page[of E s3 ?f p "me_pte_index_to_vaddr E i j" q] tr2 src ff(1) q(2) ne
    unfolding s3 tw3(5) s4_def by blast
  have run: "dup_page E (l2_of E root s0 i) (C i) i j s = Some s4"
    using s2(1) copy page p0 ul(3)[OF j(1)] root(1) arm_sizes(1)[OF fmt]
    by (simp add: dup_page_def gp node s1_def[symmetric] s3_def a_def)
  have s4: "m_mem s4 = m_mem s3" "m_current s4 = root" "m_heap s4 = m_heap s2" by (simp_all add: s4_def s3)
  let ?F = "F((i, j) := p)" and ?D = "insert (i, j) D"
  have tw4: "table_words E root s4 = table_words E root s2" "has_l2 E root s4 = has_l2 E root s2"
    using table_words_cong[of E root s2 s4] out3 s4(1) by simp_all
  have "parent_kept E root s0 s4"
    by (rule parent_kept_outside[OF pk3]) (simp_all add: s4 s3)
  moreover have "child_built E to_table C ?F R ?D s4"
    by (rule child_entry[OF child_built_outside[OF cp(2)] i(1) j(1)])
       (use cw2 in \<open>auto simp: s4 s3_def a_def\<close>)
  moreover have "frames_filled E root used s0 ?F ?D s4"
    by (rule frame_added[OF cp(3) j(2) ff(1,2)])
       (use ff(3,4) own2(2) q(1) in \<open>auto simp: s3 s4_def q_def\<close>)
  moreover have "table_words E root s4 \<inter> child_words to_table C R = {}" using cw2 unfolding tw4 by blast
  moreover have "child_words to_table C R \<subseteq> owned (m_heap s4)" using cp(5) ff(5) own2(1) unfolding s4 by blast
  ultimately have "copying E root to_table owned used s0 C ?F R ?D s4"
    using own2(3) s2(3) unfolding copying_def tw4 s4(3) by blast
  moreover have "room E n (m_heap s4)"
    using space1 heap2 by (auto simp: s4 split: if_splits prod.splits)
  ultimately show ?thesis using run by blast
qed


section \<open>The whole copy\<close>

definition mapped :: "'h mmu_env \<Rightarrow> addr \<Rightarrow> 'h mmu \<Rightarrow> nat \<Rightarrow> nat list \<Rightarrow> (nat \<times> nat) set" where
  "mapped E root s i js = {(i, j) | j. j \<in> set js \<and> page_entry E root s i j \<noteq> 0}"

lemma child_pages:
  assumes fmt: "arm_format E" and laws: "heap_laws E owned used"
    and can: "copyable E root to_table owned used s0" and i: "i \<in> R" "has_l2 E root s0 i"
  shows "copying E root to_table owned used s0 C F R D s \<Longrightarrow> set js \<subseteq> {..<256} \<Longrightarrow> distinct js \<Longrightarrow>
    \<forall>j \<in> set js. (i, j) \<notin> D \<Longrightarrow>
    room E (pages_in E root s0 i js + (if has_l2 E root s (fix_index E) then n else Suc n)) (m_heap s) \<Longrightarrow>
    \<exists>s' F'. dup_pages E (l2_of E root s0 i) (C i) i js s = Some s' \<and>
      copying E root to_table owned used s0 C F' R (D \<union> mapped E root s0 i js) s' \<and>
      room E (if has_l2 E root s' (fix_index E) then n else Suc n) (m_heap s')"
proof (induction js arbitrary: F D s)
  case Nil
  then show ?case by (auto simp: pages_in_def mapped_def)
next
  case (Cons j js)
  have ik: "i < user_end E"
  proof -
    have "R \<subseteq> {..<user_end E}" using copyingD(2)[OF Cons.prems(1)] unfolding child_built_def by blast
    then show ?thesis using i(1) by blast
  qed
  have entry: "m_mem s (ent (l2_of E root s0 i) j) = page_entry E root s0 i j"
    using user_l2(3)[OF copyingD(1)[OF Cons.prems(1)] ik i(2)] Cons.prems(2) by simp
  show ?case
  proof (cases "page_entry E root s0 i j = 0")
    case True
    then have "dup_page E (l2_of E root s0 i) (C i) i j s = Some s" by (simp add: dup_page_def entry)
    moreover have "mapped E root s0 i (j # js) = mapped E root s0 i js" "pages_in E root s0 i (j # js) = pages_in E root s0 i js"
      using True by (auto simp: mapped_def pages_in_def)
    ultimately show ?thesis using Cons.IH[OF Cons.prems(1)] Cons.prems(2-5) by simp
  next
    case False
    define m where "m = pages_in E root s0 i js + n"
    have space: "room E (Suc (if has_l2 E root s (fix_index E) then m else Suc m)) (m_heap s)"
      using Cons.prems(5) False by (simp add: pages_in_def m_def del: room.simps split: if_splits)
    obtain s1 p where s1: "dup_page E (l2_of E root s0 i) (C i) i j s = Some s1"
      "copying E root to_table owned used s0 C (F((i, j) := p)) R (insert (i, j) D) s1" "room E m (m_heap s1)"
      using child_page_step[OF fmt laws can Cons.prems(1) i _ _ False space] Cons.prems(2,4) by auto
    have "has_l2 E root s1 (fix_index E)" using copyingD(7)[OF s1(2)] by simp
    then have sp: "room E (pages_in E root s0 i js + (if has_l2 E root s1 (fix_index E) then n else Suc n)) (m_heap s1)"
      using s1(3) by (simp add: m_def)
    have fresh: "\<forall>k \<in> set js. (i, k) \<notin> insert (i, j) D" using Cons.prems(3,4) by auto
    have "insert (i, j) D \<union> mapped E root s0 i js = D \<union> mapped E root s0 i (j # js)"
      using False by (auto simp: mapped_def)
    then show ?thesis using Cons.IH[OF s1(2) _ _ fresh sp] Cons.prems(2,3) s1(1) by simp
  qed
qed

definition present :: "'h mmu_env \<Rightarrow> addr \<Rightarrow> 'h mmu \<Rightarrow> nat list \<Rightarrow> nat set" where
  "present E root s is = {i \<in> set is. has_l2 E root s i}"

definition all_mapped :: "'h mmu_env \<Rightarrow> addr \<Rightarrow> 'h mmu \<Rightarrow> nat list \<Rightarrow> (nat \<times> nat) set" where
  "all_mapped E root s is = (\<Union>i \<in> present E root s is. mapped E root s i [0..<256])"

lemma child_entries:
  assumes fmt: "arm_format E" and laws: "heap_laws E owned used"
    and can: "copyable E root to_table owned used s0"
  shows "copying E root to_table owned used s0 C F R D s \<Longrightarrow> set is \<subseteq> {..<user_end E} \<Longrightarrow> distinct is \<Longrightarrow>
    set is \<inter> R = {} \<Longrightarrow>
    room E (needed E root s0 is + (if has_l2 E root s (fix_index E) then n else Suc n)) (m_heap s) \<Longrightarrow>
    \<exists>s' C' F'. dup_entries E root to_table is s = Some s' \<and>
      copying E root to_table owned used s0 C' F' (R \<union> present E root s0 is) (D \<union> all_mapped E root s0 is) s'"
proof (induction "is" arbitrary: C F R D s)
  case Nil
  then show ?case by (auto simp: present_def all_mapped_def)
next
  case (Cons i "is")
  have ik: "i < user_end E" and iR: "i \<notin> R" using Cons.prems(2,4) by auto
  have i4: "i < 4096" by (rule user_index[OF ik])
  note pk = copyingD(1)[OF Cons.prems(1)]
  have entry: "m_mem s (ent root i) = m_mem s0 (ent root i)" using pk ik unfolding parent_kept_def by blast
  show ?case
  proof (cases "has_l2 E root s0 i")
    case False
    then have "m_mem s0 (ent root i) = 0" using can ik unfolding copyable_def user_space_ok_def by blast
    then have "dup_entry E root to_table i s = Some s" by (simp add: dup_entry_def entry)
    moreover have "present E root s0 (i # is) = present E root s0 is" "all_mapped E root s0 (i # is) = all_mapped E root s0 is"
      "needed E root s0 (i # is) = needed E root s0 is"
      using False by (auto simp: present_def all_mapped_def needed_def)
    ultimately show ?thesis using Cons.IH[OF Cons.prems(1)] Cons.prems(2-5) by simp
  next
    case True
    obtain t h where mal: "me_memalign E 0x400 (me_SZ_1K E) (m_heap s) = (t, h)"
      by (cases "me_memalign E 0x400 (me_SZ_1K E) (m_heap s)")
    define m where "m = needed E root s0 is + n"
    have t: "t \<noteq> NULL" and space: "room E (pages_in E root s0 i [0..<256] +
        (if has_l2 E root s (fix_index E) then m else Suc m)) h"
      using Cons.prems(5) True mal by (simp_all add: needed_def m_def add.assoc split: if_splits)
    define s1 where "s1 = store (ent to_table i) (me_set_l1_page E False (me_pa E t)) (clear_words t 256 (s\<lparr>m_heap := h\<rparr>))"
    have inv1: "copying E root to_table owned used s0 (C(i := t)) F (insert i R) D s1"
      and fix1: "has_l2 E root s1 = has_l2 E root s" "m_heap s1 = h"
      using child_table_step[OF fmt laws Cons.prems(1) ik iR mal t] unfolding s1_def by blast+
    have entry1: "m_mem s1 (ent root i) = m_mem s0 (ent root i)"
      using copyingD(1)[OF inv1] ik unfolding parent_kept_def by blast
    have dup: "dup_entry E root to_table i s = dup_pages E (l2_of E root s0 i) t i [0..<256] s1"
      using True mal t entry1
      by (simp add: dup_entry_def entry has_l2_def l2_of_def l2_table_def arm_sizes(7)[OF fmt] s1_def)
    have fresh: "\<forall>j \<in> set [0..<256]. (i, j) \<notin> D"
    proof (intro ballI notI)
      fix j assume "(i, j) \<in> D"
      then have "i \<in> fst ` D" by (rule image_eqI[rotated]) simp
      moreover have "fst ` D \<subseteq> R" using copyingD(2)[OF Cons.prems(1)] unfolding child_built_def by blast
      ultimately show False using iR by blast
    qed
    obtain s2 F' where s2: "dup_pages E (l2_of E root s0 i) t i [0..<256] s1 = Some s2"
      "copying E root to_table owned used s0 (C(i := t)) F' (insert i R) (D \<union> mapped E root s0 i [0..<256]) s2"
      "room E (if has_l2 E root s2 (fix_index E) then m else Suc m) (m_heap s2)"
    proof -
      have lt: "set [0..<256] \<subseteq> {..<256 :: nat}" by auto
      have "room E (pages_in E root s0 i [0..<256] + (if has_l2 E root s1 (fix_index E) then m else Suc m)) (m_heap s1)"
        using space by (simp only: fix1)
      from child_pages[OF fmt laws can insertI1 True inv1 lt distinct_upt fresh this] that show ?thesis
        by (simp only: fun_upd_same) blast
    qed
    have sp: "room E (needed E root s0 is + (if has_l2 E root s2 (fix_index E) then n else Suc n)) (m_heap s2)"
      using s2(3) by (simp add: m_def split: if_splits)
    have sets: "insert i R \<union> present E root s0 is = R \<union> present E root s0 (i # is)"
      "D \<union> mapped E root s0 i [0..<256] \<union> all_mapped E root s0 is = D \<union> all_mapped E root s0 (i # is)"
      using True by (auto simp: present_def all_mapped_def)
    have "set is \<inter> insert i R = {}" using Cons.prems(3,4) by auto
    then show ?thesis
      using Cons.IH[OF s2(2) _ _ _ sp] Cons.prems(2,3) s2(1) dup unfolding sets by simp
  qed
qed


lemma copy_start:
  assumes "copyable E root to_table owned used s"
  shows "copying E root to_table owned used s C F {} {} s"
  using assms unfolding copyable_def user_space_ok_def copying_def parent_kept_def child_built_def frames_filled_def child_words_def page_entry_def
  by (simp, blast)

text \<open>What both roots translate, once the tables are in place.\<close>

lemma child_translation:
  assumes fmt: "arm_format E" and cb: "child_built E to_table C F R D s" and v: "i1 v < user_end E"
    and F: "\<forall>d \<in> D. F d AND mask 12 = 0"
  shows "translate E to_table s v =
    (if (i1 v, i2 v) \<in> D then Some (F (i1 v, i2 v) + (v AND mask 12)) else None)"
proof (cases "i1 v \<in> R")
  case False
  have "m_mem s (ent to_table (i1 v)) = 0" using cb v False unfolding child_built_def by blast
  moreover have "(i1 v, i2 v) \<notin> D"
  proof
    assume "(i1 v, i2 v) \<in> D"
    then have "i1 v \<in> fst ` D" by (rule image_eqI[rotated]) simp
    moreover have "fst ` D \<subseteq> R" using cb unfolding child_built_def by blast
    ultimately show False using False by blast
  qed
  ultimately show ?thesis by (simp add: translate_def)
next
  case True
  let ?d = "(i1 v, i2 v)"
  have l2: "has_l2 E to_table s (i1 v)" "l2_of E to_table s (i1 v) = C (i1 v)"
    and w: "m_mem s (ent (C (i1 v)) (i2 v)) = (if ?d \<in> D then me_set_l2 E False (F ?d) else 0)"
    using cb True i2_less[of v] unfolding child_built_def by blast+
  have e: "m_mem s (ent to_table (i1 v)) \<noteq> 0" "\<not> me_l1pte_is_sect E (m_mem s (ent to_table (i1 v)))"
    "l2_table E (m_mem s (ent to_table (i1 v))) = C (i1 v)" using l2 by (simp_all add: has_l2_def l2_of_def)
  show ?thesis
  proof (cases "?d \<in> D")
    case True
    then have "F ?d AND mask 12 = 0" using F by blast
    then have "frame_of (F ?d) = F ?d" using frame_add(1)[of "F ?d" 0] by simp
    moreover have "(F ?d AND NOT (mask 12)) OR (v AND mask 12) = frame_of (F ?d) + (v AND mask 12)"
      using frame_or[OF offset_small[of v], of "F ?d"] by simp
    ultimately show ?thesis
      using e w True arm_entries(7,8)[OF fmt, of False "F ?d"] by (simp add: translate_def Let_def)
  qed (use e w in \<open>simp add: translate_def Let_def\<close>)
qed

lemma parent_translation:
  assumes can: "copyable E root to_table owned used s0" and pk: "parent_kept E root s0 s" and v: "i1 v < user_end E"
  shows "translate E root s v =
    (if has_l2 E root s0 (i1 v) \<and> page_entry E root s0 (i1 v) (i2 v) \<noteq> 0
     then Some (frame_of (page_entry E root s0 (i1 v) (i2 v)) + (v AND mask 12)) else None)"
proof (cases "has_l2 E root s0 (i1 v)")
  case False
  then have "m_mem s0 (ent root (i1 v)) = 0" using can v unfolding copyable_def user_space_ok_def by blast
  moreover have "m_mem s (ent root (i1 v)) = m_mem s0 (ent root (i1 v))" using pk v unfolding parent_kept_def by blast
  ultimately show ?thesis using False by (simp add: translate_def)
next
  case True
  note u = user_l2[OF pk v True]
  have e: "m_mem s (ent root (i1 v)) \<noteq> 0" "\<not> me_l1pte_is_sect E (m_mem s (ent root (i1 v)))"
    "l2_table E (m_mem s (ent root (i1 v))) = l2_of E root s0 (i1 v)"
    using u(1,2) by (simp_all add: has_l2_def l2_of_def)
  have "(w AND NOT (mask 12)) OR (v AND mask 12) = frame_of w + (v AND mask 12)" for w
    using frame_or[OF offset_small[of v], of w] by simp
  then show ?thesis using e u(3)[OF i2_less, of v] True by (simp add: translate_def Let_def)
qed


lemma room_less: "room E (Suc n) h \<Longrightarrow> room E n h"
proof (induction n arbitrary: h)
  case (Suc n)
  obtain t h1 p h2 where al: "me_memalign E 0x400 (me_SZ_1K E) h = (t, h1)" "me_get_free_page E h = (p, h2)"
    by (metis surj_pair)
  obtain h3 where node: "me_malloc_node E h2 = Some h3"
    using Suc.prems unfolding room.simps(2)[of E "Suc n"] al prod.case by (cases "me_malloc_node E h2") auto
  have "t \<noteq> NULL" "room E (Suc n) h1" "p \<noteq> 0" "room E (Suc n) h3"
    using Suc.prems[unfolded room.simps(2)[of E "Suc n"] al prod.case node option.case] by blast+
  moreover from this have "room E n h1" "room E n h3" by (blast intro: Suc.IH)+
  ultimately show ?case by (simp only: room.simps(2)[of E n] al prod.case node option.case simp_thms)
qed simp

text \<open>The byte a process reads at an address of its user space.\<close>

definition user_byte :: "'h mmu_env \<Rightarrow> addr \<Rightarrow> 'h mmu \<Rightarrow> addr \<Rightarrow> u8 option" where
  "user_byte E root s v = map_option (m_phys s) (translate E root s v)"

lemma copy_effect:
  assumes fmt: "arm_format E" and laws: "heap_laws E owned used" and can: "copyable E root to_table owned used s"
  shows "\<exists>s'. duplicate_user_space E root to_table s = Some s' \<and>
    (\<forall>v. i1 v < user_end E \<longrightarrow> translate E root s' v = translate E root s v \<and>
       user_byte E root s' v = user_byte E root s v \<and> user_byte E to_table s' v = user_byte E root s v) \<and>
    (\<forall>v w p. i1 v < user_end E \<longrightarrow> i1 w < user_end E \<longrightarrow> translate E to_table s' v = Some p \<longrightarrow>
       frame_of p \<notin> used (m_heap s) \<and> translate E root s' w \<noteq> Some p \<and>
       (translate E to_table s' w = Some p \<longrightarrow> w = v))"
proof -
  let ?f = "me_FIXMAP_MAPPING E" and ?is = "[0..<user_end E]"
  have root: "root \<noteq> NULL" "?f AND mask 12 = 0" "user_end E \<le> fix_index E" using can unfolding copyable_def user_space_ok_def by blast+
  have idx: "me_l1pte_index E (me_KERNEL_VADDR E) = user_end E" by (rule arm_offsets(1)[OF fmt])
  have "room E (Suc (needed E root s ?is)) (m_heap s)" using can unfolding copyable_def user_space_ok_def by blast
  then have space: "room E (needed E root s ?is + (if has_l2 E root s (fix_index E) then 0 else Suc 0)) (m_heap s)"
    by (simp add: room_less del: room.simps)
  define R where "R = present E root s ?is"
  define D where "D = all_mapped E root s ?is"
  obtain s1 C F where s1: "dup_entries E root to_table ?is s = Some s1"
    and inv: "copying E root to_table owned used s C F R D s1"
  proof -
    have "set ?is \<subseteq> {..<user_end E}" by auto
    from child_entries[OF fmt laws can copy_start[OF can] this distinct_upt _ space] that show ?thesis
      unfolding R_def D_def by auto
  qed
  note cp = copyingD[OF inv]
  have D: "(i, j) \<in> D \<longleftrightarrow> i < user_end E \<and> has_l2 E root s i \<and> j < 256 \<and> page_entry E root s i j \<noteq> 0" for i j
    by (auto simp: D_def all_mapped_def present_def mapped_def)
  have l2: "has_l2 E root s1 (fix_index E)"
  proof (cases "has_l2 E root s (fix_index E)")
    case True
    then show ?thesis using cp(1) unfolding parent_kept_def by blast
  next
    case False
    then obtain i where "i < user_end E" "has_l2 E root s i" "pages_in E root s i [0..<256] \<noteq> 0"
      using can unfolding copyable_def user_space_ok_def by blast
    moreover from this(3) obtain j where "j < 256" "page_entry E root s i j \<noteq> 0"
      by (auto simp: pages_in_def filter_empty_conv)
    ultimately show ?thesis using D cp(7) by blast
  qed
  have cur: "m_current s1 = root" "tables_ok E root s1" using cp(1) unfolding parent_kept_def by blast+
  have range: "page_range ?f 1" using root(2) i2_less[of ?f] by (simp add: page_range_def Suc_le_eq)
  have tbl: "root = the_table root s1" using root(1) by (simp add: the_table_def)
  obtain s2 where s2: "release_mapping E root ?f (of_nat 1 * 0x1000) s1 = Some s2" "m_phys s2 = m_phys s1"
    and tr2: "\<And>v. translate E root s2 v = (if in_range ?f 1 v then None else translate E root s1 v)"
    and out2: "\<And>b. b \<noteq> ent root (fix_index E) \<Longrightarrow> \<forall>j < 256. b \<noteq> ent (l2_of E root s1 (fix_index E)) j \<Longrightarrow>
       m_mem s2 b = m_mem s1 b"
    using release_effect[OF fmt tbl cur(2) range l2] by blast
  have run: "duplicate_user_space E root to_table s = Some s2"
    using s1 s2(1) cur(1) by (simp add: duplicate_user_space_def idx arm_sizes(1)[OF fmt])
  have "\<forall>b \<in> child_words to_table C R. m_mem s2 b = m_mem s1 b"
  proof
    fix b assume "b \<in> child_words to_table C R"
    then have "b \<notin> table_words E root s1" using cp(6) by blast
    then show "m_mem s2 b = m_mem s1 b"
      using root_word[OF i1_less, of root ?f E s1] l2_word[OF l2] by (intro out2) metis+
  qed
  then have cb: "child_built E to_table C F R D s2" by (rule child_built_outside[OF cp(2)])
  have F: "\<forall>d \<in> D. F d AND mask 12 = 0" "inj_on F D" "\<forall>d \<in> D. F d \<notin> used (m_heap s)"
    and other_bytes: "\<And>a. frame_of a \<notin> F ` D \<Longrightarrow> m_phys s1 a = m_phys s a"
    and new_bytes: "\<And>i j a. (i, j) \<in> D \<Longrightarrow> frame_of a = F (i, j) \<Longrightarrow>
      m_phys s1 a = m_phys s (frame_of (page_entry E root s i j) + (a AND mask 12))"
    using cp(3) unfolding frames_filled_def by blast+
  have in_use: "frame_of (page_entry E root s i j) \<in> used (m_heap s)" if "(i, j) \<in> D" for i j
  proof -
    have "\<forall>i < user_end E. \<forall>j < 256. has_l2 E root s i \<longrightarrow> page_entry E root s i j \<noteq> 0 \<longrightarrow>
        frame_of (page_entry E root s i j) \<in> used (m_heap s)" using can unfolding copyable_def user_space_ok_def by blast
    then show ?thesis using D that by blast
  qed
  have child: "translate E to_table s2 v = (if (i1 v, i2 v) \<in> D then Some (F (i1 v, i2 v) + (v AND mask 12)) else None)"
    if "i1 v < user_end E" for v by (rule child_translation[OF fmt cb that F(1)])
  have old: "parent_kept E root s s" using copyingD(1)[OF copy_start[OF can]] .
  define q where "q v = frame_of (page_entry E root s (i1 v) (i2 v)) + (v AND mask 12)" for v
  have parent: "translate E root s v = (if (i1 v, i2 v) \<in> D then Some (q v) else None)"
    "translate E root s1 v = (if (i1 v, i2 v) \<in> D then Some (q v) else None)" if v: "i1 v < user_end E" for v
    using parent_translation[OF can old v] parent_translation[OF can cp(1) v] D v by (simp_all add: q_def)
  have kept: "translate E root s2 v = translate E root s v" if v: "i1 v < user_end E" for v
  proof -
    have "\<not> in_range ?f 1 v"
    proof
      assume "in_range ?f 1 v"
      moreover have "unat ?f mod 4096 = 0" using root(2) aligned_unat by blast
      ultimately have "i1 v = fix_index E"
        using range_indices[of ?f 1 v] i2_less[of ?f] by (simp add: in_range_def Suc_le_eq)
      then show False using v root(3) by simp
    qed
    then show ?thesis using tr2 parent[OF v] by simp
  qed
  have qf: "frame_of (q v) \<in> used (m_heap s)" if "(i1 v, i2 v) \<in> D" for v
  proof -
    have "frame_of (page_entry E root s (i1 v) (i2 v)) AND mask 12 = 0" by (simp add: frame_of_def and.assoc)
    then have "frame_of (q v) = frame_of (page_entry E root s (i1 v) (i2 v))"
      using frame_add(1)[OF _ offset_small[of v]] by (simp add: q_def)
    then show ?thesis using in_use[OF that] by simp
  qed
  have pf: "frame_of (F d + (v AND mask 12)) = F d" "(F d + (v AND mask 12)) AND mask 12 = v AND mask 12"
    if "d \<in> D" for d and v :: addr
    using frame_add[OF bspec[OF F(1) that] offset_small[of v]] by simp_all
  have pq: "m_phys s2 (q v) = m_phys s (q v)" if "(i1 v, i2 v) \<in> D" for v
  proof -
    have "frame_of (q v) \<notin> F ` D" using qf[OF that] F(3) by auto
    then show ?thesis unfolding s2(2) by (rule other_bytes)
  qed
  have pc: "m_phys s2 (F (i1 v, i2 v) + (v AND mask 12)) = m_phys s (q v)" if d: "(i1 v, i2 v) \<in> D" for v
    unfolding q_def s2(2) new_bytes[OF d pf(1)[OF d]] pf(2)[OF d] by (rule refl)
  have bytes: "user_byte E root s2 v = user_byte E root s v \<and> user_byte E to_table s2 v = user_byte E root s v"
    if v: "i1 v < user_end E" for v
    using kept[OF v] child[OF v] parent(1)[OF v] pq[of v] pc[of v] by (simp add: user_byte_def)
  have own: "frame_of p \<notin> used (m_heap s) \<and> translate E root s2 w \<noteq> Some p \<and> (translate E to_table s2 w = Some p \<longrightarrow> w = v)"
    if v: "i1 v < user_end E" "i1 w < user_end E" "translate E to_table s2 v = Some p" for v w p
  proof -
    have d: "(i1 v, i2 v) \<in> D" and p: "p = F (i1 v, i2 v) + (v AND mask 12)"
      using child[OF v(1)] v(3) by (simp_all split: if_splits)
    have fp: "frame_of p = F (i1 v, i2 v)" "p AND mask 12 = v AND mask 12" using pf[OF d, of v] p by simp_all
    have new: "frame_of p \<notin> used (m_heap s)" using fp(1) F(3) d by simp
    moreover have "translate E root s2 w \<noteq> Some p"
      using kept[OF v(2)] parent(1)[OF v(2)] qf[of w] new by (auto split: if_splits)
    moreover have "w = v" if "translate E to_table s2 w = Some p"
    proof -
      have dw: "(i1 w, i2 w) \<in> D" and pw: "p = F (i1 w, i2 w) + (w AND mask 12)"
        using child[OF v(2)] that by (simp_all split: if_splits)
      have "F (i1 w, i2 w) = F (i1 v, i2 v)"
        using pf(1)[OF dw, of w, folded pw] fp(1) by (rule trans[OF sym])
      then have "(i1 w, i2 w) = (i1 v, i2 v)" by (rule inj_onD[OF F(2) _ dw d])
      then have "i1 w = i1 v" "i2 w = i2 v" by simp_all
      moreover have "w AND mask 12 = v AND mask 12"
        using pf(2)[OF dw, of w, folded pw] fp(2) by (rule trans[OF sym])
      ultimately show ?thesis by (rule same_place)
    qed
    ultimately show ?thesis by (intro conjI impI)
  qed
  show ?thesis
  proof (intro exI[of _ s2] conjI allI impI)
    fix v w p
    assume "i1 v < user_end E" "i1 w < user_end E" "translate E to_table s2 v = Some p"
    note o = own[OF this]
    show "frame_of p \<notin> used (m_heap s)" by (rule o[THEN conjunct1])
    show "translate E root s2 w \<noteq> Some p" by (rule o[THEN conjunct2, THEN conjunct1])
    show "translate E to_table s2 w = Some p \<Longrightarrow> w = v" by (rule o[THEN conjunct2, THEN conjunct2, THEN mp])
  next
    fix v assume v: "i1 v < user_end E"
    show "translate E root s2 v = translate E root s v" by (rule kept[OF v])
    show "user_byte E root s2 v = user_byte E root s v" "user_byte E to_table s2 v = user_byte E root s v"
      using bytes[OF v] by blast+
  qed (rule run)
qed


text \<open>
  C4. The copy of a user space at fork: it comes to an end, and afterwards the child reads at every user
  address what the parent read there before, finding nothing where the parent had nothing; the parent's
  translations and bytes are as they were. Each page of the child lies in a frame that was not in use,
  which neither the parent nor another page of the child shares.
\<close>

theorem duplicate_user_space_copies:
  assumes "arm_format E" and "heap_laws E owned used" and "copyable E root to_table owned used s"
  shows "\<exists>s'. duplicate_user_space E root to_table s = Some s' \<and>
    (\<forall>v. i1 v < user_end E \<longrightarrow> translate E root s' v = translate E root s v \<and>
       user_byte E root s' v = user_byte E root s v \<and> user_byte E to_table s' v = user_byte E root s v) \<and>
    (\<forall>v w p. i1 v < user_end E \<longrightarrow> i1 w < user_end E \<longrightarrow> translate E to_table s' v = Some p \<longrightarrow>
       frame_of p \<notin> used (m_heap s) \<and> translate E root s' w \<noteq> Some p \<and>
       (translate E to_table s' w = Some p \<longrightarrow> w = v))"
  by (rule copy_effect[OF assms])

lemma store_byte_elsewhere:
  assumes "store_byte E v b s = Some t" "\<And>p. translate E (m_current s) s v = Some p \<Longrightarrow> translate E root s w \<noteq> Some p"
  shows "user_byte E root t w = user_byte E root s w"
proof -
  obtain p where p: "translate E (m_current s) s v = Some p" "t = s\<lparr>m_phys := (m_phys s)(p := b)\<rparr>"
    using assms(1) by (auto simp: store_byte_def)
  have "translate E root t w = translate E root s w" by (rule translate_cong) (simp add: p(2))
  moreover have "translate E root s w \<noteq> Some p" by (rule assms(2)[OF p(1)])
  ultimately show ?thesis by (cases "translate E root s w") (simp_all add: user_byte_def p(2))
qed

text \<open>
  C5. After the copy parent and child do not see each other's stores: whatever user address one of them writes
  with its own table, the other reads every user byte as it was at the fork.
\<close>

theorem fork_isolates_memory:
  assumes "arm_format E" and "heap_laws E owned used" and "copyable E root to_table owned used s"
  shows "\<exists>s'. duplicate_user_space E root to_table s = Some s' \<and>
    (\<forall>v b t w. i1 v < user_end E \<longrightarrow> i1 w < user_end E \<longrightarrow>
       (store_byte E v b (s'\<lparr>m_current := to_table\<rparr>) = Some t \<longrightarrow> user_byte E root t w = user_byte E root s w) \<and>
       (store_byte E v b (s'\<lparr>m_current := root\<rparr>) = Some t \<longrightarrow> user_byte E to_table t w = user_byte E root s w))"
proof -
  obtain s' where run: "duplicate_user_space E root to_table s = Some s'"
    and same: "\<And>v. i1 v < user_end E \<Longrightarrow> user_byte E root s' v = user_byte E root s v \<and>
       user_byte E to_table s' v = user_byte E root s v"
    and own: "\<And>v w p. i1 v < user_end E \<Longrightarrow> i1 w < user_end E \<Longrightarrow> translate E to_table s' v = Some p \<Longrightarrow>
       translate E root s' w \<noteq> Some p"
    using copy_effect[OF assms] by blast
  have cong: "translate E r (s'\<lparr>m_current := c\<rparr>) v = translate E r s' v"
    "user_byte E r (s'\<lparr>m_current := c\<rparr>) v = user_byte E r s' v" for r c v
    by (simp_all add: user_byte_def translate_def)
  show ?thesis
  proof (intro exI[of _ s'] conjI allI impI run)
    fix v b t w assume u: "i1 v < user_end E" "i1 w < user_end E"
    assume "store_byte E v b (s'\<lparr>m_current := to_table\<rparr>) = Some t"
    then have "user_byte E root t w = user_byte E root (s'\<lparr>m_current := to_table\<rparr>) w"
      by (rule store_byte_elsewhere) (simp add: cong own[OF u])
    then show "user_byte E root t w = user_byte E root s w" using same[OF u(2)] by (simp add: cong)
  next
    fix v b t w assume u: "i1 v < user_end E" "i1 w < user_end E"
    assume "store_byte E v b (s'\<lparr>m_current := root\<rparr>) = Some t"
    then have "user_byte E to_table t w = user_byte E to_table (s'\<lparr>m_current := root\<rparr>) w"
      by (rule store_byte_elsewhere) (use own[OF u(2,1)] in \<open>auto simp: cong\<close>)
    then show "user_byte E to_table t w = user_byte E root s w" using same[OF u(2)] by (simp add: cong)
  qed
qed


section \<open>A concrete copy\<close>

text \<open>
  A parent with one page at 0x8000, in the frame at 0x50000, in the format and the heap of \<open>sim_arm\<close>. Its
  root table is at 0x10000, its second-level table at 0x18000, the root table of the child at 0x14000.
\<close>

definition sim_owned :: "sim_heap \<Rightarrow> addr set" where
  "sim_owned h = {a. unat a < 0x20000 + 0x4000 * fst h}"

definition sim_used :: "sim_heap \<Rightarrow> addr set" where
  "sim_used h = {a. unat a < 0x800000 + 0x1000 * fst (snd h)}"

definition sim_parent :: "sim_heap mmu" where
  "sim_parent = (store (ent 0x18000 8) 0x50002 (store (ent 0x10000 0) 0x18001 sim_tables))
     \<lparr>m_phys := (\<lambda>_. 0)(0x50004 := 0x41)\<rparr>"

lemma unat_ent: "unat t + 4 * i < 4294967296 \<Longrightarrow> unat (ent t i) = unat t + 4 * i"
proof -
  assume "unat t + 4 * i < 4294967296"
  then have "unat (of_nat (unat t + 4 * i) :: addr) = unat t + 4 * i" by (rule unat_of_nat_u32)
  then show ?thesis by (simp add: ent_def)
qed

lemma sim_block_laws:
  assumes m: "sim_memalign n al (k, f, fr) = (t, h')" "t \<noteq> NULL"
  shows "words_at t (unat n div 4) \<inter> sim_owned (k, f, fr) = {}"
    "sim_owned (k, f, fr) \<union> words_at t (unat n div 4) \<subseteq> sim_owned h'" "sim_used (k, f, fr) \<subseteq> sim_used h'"
proof -
  have k: "k < 256" and n: "n \<le> 0x4000" and t: "t = of_nat (0x20000 + 0x4000 * k)" and h': "h' = (Suc k, f, fr)"
    using m by (simp_all add: sim_memalign_def split: if_splits)
  have "unat t = 0x20000 + 0x4000 * k" unfolding t by (rule unat_of_nat_u32) (use k in simp)
  then have e: "unat (ent t j) = 0x20000 + 0x4000 * k + 4 * j" if "j < 4096" for j
    using unat_ent[of t j] that k by simp
  have "unat n \<le> 0x4000" using n by (simp add: word_le_nat_alt)
  then have n4: "unat n div 4 \<le> 4096" by simp
  have w: "0x20000 + 0x4000 * k \<le> unat a \<and> unat a < 0x20000 + 0x4000 * Suc k" if a: "a \<in> words_at t (unat n div 4)" for a
  proof -
    obtain j where "j < unat n div 4" "a = ent t j" using a unfolding words_at_def by blast
    then show ?thesis using e[of j] n4 by simp
  qed
  show "words_at t (unat n div 4) \<inter> sim_owned (k, f, fr) = {}" using w by (fastforce simp: sim_owned_def)
  show "sim_owned (k, f, fr) \<union> words_at t (unat n div 4) \<subseteq> sim_owned h'" using w by (fastforce simp: sim_owned_def h')
  show "sim_used (k, f, fr) \<subseteq> sim_used h'" by (simp add: sim_used_def h')
qed

lemma sim_frame_laws:
  assumes g: "sim_get_free_page (k, f, fr) = (p, h')" "p \<noteq> NULL"
  shows "p AND mask 12 = 0" "p \<notin> sim_used (k, f, fr)" "insert p (sim_used (k, f, fr)) \<subseteq> sim_used h'"
    "sim_owned (k, f, fr) \<subseteq> sim_owned h'"
proof -
  have f: "f < 4096" and p: "p = of_nat (0x800000 + 0x1000 * f)" and h': "h' = (k, Suc f, fr)"
    using g by (simp_all add: sim_get_free_page_def split: if_splits)
  have u: "unat p = 0x800000 + 0x1000 * f" unfolding p by (rule unat_of_nat_u32) (use f in simp)
  have "0x800000 + 0x1000 * f = 4096 * (2048 + f)" by simp
  then have "unat p mod 4096 = 0" unfolding u by (simp only: mod_mult_self1_is_0)
  then show "p AND mask 12 = 0" by (rule aligned_unat[THEN iffD2])
  show "p \<notin> sim_used (k, f, fr)" by (simp add: sim_used_def u)
  show "insert p (sim_used (k, f, fr)) \<subseteq> sim_used h'" by (fastforce simp: sim_used_def h' u)
  show "sim_owned (k, f, fr) \<subseteq> sim_owned h'" by (simp add: sim_owned_def h')
qed

lemma sim_heap_laws: "heap_laws sim_arm sim_owned sim_used"
proof -
  have e: "me_memalign sim_arm = sim_memalign" "me_get_free_page sim_arm = sim_get_free_page" "me_malloc_node sim_arm = Some"
    by (simp_all add: sim_arm_def)
  show ?thesis unfolding heap_laws_def e
  proof (intro conjI allI impI)
    fix n al h t h' assume m: "sim_memalign n al h = (t, h')" "t \<noteq> NULL"
    obtain k f fr where h: "h = (k, f, fr)" by (cases h)
    show "words_at t (unat n div 4) \<inter> sim_owned h = {}" "sim_owned h \<union> words_at t (unat n div 4) \<subseteq> sim_owned h'"
      "sim_used h \<subseteq> sim_used h'"
      unfolding h by (rule sim_block_laws[OF m[unfolded h]])+
  next
    fix h p h' assume g: "sim_get_free_page h = (p, h')" "p \<noteq> 0"
    obtain k f fr where h: "h = (k, f, fr)" by (cases h)
    show "p AND mask 12 = 0" "p \<notin> sim_used h" "insert p (sim_used h) \<subseteq> sim_used h'" "sim_owned h \<subseteq> sim_owned h'"
      unfolding h by (rule sim_frame_laws[OF g[unfolded h]])+
  qed (simp_all only: option.inject subset_refl)
qed

lemma sim_parent_mem:
  "i < 4096 \<Longrightarrow> m_mem sim_parent (ent 0x10000 i) = (if i = 0 then 0x18001 else 0)"
  "i < 4096 \<Longrightarrow> m_mem sim_parent (ent 0x14000 i) = 0"
  "j < 256 \<Longrightarrow> m_mem sim_parent (ent 0x18000 j) = (if j = 8 then 0x50002 else 0)"
proof -
  have m: "m_mem sim_parent a = (if a = ent 0x18000 8 then 0x50002 else if a = ent 0x10000 0 then 0x18001 else 0)" for a
    by (simp add: sim_parent_def sim_tables_def)
  have ne: "ent t i \<noteq> ent u j" if "unat t + 4 * i < 4294967296" "unat u + 4 * j < 4294967296" "unat t + 4 * i \<noteq> unat u + 4 * j"
    for t u :: addr and i j using unat_ent[OF that(1)] unat_ent[OF that(2)] that(3) by (metis (no_types))
  show "m_mem sim_parent (ent 0x10000 i) = (if i = 0 then 0x18001 else 0)" if "i < 4096"
  proof -
    have "ent 0x10000 i \<noteq> ent 0x18000 8" by (rule ne) (use that in simp_all)
    moreover have "ent 0x10000 i = ent 0x10000 0 \<longleftrightarrow> i = 0" by (rule ent_inj) (use that in simp_all)
    ultimately show ?thesis unfolding m by (simp only: if_False)
  qed
  show "m_mem sim_parent (ent 0x14000 i) = 0" if "i < 4096"
  proof -
    have "ent 0x14000 i \<noteq> ent 0x18000 8" by (rule ne) (use that in simp_all)
    moreover have "ent 0x14000 i \<noteq> ent 0x10000 0" by (rule ne) (use that in simp_all)
    ultimately show ?thesis unfolding m by (simp only: if_False)
  qed
  show "m_mem sim_parent (ent 0x18000 j) = (if j = 8 then 0x50002 else 0)" if "j < 256"
  proof -
    have "ent 0x18000 j \<noteq> ent 0x10000 0" by (rule ne) (use that in simp_all)
    moreover have "ent 0x18000 j = ent 0x18000 8 \<longleftrightarrow> j = 8" by (rule ent_inj) (use that in simp_all)
    ultimately show ?thesis unfolding m by (simp only: if_False)
  qed
qed

lemma sim_parent_tables:
  "has_l2 sim_arm 0x10000 sim_parent i \<longleftrightarrow> i = 0" "l2_of sim_arm 0x10000 sim_parent 0 = 0x18000"
  "table_words sim_arm 0x10000 sim_parent = words_at 0x10000 4096 \<union> words_at 0x18000 256"
proof -
  have "(0x18001 :: u32) AND NOT (mask 10) = 0x18000" by (simp add: mask_eq_exp_minus_1)
  moreover have "\<not> bit (0x18001 :: u32) 1" by (simp add: bit_numeral_rec)
  ultimately have e: "\<not> me_l1pte_is_sect sim_arm 0x18001" "l2_table sim_arm 0x18001 = 0x18000"
    by (simp_all add: sim_arm_def l2_table_def)
  show h: "has_l2 sim_arm 0x10000 sim_parent i \<longleftrightarrow> i = 0" for i
    unfolding has_l2_def using sim_parent_mem(1)[of i] e(1) by (auto split: if_splits)
  show l: "l2_of sim_arm 0x10000 sim_parent 0 = 0x18000" unfolding l2_of_def using sim_parent_mem(1)[of 0] e(2) by simp
  show "table_words sim_arm 0x10000 sim_parent = words_at 0x10000 4096 \<union> words_at 0x18000 256"
    unfolding table_words_def using h l by auto
qed


lemma sim_page_entry: "j < 256 \<Longrightarrow> page_entry sim_arm 0x10000 sim_parent 0 j = (if j = 8 then 0x50002 else 0)"
  unfolding page_entry_def sim_parent_tables(2) by (rule sim_parent_mem(3))

lemma sim_needed: "needed sim_arm 0x10000 sim_parent [0..<3072] = 2"
proof -
  have "pages_in sim_arm 0x10000 sim_parent 0 [0..<256] = length (filter (\<lambda>j. j = 8) [0..<256])"
    unfolding pages_in_def by (rule arg_cong[where f = length], rule filter_cong[OF refl]) (simp add: sim_page_entry)
  also have "\<dots> = 1" by code_simp
  finally have p: "pages_in sim_arm 0x10000 sim_parent 0 [0..<256] = 1" .
  have "sum_list (map (\<lambda>i. if has_l2 sim_arm 0x10000 sim_parent i
      then Suc (pages_in sim_arm 0x10000 sim_parent i [0..<256]) else 0) [Suc 0..<3072]) = 0"
  proof -
    have "(\<forall>x \<in> set xs. f x = 0) \<Longrightarrow> sum_list (map f xs) = (0 :: nat)" for f and xs :: "nat list"
      by (induction xs) auto
    then show ?thesis by (simp only: sim_parent_tables(1) set_upt atLeastLessThan_iff split: if_split) simp
  qed
  moreover have "[0..<3072] = 0 # [Suc 0..<3072]" by (rule upt_conv_Cons) simp
  ultimately show ?thesis unfolding needed_def using p by (simp only: list.map sum_list.Cons sim_parent_tables(1) simp_thms if_True)
qed

lemma sim_copyable: "copyable sim_arm 0x10000 0x14000 sim_owned sim_used sim_parent"
proof -
  have idx: "user_end sim_arm = 3072" "fix_index sim_arm = 3840" "me_FIXMAP_MAPPING sim_arm = 0xF0000000"
    by (simp_all add: sim_arm_def i1_def)
  have base: "m_current sim_parent = 0x10000" "m_heap sim_parent = (0, 0, [])"
    by (simp_all add: sim_parent_def sim_tables_def store_def)
  have own: "words_at 0x10000 4096 \<subseteq> sim_owned (0, 0, [])" "words_at 0x14000 4096 \<subseteq> sim_owned (0, 0, [])"
    "words_at 0x18000 256 \<subseteq> sim_owned (0, 0, [])"
    by (auto simp: words_at_def sim_owned_def unat_ent)
  have ap: "words_at t m \<inter> words_at u n = {}" if "unat t + 4 * m \<le> unat u" "unat u + 4 * n < 4294967296" for t u m n
  proof -
    have "unat a < unat u" if a: "a \<in> words_at t m" for a
    proof -
      obtain x where x: "x < m" "a = ent t x" using a by (auto simp: words_at_def)
      then have "unat t + 4 * x < unat u" using \<open>unat t + 4 * m \<le> unat u\<close> by linarith
      moreover from this have "unat t + 4 * x < 4294967296" using unat_u32_less[of u] by linarith
      ultimately show ?thesis using unat_ent[of t x] x(2) by simp
    qed
    moreover have "unat u \<le> unat a" if "a \<in> words_at u n" for a
      using that \<open>unat u + 4 * n < 4294967296\<close> by (auto simp: words_at_def unat_ent)
    ultimately show ?thesis by fastforce
  qed
  have ok: "tables_ok sim_arm 0x10000 sim_parent"
    unfolding tables_ok_def apart_words sim_parent_tables using ap[of "0x10000" 4096 "0x18000" 256]
    by (simp add: sim_parent_tables(2))
  have al: "(0xF0000000 :: addr) AND mask 12 = 0" by (simp add: mask_eq_exp_minus_1)
  have sep: "table_words sim_arm 0x10000 sim_parent \<inter> words_at 0x14000 4096 = {}"
    unfolding sim_parent_tables(3) using ap[of "0x10000" 4096 "0x14000" 4096] ap[of "0x14000" 4096 "0x18000" 256] by auto
  have fr: "frame_of 0x50002 \<in> sim_used (0, 0, [])" by (simp add: frame_of_def sim_used_def mask_eq_exp_minus_1)
  have pg: "pages_in sim_arm 0x10000 sim_parent 0 [0..<256] \<noteq> 0"
    using sim_page_entry[of 8] by (auto simp: pages_in_def filter_empty_conv intro!: bexI[of _ 8])
  have vaddr: "me_pte_index_to_vaddr sim_arm i j = of_nat (1048576 * i + 4096 * j)" for i j by (simp add: sim_arm_def)
  have room: "room sim_arm (Suc (Suc (Suc 0))) (0, 0, [])"
    by (simp add: sim_arm_def sim_memalign_def sim_get_free_page_def)
  show ?thesis unfolding copyable_def user_space_ok_def idx(1,2) unfolding idx(3) base
  proof (intro conjI)
    show "\<forall>i < 3072. \<forall>j < 256. has_l2 sim_arm 0x10000 sim_parent i \<longrightarrow> page_entry sim_arm 0x10000 sim_parent i j \<noteq> 0 \<longrightarrow>
        frame_of (page_entry sim_arm 0x10000 sim_parent i j) \<in> sim_used (0, 0, [])"
      using fr by (simp add: sim_parent_tables(1) sim_page_entry)
    show "has_l2 sim_arm 0x10000 sim_parent 3840 \<or> m_mem sim_parent (ent 0x10000 3840) = 0 \<and>
        (\<exists>i < 3072. has_l2 sim_arm 0x10000 sim_parent i \<and> pages_in sim_arm 0x10000 sim_parent i [0..<256] \<noteq> 0)"
    proof (rule disjI2, intro conjI exI[of _ 0])
      show "m_mem sim_parent (ent 0x10000 3840) = 0" using sim_parent_mem(1)[of 3840] by simp
      show "has_l2 sim_arm 0x10000 sim_parent 0" unfolding sim_parent_tables(1) ..
    qed (simp, rule pg)
    show "room sim_arm (Suc (needed sim_arm 0x10000 sim_parent [0..<3072])) (0, 0, [])"
      unfolding sim_needed using room by (simp only: numeral_2_eq_2)
    show "table_words sim_arm 0x10000 sim_parent \<subseteq> sim_owned (0, 0, [])"
      unfolding sim_parent_tables(3) using own by blast
    show "\<forall>i < 3072. m_mem sim_parent (ent 0x10000 i) \<noteq> 0 \<longrightarrow> has_l2 sim_arm 0x10000 sim_parent i"
      unfolding sim_parent_tables(1) using sim_parent_mem(1) by (auto split: if_splits)
    show "\<forall>i < 3072. m_mem sim_parent (ent 0x14000 i) = 0" using sim_parent_mem(2) by simp
    show "\<forall>i j. me_pte_index_to_vaddr sim_arm i j = of_nat (1048576 * i + 4096 * j)" using vaddr by blast
  qed ((rule refl ok own(2) sep al | simp)+)
qed

lemma sim_user: "i1 v < user_end sim_arm \<longleftrightarrow> unat v < 0xC0000000"
  by (simp add: sim_arm_def i1_def) (simp add: div_less_iff_less_mult)

lemma sim_parent_byte: "user_byte sim_arm 0x10000 sim_parent 0x8004 = Some 0x41"
proof -
  have "translate sim_arm 0x10000 sim_parent 0x8004 =
      (if has_l2 sim_arm 0x10000 sim_parent (i1 0x8004) \<and> page_entry sim_arm 0x10000 sim_parent (i1 0x8004) (i2 0x8004) \<noteq> 0
       then Some (frame_of (page_entry sim_arm 0x10000 sim_parent (i1 0x8004) (i2 0x8004)) + (0x8004 AND mask 12)) else None)"
    by (rule parent_translation[OF sim_copyable copyingD(1)[OF copy_start[OF sim_copyable]]]) (simp add: sim_user)
  moreover have "i1 0x8004 = 0" "i2 0x8004 = 8" by (simp_all add: i1_def i2_def)
  moreover have "m_phys sim_parent 0x50004 = 0x41" by (simp add: sim_parent_def)
  ultimately show ?thesis
    by (simp add: user_byte_def sim_parent_tables(1) sim_page_entry frame_of_def mask_eq_exp_minus_1)
qed

theorem duplicate_user_space_copies_witness:
  "\<exists>s'. duplicate_user_space sim_arm 0x10000 0x14000 sim_parent = Some s' \<and>
    user_byte sim_arm 0x14000 s' 0x8004 = Some 0x41"
  using duplicate_user_space_copies[OF sim_arm_format sim_heap_laws sim_copyable] sim_parent_byte sim_user[of "0x8004"]
  by auto

theorem fork_isolates_memory_witness:
  "\<exists>s'. duplicate_user_space sim_arm 0x10000 0x14000 sim_parent = Some s' \<and>
    (\<forall>t. store_byte sim_arm 0x8004 7 (s'\<lparr>m_current := 0x14000\<rparr>) = Some t \<longrightarrow>
       user_byte sim_arm 0x10000 t 0x8004 = Some 0x41)"
  using fork_isolates_memory[OF sim_arm_format sim_heap_laws sim_copyable] sim_parent_byte sim_user[of "0x8004"]
  by auto

end
