(* ===== verification/ForkMemory.thy ===== *)
theory ForkMemory
  imports KProps AddressSpace
begin

unbundle bit_operations_syntax

text \<open>
  The process calls of \<open>so3/kernel/process.c\<close> on the page tables of \<open>so3/arch/arm32/mmu.c\<close>: the memory manager
  that \<open>kenv\<close> leaves open becomes the state of \<open>Mmu\<close>, and the functions of \<open>mmu.c\<close> take their places. So what
  a fork does to the user memory of parent and child is stated for \<open>do_fork\<close> itself.
\<close>

section \<open>The kernel on the page tables\<close>

text \<open>The pages \<open>duplicate_user_space\<close> adds to the child, which it records with the other effects.\<close>

fun pages_added :: "mmu_op list \<Rightarrow> frame list" where
  "pages_added [] = []"
| "pages_added (PageAdded p # xs) = p # pages_added xs"
| "pages_added (_ # xs) = pages_added xs"

fun link_pages :: "addr \<Rightarrow> frame list \<Rightarrow> 'm kstate \<Rightarrow> 'm kstate option" where
  "link_pages a [] s = Some s"
| "link_pages a (p # ps) s = do { s1 \<leftarrow> link_page a p s; link_pages a ps s1 }"

definition mmu_duplicate :: "'h mmu_env \<Rightarrow> addr \<Rightarrow> addr \<Rightarrow> 'h mmu kstate \<Rightarrow> 'h mmu kstate option" where
  "mmu_duplicate M parent child s = do {
     pp \<leftarrow> pcb_at s parent;
     np \<leftarrow> pcb_at s child;
     mm \<leftarrow> duplicate_user_space M (p_pgtable pp) (p_pgtable np) (k_mm s);
     link_pages child (pages_added (drop (length (m_ops (k_mm s))) (m_ops mm))) (s\<lparr>k_mm := mm\<rparr>) }"

definition with_mmu :: "'h mmu_env \<Rightarrow> 'h mmu kenv \<Rightarrow> 'h mmu kenv" where
  "with_mmu M E = E\<lparr>
     ke_malloc_node := (\<lambda>m. map_option (\<lambda>h. m\<lparr>m_heap := h\<rparr>) (me_malloc_node M (m_heap m))),
     ke_new_root_pgtable := new_root_pgtable M,
     ke_pgtable_copy_kernel_area := pgtable_copy_kernel_area M,
     ke_reset_root_pgtable := (\<lambda>t remove m. Some (reset_root_pgtable M t remove m)),
     ke_get_free_page := (\<lambda>m. case me_get_free_page M (m_heap m) of (p, h) \<Rightarrow> (p, m\<lparr>m_heap := h\<rparr>)),
     ke_create_mapping := create_mapping M,
     ke_duplicate_user_space := mmu_duplicate M\<rparr>"

lemma with_mmu_fields [simp]:
  "ke_new_root_pgtable (with_mmu M E) = new_root_pgtable M"
  "ke_pgtable_copy_kernel_area (with_mmu M E) = pgtable_copy_kernel_area M"
  "ke_duplicate_user_space (with_mmu M E) = mmu_duplicate M"
  "ke_malloc_pcb (with_mmu M E) = ke_malloc_pcb E" "ke_user_thread (with_mmu M E) = ke_user_thread E"
  "ke_copy_context (with_mmu M E) = ke_copy_context E" "ke_raise_softirq (with_mmu M E) = ke_raise_softirq E"
  "ke_ready (with_mmu M E) = ke_ready E" "ke_thread_exit (with_mmu M E) = ke_thread_exit E"
  "ke_do_close (with_mmu M E) = ke_do_close E" "ke_serial_cleanup (with_mmu M E) = ke_serial_cleanup E"
  "ke_do_kill (with_mmu M E) = ke_do_kill E" "ke_args_base (with_mmu M E) = ke_args_base E"
  by (simp_all add: with_mmu_def)

lemma link_page_core: "link_page a p s = Some t \<Longrightarrow> same_core s t \<and> k_mm t = k_mm s"
proof -
  assume "link_page a p s = Some t"
  then have u: "upd_pcb a (\<lambda>q. q\<lparr>p_page_list := p_page_list q @ [p]\<rparr>)
      (s\<lparr>k_refcount := (k_refcount s)(p := k_refcount s p + 1)\<rparr>) = Some t" by (simp add: link_page_def)
  have "upd_entry a (\<lambda>q. q) xs = xs" for xs :: "(addr \<times> pcb) list"
    by (induction xs) auto
  then have "same_core s t"
    using core_view_upd[OF u, of "\<lambda>q. q"] by (simp add: pcb_core_def same_core_def core_view_def)
  then show ?thesis using u by (auto simp: upd_pcb_Some)
qed

lemma link_pages_core: "link_pages a ps s = Some t \<Longrightarrow> same_core s t \<and> k_mm t = k_mm s"
proof (induction ps arbitrary: s)
  case (Cons p ps)
  then obtain s1 where "link_page a p s = Some s1" "link_pages a ps s1 = Some t" by (auto elim!: bind_SomeE)
  then show ?case using link_page_core Cons.IH same_core_trans by metis
qed simp

text \<open>\<open>mmu.c\<close> keeps what the process calls rely on.\<close>

lemma with_mmu_ok:
  assumes "kenv_ok E"
  shows "kenv_ok (with_mmu M E)"
proof -
  have "same_core s t" if d: "mmu_duplicate M a b s = Some t" for a b s t
  proof -
    obtain mm ps where "link_pages b ps (s\<lparr>k_mm := mm\<rparr>) = Some t"
      using d unfolding mmu_duplicate_def by (auto elim!: bind_SomeE)
    from link_pages_core[OF this] have "same_core (s\<lparr>k_mm := mm\<rparr>) t" by blast
    then show ?thesis by (simp add: same_core_def core_view_def)
  qed
  then show ?thesis using assms unfolding kenv_ok_def by simp
qed

section \<open>A new root table\<close>

text \<open>
  The state in which a process can fork: its user space as above, and room for a root table and the copy.
\<close>

definition forkable :: "'h mmu_env \<Rightarrow> addr \<Rightarrow> ('h \<Rightarrow> addr set) \<Rightarrow> ('h \<Rightarrow> addr set) \<Rightarrow> 'h mmu \<Rightarrow> bool" where
  "forkable M root owned used m \<longleftrightarrow> user_space_ok M root owned used m \<and>
     (case me_memalign M 0x4000 (me_SZ_16K M) (m_heap m) of (t, h) \<Rightarrow>
        t \<noteq> NULL \<and> room M (Suc (needed M root m [0..<user_end M])) h)"

lemma copy_words_frame:
  "\<forall>k. i \<le> k \<longrightarrow> k < n \<longrightarrow> a \<noteq> ent dst k \<Longrightarrow> m_mem (copy_words dst src i n s) a = m_mem s a"
  "m_heap (copy_words dst src i n s) = m_heap s" "m_phys (copy_words dst src i n s) = m_phys s"
  "m_current (copy_words dst src i n s) = m_current s"
proof -
  define f :: "nat \<Rightarrow> 'a mmu \<Rightarrow> 'a mmu" where "f = (\<lambda>i s. store (ent dst i) (m_mem s (ent src i)) s)"
  have c: "copy_words dst src i n s = fold f [i..<n] s" by (simp add: copy_words_def f_def)
  have "\<forall>k \<in> set ks. a \<noteq> ent dst k \<Longrightarrow> m_mem (fold f ks s) a = m_mem s a" for ks s
    by (induction ks arbitrary: s) (auto simp: f_def)
  then show "\<forall>k. i \<le> k \<longrightarrow> k < n \<longrightarrow> a \<noteq> ent dst k \<Longrightarrow> m_mem (copy_words dst src i n s) a = m_mem s a" unfolding c by simp
  have "m_heap (fold f ks s) = m_heap s \<and> m_phys (fold f ks s) = m_phys s \<and> m_current (fold f ks s) = m_current s" for ks s
    by (induction ks arbitrary: s) (simp_all add: f_def store_def)
  then show "m_heap (copy_words dst src i n s) = m_heap s" "m_phys (copy_words dst src i n s) = m_phys s"
    "m_current (copy_words dst src i n s) = m_current s" unfolding c by blast+
qed

lemma needed_cong:
  assumes out: "\<forall>a \<in> table_words M root m. m_mem m' a = m_mem m a"
  shows "has_l2 M root m i \<Longrightarrow> j < 256 \<Longrightarrow> page_entry M root m' i j = page_entry M root m i j"
    "has_l2 M root m i \<Longrightarrow> pages_in M root m' i [0..<256] = pages_in M root m i [0..<256]"
    "needed M root m' is = needed M root m is"
proof -
  note tc = table_words_cong[OF out]
  have e: "page_entry M root m' i j = page_entry M root m i j" if "has_l2 M root m i" "j < 256" for i j
    using bspec[OF out l2_word[OF that]] tc(2)[OF that(1)] by (simp add: page_entry_def)
  then show "has_l2 M root m i \<Longrightarrow> j < 256 \<Longrightarrow> page_entry M root m' i j = page_entry M root m i j" .
  have p: "pages_in M root m' i [0..<256] = pages_in M root m i [0..<256]" if "has_l2 M root m i" for i
    unfolding pages_in_def using e[OF that] by (intro arg_cong[where f = length] filter_cong) auto
  then show "has_l2 M root m i \<Longrightarrow> pages_in M root m' i [0..<256] = pages_in M root m i [0..<256]" .
  show "needed M root m' is = needed M root m is"
    unfolding needed_def tc(1)
    by (intro arg_cong[where f = sum_list] map_cong refl if_cong arg_cong[where f = Suc] p)
qed

text \<open>
  \<open>new_process\<close> gives the child a root table in a block of its own: the tables and bytes of the parent are
  as they were, the child's user space is empty, and the copy can be made.
\<close>

lemma new_root_copyable:
  assumes fmt: "arm_format M" and laws: "heap_laws M owned used" and can: "forkable M root owned used m"
    and new: "new_root_pgtable M m = Some (t, m1)"
  defines "m2 \<equiv> pgtable_copy_kernel_area M t m1"
  shows "copyable M root t owned used m2" "translate M root m2 = translate M root m" "m_phys m2 = m_phys m"
    "t \<noteq> root"
proof -
  obtain h where al: "me_memalign M 0x4000 (me_SZ_16K M) (m_heap m) = (t, h)" and t: "t \<noteq> NULL"
    and m1: "m1 = clear_words t 4096 (m\<lparr>m_heap := h\<rparr>)"
    using new by (auto simp: new_root_pgtable_def arm_sizes(6)[OF fmt] split: prod.splits if_splits)
  have ok: "user_space_ok M root owned used m" using can unfolding forkable_def by blast
  note us = ok[unfolded user_space_ok_def]
  have fw: "words_at t 4096 \<inter> owned (m_heap m) = {}" "owned (m_heap m) \<subseteq> owned h" "words_at t 4096 \<subseteq> owned h"
      "used (m_heap m) \<subseteq> used h"
    by (rule fresh_words[OF laws al t], simp)+
  have m2: "m2 = op (TableFlush t (ent t 4096)) (copy_words t (m_sys_root m1) (user_end M) 4096 m1)"
    by (simp add: m2_def pgtable_copy_kernel_area_def arm_sizes(6)[OF fmt] arm_offsets(1)[OF fmt])
  have fr: "m_heap m2 = h" "m_phys m2 = m_phys m" "m_current m2 = m_current m"
    by (simp_all add: m2 m1 copy_words_frame(2-4))
  have mem: "m_mem m2 a = m_mem m1 a" if "\<forall>k. user_end M \<le> k \<longrightarrow> k < 4096 \<longrightarrow> a \<noteq> ent t k" for a
    using copy_words_frame(1)[OF that] by (simp add: m2)
  have m1m: "m_mem m1 a = (if a \<in> words_at t 4096 then 0 else m_mem m a)" for a
    by (auto simp: m1 clear_words_mem words_at_def)
  have tw: "table_words M root m \<subseteq> owned (m_heap m)" using us by blast
  have out: "\<forall>a \<in> table_words M root m. m_mem m2 a = m_mem m a"
  proof
    fix a assume "a \<in> table_words M root m"
    then have "a \<notin> words_at t 4096" using tw fw(1) by blast
    then have "\<forall>k. user_end M \<le> k \<longrightarrow> k < 4096 \<longrightarrow> a \<noteq> ent t k" "m_mem m1 a = m_mem m a"
      using words_atI[of _ 4096 t] by (auto simp: m1m)
    then show "m_mem m2 a = m_mem m a" using mem by simp
  qed
  note tc = table_words_cong[OF out]
  note nc = needed_cong[OF out]
  show "translate M root m2 = translate M root m" by (rule tc(5))
  show "m_phys m2 = m_phys m" by (rule fr(2))
  show ne: "t \<noteq> root"
  proof
    assume "t = root"
    moreover have "ent t 0 \<in> words_at t 4096" by (rule words_atI) simp
    ultimately show False using root_word[of 0 root M m] tw fw(1) by auto
  qed
  have "user_space_ok M root owned used m2"
    unfolding user_space_ok_def fr tc(1,3,4)
  proof (intro conjI)
    show "\<forall>i < user_end M. m_mem m2 (ent root i) \<noteq> 0 \<longrightarrow> has_l2 M root m i"
    proof (intro allI impI)
      fix i assume i: "i < user_end M" "m_mem m2 (ent root i) \<noteq> 0"
      have "m_mem m2 (ent root i) = m_mem m (ent root i)" by (rule bspec[OF out root_word[OF user_index[OF i(1)]]])
      moreover have "\<forall>i < user_end M. m_mem m (ent root i) \<noteq> 0 \<longrightarrow> has_l2 M root m i" using us by blast
      ultimately show "has_l2 M root m i" using i by simp
    qed
    show "\<forall>i < user_end M. \<forall>j < 256. has_l2 M root m i \<longrightarrow> page_entry M root m2 i j \<noteq> 0 \<longrightarrow>
        frame_of (page_entry M root m2 i j) \<in> used h"
    proof (intro allI impI)
      fix i j :: nat assume a: "i < user_end M" "j < 256" "has_l2 M root m i" "page_entry M root m2 i j \<noteq> 0"
      have "\<forall>i < user_end M. \<forall>j < 256. has_l2 M root m i \<longrightarrow> page_entry M root m i j \<noteq> 0 \<longrightarrow>
          frame_of (page_entry M root m i j) \<in> used (m_heap m)" using us by blast
      then show "frame_of (page_entry M root m2 i j) \<in> used h" using a nc(1)[OF a(3,2)] fw(4) by auto
    qed
    show "table_words M root m \<subseteq> owned h" using tw fw(2) by blast
    have "has_l2 M root m (fix_index M) \<or> m_mem m (ent root (fix_index M)) = 0 \<and>
        (\<exists>i < user_end M. has_l2 M root m i \<and> pages_in M root m i [0..<256] \<noteq> 0)" using us by blast
    then show "has_l2 M root m (fix_index M) \<or> m_mem m2 (ent root (fix_index M)) = 0 \<and>
        (\<exists>i < user_end M. has_l2 M root m i \<and> pages_in M root m2 i [0..<256] \<noteq> 0)"
      using bspec[OF out root_word[OF i1_less], of "me_FIXMAP_MAPPING M"] nc(2) by metis
  qed (use us in blast)+
  moreover have "m_mem m2 (ent t i) = 0" if "i < user_end M" for i
  proof -
    have "\<forall>k. user_end M \<le> k \<longrightarrow> k < 4096 \<longrightarrow> ent t i \<noteq> ent t k"
      using ent_inj[of i _ t] user_index[OF that] that by auto
    then show ?thesis using mem m1m words_atI[OF user_index[OF that], of t] by simp
  qed
  moreover have "words_at t 4096 \<subseteq> owned (m_heap m2)" "table_words M root m2 \<inter> words_at t 4096 = {}"
    unfolding fr tc(3) using fw(1,3) tw by blast+
  moreover have "room M (Suc (needed M root m2 [0..<user_end M])) (m_heap m2)"
    unfolding nc(3) fr using can al unfolding forkable_def by simp
  ultimately show "copyable M root t owned used m2" unfolding copyable_def by blast
qed


section \<open>Fork\<close>

text \<open>
  The thread layer has stacks and descriptors of its own: it leaves the page tables and the user bytes alone.
\<close>

definition same_memory :: "'h mmu kstate \<Rightarrow> 'h mmu kstate \<Rightarrow> bool" where
  "same_memory s t \<longleftrightarrow> m_mem (k_mm t) = m_mem (k_mm s) \<and> m_phys (k_mm t) = m_phys (k_mm s)"

definition threads_quiet :: "'h mmu kenv \<Rightarrow> bool" where
  "threads_quiet E \<longleftrightarrow> (\<forall>f n a b s. same_memory s (snd (ke_user_thread E f n a b s))) \<and>
     (\<forall>a b s. same_memory s (ke_copy_context E a b s)) \<and> (\<forall>s. same_memory s (ke_raise_softirq E s))"

lemma same_memory_user_byte:
  "same_memory s t \<Longrightarrow> user_byte M r (k_mm t) v = user_byte M r (k_mm s) v"
  "same_memory s t \<Longrightarrow> translate M r (k_mm t) v = translate M r (k_mm s) v"
  by (simp_all add: same_memory_def user_byte_def translate_def)

lemma same_memory_trans [trans]: "same_memory s t \<Longrightarrow> same_memory t u \<Longrightarrow> same_memory s u"
  by (simp add: same_memory_def)

lemma same_memory_upd: "upd_pcb a f s = Some t \<Longrightarrow> same_memory s t"
  by (auto simp: upd_pcb_Some same_memory_def)

text \<open>The page table of a process, which nothing after its creation changes.\<close>

definition table_at :: "'m kstate \<Rightarrow> addr \<Rightarrow> addr option" where
  "table_at s a = map_option p_pgtable (pcb_at s a)"

lemma table_at_core:
  assumes "same_core s t"
  shows "table_at t a = table_at s a"
proof -
  have "map_option p_pgtable (map_option pcb_core (pcb_at t a)) = map_option p_pgtable (map_option pcb_core (pcb_at s a))"
    by (simp only: same_core_pcb[OF assms])
  then show ?thesis by (simp add: table_at_def option.map_comp comp_def)
qed

lemma table_at_upd:
  assumes "upd_pcb b f s = Some t" and "\<And>p. p_pgtable (f p) = p_pgtable p"
  shows "table_at t a = table_at s a"
proof -
  have "map_option p_pgtable (map_of (upd_entry b f xs) a) = map_option p_pgtable (map_of xs a)" for xs
    by (induction xs) (auto simp: assms(2))
  then show ?thesis using assms(1) by (auto simp: upd_pcb_Some table_at_def pcb_at_def)
qed

lemma duplicate_process_memory:
  assumes dup: "duplicate_process E parent s = Some (a, t)" and ok: "kenv_ok E"
    and pp: "pcb_at s parent = Some pp"
  shows "\<exists>pgt m. ke_new_root_pgtable E (k_mm s) = Some (pgt, m) \<and> k_mm t = ke_pgtable_copy_kernel_area E pgt m \<and>
    table_at t a = Some pgt \<and> table_at t parent = Some (p_pgtable pp)"
proof -
  from dup obtain s1 where new: "new_process E s = Some (a, s1)"
    by (auto simp: duplicate_process_def bind_eq_Some_conv case_prod_unfold Let_def split: if_splits)
  then obtain pgt m where a: "a \<noteq> NULL" "a = ke_malloc_pcb E s"
    and m: "ke_new_root_pgtable E (k_mm s) = Some (pgt, m)"
    and s1: "k_procs s1 = k_procs s @ [(a, fresh_pcb (k_pid_current s) pgt)]" "k_mm s1 = ke_pgtable_copy_kernel_area E pgt m"
    by (auto simp: new_process_def Let_def bind_eq_Some_conv split: if_splits)
  from a ok have fresh: "a \<notin> fst ` set (k_procs s)" by (simp add: kenv_ok_def)
  have pp1: "pcb_at s1 parent = Some pp" by (rule pcb_at_append[OF s1(1) pp])
  obtain f s2 g where u2: "upd_pcb a f s1 = Some s2" "\<And>p. p_pgtable (f p) = p_pgtable p"
    and u3: "upd_pcb a g s2 = Some t" "\<And>p. p_pgtable (g p) = p_pgtable p"
    using dup[unfolded duplicate_process_def]
    by (auto simp: new pp1 bind_eq_Some_conv case_prod_unfold Let_def split: if_splits)
  have "table_at t b = table_at s1 b" for b using table_at_upd[OF u2] table_at_upd[OF u3] by simp
  moreover have "table_at s1 a = Some pgt" using upd_last(2)[OF s1(1) fresh] by (simp add: table_at_def fresh_pcb_def)
  moreover have "k_mm t = k_mm s1" using u2(1) u3(1) by (auto simp: upd_pcb_Some)
  ultimately show ?thesis using m s1(2) pp1 by (simp add: table_at_def)
qed

lemma fork_memory:
  assumes fmt: "arm_format M" and laws: "heap_laws M owned used" and ok: "kenv_ok E" and quiet: "threads_quiet E"
    and can: "forkable M (p_pgtable pp) owned used (k_mm s)"
    and body: "fork_body (with_mmu M E) s = Some (Some (a, c), t)" and pp: "pcb_at s a = Some pp"
  shows "\<exists>np. pcb_at t c = Some np \<and> p_pgtable np \<noteq> p_pgtable pp \<and>
    (\<forall>v. i1 v < user_end M \<longrightarrow>
       user_byte M (p_pgtable np) (k_mm t) v = user_byte M (p_pgtable pp) (k_mm s) v \<and>
       user_byte M (p_pgtable pp) (k_mm t) v = user_byte M (p_pgtable pp) (k_mm s) v) \<and>
    (\<forall>v w p. i1 v < user_end M \<longrightarrow> i1 w < user_end M \<longrightarrow>
       translate M (p_pgtable np) (k_mm t) v = Some p \<longrightarrow> translate M (p_pgtable pp) (k_mm t) w \<noteq> Some p)"
  using body
proof (rule fork_body_Some)
  let ?E = "with_mmu M E"
  let ?u = "ke_user_thread ?E NULL"
  fix pp' s1 s2 np nm s3 s5 s7
  assume pp': "pcb_at s a = Some pp'"
    and dup: "duplicate_process ?E a (s\<lparr>k_irq_disabled := True\<rparr>) = Some (c, s1)"
    and dus: "ke_duplicate_user_space ?E a c s1 = Some s2"
    and s3: "set_name c nm s2 = Some s3"
    and s5: "upd_pcb c (\<lambda>p. p\<lparr>p_main_thread := fst (?u nm (ke_args_base ?E) c s3)\<rparr>) (snd (?u nm (ke_args_base ?E) c s3)) = Some s5"
    and s7: "upd_pcb c (\<lambda>p. p\<lparr>p_state := PROC_STATE_READY\<rparr>)
        (ke_copy_context ?E (fst (?u nm (ke_args_base ?E) c s3)) (p_main_thread pp') s5) = Some s7"
    and t: "t = local_irq_restore (k_irq_disabled s) (ke_raise_softirq ?E s7)"
  note okm = with_mmu_ok[OF ok, of M]
  let ?root = "p_pgtable pp"
  have pp0: "pcb_at (s\<lparr>k_irq_disabled := True\<rparr>) a = Some pp" using pp by simp
  obtain pgt m where new: "new_root_pgtable M (k_mm s) = Some (pgt, m)"
    and m1: "k_mm s1 = pgtable_copy_kernel_area M pgt m"
    and tab1: "table_at s1 c = Some pgt" "table_at s1 a = Some ?root"
    using duplicate_process_memory[OF dup okm pp0] by auto
  note nr = new_root_copyable[OF fmt laws can new, folded m1]
  obtain mm ps where dm: "duplicate_user_space M ?root pgt (k_mm s1) = Some mm"
    and lp: "link_pages c ps (s1\<lparr>k_mm := mm\<rparr>) = Some s2"
    using dus tab1 unfolding mmu_duplicate_def with_mmu_fields table_at_def by (auto elim!: bind_SomeE)
  have s2: "same_core (s1\<lparr>k_mm := mm\<rparr>) s2" "k_mm s2 = mm" using link_pages_core[OF lp] by simp_all
  obtain x where x: "duplicate_user_space M ?root pgt (k_mm s1) = Some x"
    and same: "\<And>v. i1 v < user_end M \<Longrightarrow> user_byte M ?root x v = user_byte M ?root (k_mm s1) v \<and>
       user_byte M pgt x v = user_byte M ?root (k_mm s1) v"
    and own: "\<And>v w p. i1 v < user_end M \<Longrightarrow> i1 w < user_end M \<Longrightarrow> translate M pgt x v = Some p \<Longrightarrow>
       translate M ?root x w \<noteq> Some p"
    using copy_effect[OF fmt laws nr(1)] by blast
  have xm: "x = k_mm s2" using x dm s2(2) by simp
  have old: "user_byte M ?root (k_mm s1) v = user_byte M ?root (k_mm s) v" for v
    by (simp add: user_byte_def nr(2,3))
  have q: "same_memory s3 (snd (?u nm (ke_args_base ?E) c s3))" "same_memory s5 (ke_copy_context ?E th b s5)"
    "same_memory s7 (ke_raise_softirq ?E s7)" for th b
    using quiet by (simp_all add: threads_quiet_def)
  have u3: "upd_pcb c (\<lambda>p. p\<lparr>p_name := nm\<rparr>) s2 = Some s3" using s3 by (simp add: set_name_def split: if_splits)
  have "same_memory s2 s3" by (rule same_memory_upd[OF u3])
  also note q(1)
  also note same_memory_upd[OF s5]
  also note q(2)
  also note same_memory_upd[OF s7]
  also note q(3)
  finally have mem: "same_memory s2 t" by (simp add: t local_irq_restore_def same_memory_def)
  have core: "same_core s3 (snd (?u nm (ke_args_base ?E) c s3))" "same_core s5 (ke_copy_context ?E th b s5)"
    "same_core s7 (ke_raise_softirq ?E s7)" for th b
    using okm by (simp_all add: kenv_ok_def)
  have "table_at t c = table_at (ke_raise_softirq ?E s7) c"
    by (simp add: t local_irq_restore_def table_at_def pcb_at_def)
  also have "\<dots> = table_at s5 c"
    using table_at_core[OF core(3)] table_at_upd[OF s7] table_at_core[OF core(2)] by simp
  also have "\<dots> = table_at s2 c"
    using table_at_upd[OF s5] table_at_core[OF core(1)] table_at_upd[OF u3] by simp
  also have "\<dots> = table_at (s1\<lparr>k_mm := mm\<rparr>) c" by (rule table_at_core[OF s2(1)])
  also have "\<dots> = Some pgt" using tab1(1) by (simp add: table_at_def pcb_at_def)
  finally obtain np' where np': "pcb_at t c = Some np'" "p_pgtable np' = pgt" by (auto simp: table_at_def)
  note bytes = same_memory_user_byte[OF mem]
  show ?thesis
  proof (intro exI[of _ np'] conjI allI impI)
    show "pcb_at t c = Some np'" "p_pgtable np' \<noteq> ?root" using np' nr(4) by simp_all
  next
    fix v assume v: "i1 v < user_end M"
    show "user_byte M (p_pgtable np') (k_mm t) v = user_byte M ?root (k_mm s) v"
      "user_byte M ?root (k_mm t) v = user_byte M ?root (k_mm s) v"
      using same[OF v] unfolding np'(2) bytes old xm by simp_all
  next
    fix v w p assume "i1 v < user_end M" "i1 w < user_end M" "translate M (p_pgtable np') (k_mm t) v = Some p"
    then show "translate M ?root (k_mm t) w \<noteq> Some p" unfolding np'(2) bytes xm[symmetric] by (rule own)
  qed
qed


text \<open>It returns: with space for the PCB, a name that fits and descriptors that can be cloned.\<close>

lemma upd_pcb_returns: "table_at s a = Some x \<Longrightarrow> \<exists>t. upd_pcb a f s = Some t"
  by (auto simp: table_at_def upd_pcb_def split: option.splits)

lemma link_pages_returns: "table_at s a = Some x \<Longrightarrow> \<exists>t. link_pages a ps s = Some t"
proof (induction ps arbitrary: s)
  case (Cons p ps)
  have "table_at (s\<lparr>k_refcount := (k_refcount s)(p := k_refcount s p + 1)\<rparr>) a = Some x"
    using Cons.prems by (simp add: table_at_def pcb_at_def)
  from upd_pcb_returns[OF this] obtain s1 where s1: "link_page a p s = Some s1" unfolding link_page_def by blast
  then have "table_at s1 a = Some x" using table_at_core[of s s1 a] link_page_core[OF s1] Cons.prems by simp
  then show ?case using Cons.IH s1 by simp
qed simp

lemma duplicate_process_returns:
  assumes ok: "kenv_ok E" and pp: "pcb_at s parent = Some pp" and room: "ke_malloc_pcb E s \<noteq> NULL"
    and root: "ke_new_root_pgtable E (k_mm s) = Some (pgt, m)"
    and fds: "\<not> fst (ke_vfs_clone_fd E (p_fd_array pp) (replicate FD_MAX 0))"
  shows "\<exists>a t. duplicate_process E parent s = Some (a, t)"
proof -
  define a where "a = ke_malloc_pcb E s"
  define s1 where "s1 = s\<lparr>k_pid_current := k_pid_current s + 1, k_mm := ke_pgtable_copy_kernel_area E pgt m,
    k_procs := k_procs s @ [(a, fresh_pcb (k_pid_current s) pgt)]\<rparr>"
  have new: "new_process E s = Some (a, s1)"
    using room root by (simp add: new_process_def Let_def a_def s1_def)
  have fresh: "a \<notin> fst ` set (k_procs s)" using ok room by (simp add: kenv_ok_def a_def)
  have s1p: "k_procs s1 = k_procs s @ [(a, fresh_pcb (k_pid_current s) pgt)]" by (simp add: s1_def)
  have pp1: "pcb_at s1 parent = Some pp" by (rule pcb_at_append[OF s1p pp])
  show ?thesis
    using fds upd_last[OF s1p fresh]
    by (auto simp: duplicate_process_def new pp1 Let_def fresh_pcb_def upd_last[OF _ fresh] split: prod.splits)
qed

lemma fork_body_returns:
  assumes fmt: "arm_format M" and laws: "heap_laws M owned used" and ok: "kenv_ok E"
    and can: "forkable M (p_pgtable pp) owned used (k_mm s)"
    and cur: "current_pcb s = Some a" "pcb_at s a = Some pp" "k_current s = p_main_thread pp"
    and pcb: "ke_malloc_pcb E (s\<lparr>k_irq_disabled := True\<rparr>) \<noteq> NULL"
    and fds: "\<not> fst (ke_vfs_clone_fd E (p_fd_array pp) (replicate FD_MAX 0))"
    and name: "length (child_name pp (k_pid_current s)) < PROC_NAME_LEN"
  shows "\<exists>c t. fork_body (with_mmu M E) s = Some (Some (a, c), t)"
proof -
  let ?E = "with_mmu M E" and ?s = "s\<lparr>k_irq_disabled := True\<rparr>"
  note okm = with_mmu_ok[OF ok, of M]
  have pp0: "pcb_at ?s a = Some pp" using cur(2) by simp
  obtain pgt m where new: "new_root_pgtable M (k_mm s) = Some (pgt, m)"
    using can unfolding forkable_def new_root_pgtable_def arm_sizes(6)[OF fmt] by (auto split: prod.splits)
  obtain c s1 where dup: "duplicate_process ?E a ?s = Some (c, s1)"
    using duplicate_process_returns[OF okm pp0, of pgt m] new pcb fds by (auto simp: with_mmu_def)
  obtain pgt' m' where m': "new_root_pgtable M (k_mm s) = Some (pgt', m')" "k_mm s1 = pgtable_copy_kernel_area M pgt' m'"
    and tab: "table_at s1 c = Some pgt'" "table_at s1 a = Some (p_pgtable pp)"
    using duplicate_process_memory[OF dup okm pp0] by auto
  note nr = new_root_copyable[OF fmt laws can m'(1), folded m'(2)]
  obtain mm where mm: "duplicate_user_space M (p_pgtable pp) pgt' (k_mm s1) = Some mm"
    using copy_effect[OF fmt laws nr(1)] by blast
  have "table_at (s1\<lparr>k_mm := mm\<rparr>) c = Some pgt'" using tab(1) by (simp add: table_at_def pcb_at_def)
  then obtain ps s2 where lp: "link_pages c (pages_added (drop (length (m_ops (k_mm s1))) (m_ops mm))) (s1\<lparr>k_mm := mm\<rparr>) = Some s2"
    using link_pages_returns by metis
  then have dus: "mmu_duplicate M a c s1 = Some s2"
    using tab mm by (auto simp: mmu_duplicate_def table_at_def)
  have irq1: "k_irq_disabled s1" and pid1: "map_option p_pid (pcb_at s1 c) = Some (k_pid_current s)"
    using duplicate_process_effect[OF dup okm pp0] upd_last(2)[of s1 "k_procs ?s" c] by auto
  have c2: "same_core s1 s2"
    using okm dus by (auto simp: kenv_ok_def)
  obtain np where np: "pcb_at s2 c = Some np" "p_pid np = k_pid_current s"
  proof -
    have "map_option p_pid (map_option pcb_core (pcb_at s2 c)) = map_option p_pid (map_option pcb_core (pcb_at s1 c))"
      by (simp only: same_core_pcb[OF c2])
    then have "map_option p_pid (pcb_at s2 c) = Some (k_pid_current s)" using pid1 by (simp add: option.map_comp comp_def)
    then show ?thesis using that by auto
  qed
  have t2: "table_at s2 c = Some pgt'" using table_at_core[OF c2] tab(1) by simp
  let ?nm = "child_name pp (k_pid_current s)"
  obtain s3 where u3: "upd_pcb c (\<lambda>p. p\<lparr>p_name := ?nm\<rparr>) s2 = Some s3" using upd_pcb_returns[OF t2] by blast
  then have s3: "set_name c ?nm s2 = Some s3" using name by (simp add: set_name_def)
  obtain th s4 where us: "ke_user_thread E NULL ?nm (ke_args_base E) c s3 = (th, s4)"
    by (cases "ke_user_thread E NULL ?nm (ke_args_base E) c s3")
  have "same_core s3 (snd (ke_user_thread E NULL ?nm (ke_args_base E) c s3))" using ok by (simp add: kenv_ok_def)
  then have c4: "same_core s3 s4" by (simp add: us)
  have t4: "table_at s4 c = Some pgt'"
    using table_at_core[OF c4] table_at_upd[OF u3] t2 by simp
  obtain s5 where u5: "upd_pcb c (\<lambda>p. p\<lparr>p_main_thread := th\<rparr>) s4 = Some s5" using upd_pcb_returns[OF t4] by blast
  define s6 where "s6 = ke_copy_context E th (p_main_thread pp) s5"
  have c6: "same_core s5 s6" using ok by (simp add: kenv_ok_def s6_def)
  have t6: "table_at s6 c = Some pgt'" using table_at_core[OF c6] table_at_upd[OF u5] t4 by simp
  obtain s7 where u7: "upd_pcb c (\<lambda>p. p\<lparr>p_state := PROC_STATE_READY\<rparr>) s6 = Some s7" using upd_pcb_returns[OF t6] by blast
  have "k_irq_disabled s7"
    using irq1 c2 u3 c4 u5 c6 u7 by (auto simp: same_core_def upd_pcb_Some)
  moreover have "current_pcb ?s = Some a" using cur(1) by (simp add: current_pcb_def)
  ultimately have "fork_body ?E s = Some (Some (a, c), local_irq_restore (k_irq_disabled s) (ke_raise_softirq E s7))"
    using cur(3) by (simp add: fork_body_def local_irq_save_def cur(2) dup dus np s3 us u5 u7 flip: s6_def)
  then show ?thesis by blast
qed


text \<open>
  C1. Fork with memory: when the main thread of a process forks, with a PCB, page tables and frames to be had, a name
  that fits and descriptors that can be cloned, \<open>do_fork\<close> returns the pid of a new process, whose parent is the
  caller; at every user address the child reads through its own page table what the parent read at the call,
  the parent reads what it read before, and no frame of the child is a frame of the parent.
\<close>

theorem fork_copies_memory:
  assumes fmt: "arm_format M" and laws: "heap_laws M owned used" and ok: "kenv_ok E" and quiet: "threads_quiet E"
    and can: "forkable M (p_pgtable pp) owned used (k_mm s)"
    and cur: "current_pcb s = Some a" "pcb_at s a = Some pp" "k_current s = p_main_thread pp"
    and pcb: "ke_malloc_pcb E (s\<lparr>k_irq_disabled := True\<rparr>) \<noteq> NULL"
    and fds: "\<not> fst (ke_vfs_clone_fd E (p_fd_array pp) (replicate FD_MAX 0))"
    and name: "length (child_name pp (k_pid_current s)) < PROC_NAME_LEN"
  shows "\<exists>r t c np. do_fork (with_mmu M E) s = Some (r, t) \<and> r = sint (p_pid np) \<and>
    pcb_at s c = None \<and> pcb_at t c = Some np \<and> p_parent np = a \<and>
    (\<forall>v. i1 v < user_end M \<longrightarrow>
       user_byte M (p_pgtable np) (k_mm t) v = user_byte M (p_pgtable pp) (k_mm s) v \<and>
       user_byte M (p_pgtable pp) (k_mm t) v = user_byte M (p_pgtable pp) (k_mm s) v) \<and>
    (\<forall>v w p. i1 v < user_end M \<longrightarrow> i1 w < user_end M \<longrightarrow>
       translate M (p_pgtable np) (k_mm t) v = Some p \<longrightarrow> translate M (p_pgtable pp) (k_mm t) w \<noteq> Some p)"
proof -
  obtain c t where body: "fork_body (with_mmu M E) s = Some (Some (a, c), t)"
    using fork_body_returns[OF fmt laws ok can cur pcb fds name] by blast
  from fork_memory[OF fmt laws ok quiet can body cur(2)] obtain np where np: "pcb_at t c = Some np"
    and mem: "\<And>v. i1 v < user_end M \<Longrightarrow>
       user_byte M (p_pgtable np) (k_mm t) v = user_byte M (p_pgtable pp) (k_mm s) v \<and>
       user_byte M (p_pgtable pp) (k_mm t) v = user_byte M (p_pgtable pp) (k_mm s) v"
    and own: "\<And>v w p. i1 v < user_end M \<Longrightarrow> i1 w < user_end M \<Longrightarrow>
       translate M (p_pgtable np) (k_mm t) v = Some p \<Longrightarrow> translate M (p_pgtable pp) (k_mm t) w \<noteq> Some p"
    by blast
  from fork_body_effect[OF body with_mmu_ok[OF ok]] cur obtain q where
    fresh: "c \<notin> fst ` set (k_procs s)" and view: "core_view t = core_view s @ [(c, pcb_core q)]"
    and q: "forked_pcb (with_mmu M E) s a pp q" by auto
  from fork_view_new[OF view fresh] np have "pcb_core np = pcb_core q" by auto
  then have "p_parent np = a" using forked_pcb_core q by (metis forked_pcb_def)
  moreover have "pcb_at s c = None" using fresh by (simp add: pcb_at_def map_of_eq_None_iff)
  moreover have "do_fork (with_mmu M E) s = Some (sint (p_pid np), t)" using body np by (simp add: do_fork_def)
  ultimately show ?thesis using np mem own
    by (intro exI[of _ "sint (p_pid np)"] exI[of _ t] exI[of _ c] exI[of _ np]) blast
qed

section \<open>A concrete fork\<close>

text \<open>The process of \<open>sim_parent\<close>, with pid 1, as the running process of the kernel.\<close>

definition fork_env :: "sim_heap mmu kenv" where
  "fork_env = \<lparr>ke_HEAP_SIZE = 0x10000, ke_PAGE_SIZE = 0x1000, ke_PAGE_SHIFT = 12,
     ke_THREAD_STACK_SIZE = 0x80, ke_ALIGN_UP = (\<lambda>x a. (x + a - 1) div a * a),
     ke_USER_SPACE_VADDR = 0x1000, ke_root_proc_start = 0x8000, ke_root_proc_size = 0x1000,
     ke_STDIN = 0, ke_STDOUT = 1, ke_STDERR = 2,
     ke_ECHILD = 10, ke_ENOMEM = 12, ke_ESRCH = 3, ke_ENFILE = 23, ke_WNOHANG = 1,
     ke_args_base = 0xBFFFF000,
     ke_malloc_pcb = sim_malloc, ke_malloc_node = Some, ke_free_node = id,
     ke_new_root_pgtable = (\<lambda>m. None), ke_pgtable_copy_kernel_area = (\<lambda>t m. m),
     ke_reset_root_pgtable = (\<lambda>t remove m. None), ke_get_free_page = (\<lambda>m. (0, m)),
     ke_free_page = (\<lambda>f m. m), ke_create_mapping = (\<lambda>t v p n c m. None),
     ke_duplicate_user_space = (\<lambda>a b s. None), ke_vfs_clone_fd = (\<lambda>old new. (False, old)),
     ke_user_thread = (\<lambda>f n arg a s. (a + 0x100, s\<lparr>k_tcbs := (k_tcbs s)(a + 0x100 \<mapsto> sim_tcb n a)\<rparr>)),
     ke_copy_context = (\<lambda>new old s. s), ke_raise_softirq = (\<lambda>s. s), ke_ready = (\<lambda>t s. s),
     ke_thread_join = (\<lambda>t s. s), ke_thread_exit = (\<lambda>s. s), ke_do_close = (\<lambda>i s. s),
     ke_serial_cleanup = (\<lambda>s. s), ke_do_kill = (\<lambda>p s. s)\<rparr>"

definition fork_parent :: "pcb" where
  "fork_parent = sim_pcb 1 ''sh'' NULL 0x10000 0x101 [0x50000]"

definition fork_start :: "sim_heap mmu kstate" where
  "fork_start = \<lparr>k_procs = [(1, fork_parent)], k_tcbs = [0x101 \<mapsto> sim_tcb ''sh'' 1], k_pid_current = 2,
     k_root_process = 1, k_current = 0x101, k_irq_disabled = False, k_errno_addr = NULL, k_umem = (\<lambda>_. 0),
     k_refcount = (\<lambda>_. 0)(0x50000 := 1), k_log = [], k_mm = sim_parent\<rparr>"

lemma fork_env_ok: "kenv_ok fork_env" "threads_quiet fork_env"
  by (simp_all add: kenv_ok_def fork_env_def sim_malloc_fresh same_core_def core_view_def same_procs_def skel_def
      same_life_def life_view_def threads_quiet_def same_memory_def)

lemma sim_forkable: "forkable sim_arm 0x10000 sim_owned sim_used sim_parent"
proof -
  have idx: "user_end sim_arm = 3072" by (simp add: sim_arm_def i1_def)
  have heap: "m_heap sim_parent = (0, 0, [])" by (simp add: sim_parent_def sim_tables_def store_def)
  have "room sim_arm (Suc (Suc (Suc 0))) (1, 0, [])"
    by (simp add: sim_arm_def sim_memalign_def sim_get_free_page_def)
  then have room: "room sim_arm (Suc 2) (1, 0, [])" by (simp only: numeral_2_eq_2)
  have al: "me_memalign sim_arm 0x4000 (me_SZ_16K sim_arm) (0, 0, []) = (0x20000, (1, 0, []))"
    by (simp add: sim_arm_def sim_memalign_def)
  have ok: "user_space_ok sim_arm 0x10000 sim_owned sim_used sim_parent"
    using sim_copyable unfolding copyable_def by blast
  have "(0x20000 :: addr) \<noteq> NULL" by simp
  then show ?thesis unfolding forkable_def idx heap al prod.case sim_needed using room ok by blast
qed

theorem fork_copies_memory_witness:
  "\<exists>r t c np. do_fork (with_mmu sim_arm fork_env) fork_start = Some (r, t) \<and> pcb_at t c = Some np \<and>
    user_byte sim_arm (p_pgtable np) (k_mm t) 0x8004 = Some 0x41"
proof -
  have pgt: "p_pgtable fork_parent = 0x10000" "k_mm fork_start = sim_parent"
    by (simp_all add: fork_parent_def sim_pcb_def fork_start_def)
  have cur: "current_pcb fork_start = Some 1" "pcb_at fork_start 1 = Some fork_parent"
    "k_current fork_start = p_main_thread fork_parent"
    by (simp_all add: fork_start_def fork_parent_def sim_pcb_def sim_tcb_def current_pcb_def pcb_at_def)
  have pcb: "ke_malloc_pcb fork_env (fork_start\<lparr>k_irq_disabled := True\<rparr>) \<noteq> NULL"
    by (simp add: fork_env_def fork_start_def sim_malloc_def)
  have fds: "\<not> fst (ke_vfs_clone_fd fork_env (p_fd_array fork_parent) (replicate FD_MAX 0))"
    by (simp add: fork_env_def)
  have name: "length (child_name fork_parent (k_pid_current fork_start)) < PROC_NAME_LEN"
    by code_simp
  have user: "i1 0x8004 < user_end sim_arm" by (simp add: sim_user)
  obtain r t c np where f: "do_fork (with_mmu sim_arm fork_env) fork_start = Some (r, t)" "pcb_at t c = Some np"
    and "\<forall>v. i1 v < user_end sim_arm \<longrightarrow> user_byte sim_arm (p_pgtable np) (k_mm t) v = user_byte sim_arm 0x10000 sim_parent v"
    using fork_copies_memory[OF sim_arm_format sim_heap_laws fork_env_ok sim_forkable[folded pgt] cur pcb fds name]
    unfolding pgt by blast
  then have "user_byte sim_arm (p_pgtable np) (k_mm t) 0x8004 = Some 0x41" using user sim_parent_byte by metis
  then show ?thesis using f by blast
qed

end
