(* ===== verification/ImageMemory.thy ===== *)
theory ImageMemory
  imports ForkMemory ExecProps
begin

unbundle bit_operations_syntax

text \<open>
  The memory of a program that \<open>execve\<close> starts (\<open>so3/kernel/process.c\<close> on \<open>so3/arch/arm32/mmu.c\<close>): the pages that
  \<open>allocate_page\<close> maps, the address space that \<open>setup_proc_image_replace\<close> builds out of them, and the sections that
  \<open>load_process\<close> copies through the page tables.
\<close>

section \<open>Allocating pages\<close>

text \<open>
  An address space between two calls: tables in blocks of the heap, no sections below the kernel,
  every frame in use; and no frame under two pages.
\<close>

definition space_ok :: "'h mmu_env \<Rightarrow> addr \<Rightarrow> ('h \<Rightarrow> addr set) \<Rightarrow> ('h \<Rightarrow> addr set) \<Rightarrow> 'h mmu \<Rightarrow> bool" where
  "space_ok M root owned used m \<longleftrightarrow>
     root \<noteq> NULL \<and> tables_ok M root m \<and> table_words M root m \<subseteq> owned (m_heap m) \<and>
     (\<forall>i < user_end M. m_mem m (ent root i) \<noteq> 0 \<longrightarrow> has_l2 M root m i) \<and>
     (\<forall>v p. i1 v < user_end M \<longrightarrow> translate M root m v = Some p \<longrightarrow> frame_of p \<in> used (m_heap m))"

definition pages_apart :: "'h mmu_env \<Rightarrow> addr \<Rightarrow> 'h mmu \<Rightarrow> bool" where
  "pages_apart M root m \<longleftrightarrow> (\<forall>v w p q. i1 v < user_end M \<longrightarrow> i1 w < user_end M \<longrightarrow>
     translate M root m v = Some p \<longrightarrow> translate M root m w = Some q \<longrightarrow> frame_of p = frame_of q \<longrightarrow> frame_of v = frame_of w)"

text \<open>Space for the next \<open>n\<close> requests, of whatever kind.\<close>

primrec stock :: "'h mmu_env \<Rightarrow> nat \<Rightarrow> 'h \<Rightarrow> bool" where
  "stock M 0 h = True"
| "stock M (Suc n) h =
     ((case me_memalign M 0x400 (me_SZ_1K M) h of (t, h') \<Rightarrow> t \<noteq> NULL \<and> stock M n h') \<and>
      (case me_get_free_page M h of (p, h') \<Rightarrow> p \<noteq> 0 \<and> stock M n h') \<and>
      (case me_malloc_node M h of None \<Rightarrow> False | Some h' \<Rightarrow> stock M n h'))"

lemma stock_step:
  "stock M (Suc n) h \<longleftrightarrow>
     (\<forall>t h'. me_memalign M 0x400 (me_SZ_1K M) h = (t, h') \<longrightarrow> t \<noteq> NULL \<and> stock M n h') \<and>
     (\<forall>p h'. me_get_free_page M h = (p, h') \<longrightarrow> p \<noteq> 0 \<and> stock M n h') \<and>
     (\<exists>h'. me_malloc_node M h = Some h' \<and> stock M n h')"
  by (simp split: prod.splits option.splits)

lemma stock_less: "stock M (Suc n) h \<Longrightarrow> stock M n h"
proof (induction n arbitrary: h)
  case (Suc n)
  note st = Suc.prems[unfolded stock_step[of M "Suc n" h]]
  show ?case unfolding stock_step[of M n h]
  proof (intro conjI allI impI)
    show "t \<noteq> NULL" "stock M n h'" if "me_memalign M 0x400 (me_SZ_1K M) h = (t, h')" for t h'
      using st that Suc.IH by blast+
    show "p \<noteq> 0" "stock M n h'" if "me_get_free_page M h = (p, h')" for p h' using st that Suc.IH by blast+
    show "\<exists>h'. me_malloc_node M h = Some h' \<and> stock M n h'" using st Suc.IH by blast
  qed
qed simp

lemma in_page:
  assumes "v AND mask 12 = (0 :: addr)"
  shows "unat v \<le> unat w \<and> unat w < unat v + 4096 * 1 \<longleftrightarrow> frame_of w = v"
proof -
  have v: "unat v mod 4096 = 0" using aligned_unat[of v] assms by simp
  have lt: "unat v < 4294967296" using unsigned_less[of v] by simp
  have at: "unat (v + of_nat k) = unat v + k" if "k < 4096" for k
  proof -
    obtain q where q: "unat v = 4096 * q" using v by (metis mod_0_imp_dvd dvdE)
    then have "q \<le> 1048575" using lt by linarith
    then have "unat v + k < 4294967296" using q that by linarith
    from unat_of_nat_u32[OF this] show ?thesis by simp
  qed
  show ?thesis
  proof
    assume h: "unat v \<le> unat w \<and> unat w < unat v + 4096 * 1"
    define k where "k = unat w - unat v"
    have k: "k < 4096" "unat w = unat v + k" unfolding k_def using h by linarith+
    then have "unat w = unat (v + of_nat k)" using at by simp
    then have "w = v + of_nat k" by (simp only: word_unat_eq_iff)
    then show "frame_of w = v" using frame_add(1)[OF assms k(1)] by simp
  next
    assume "frame_of w = v"
    then have "w = v + of_nat (unat (w AND mask 12))" using frame_split[of w] by simp
    then show "unat v \<le> unat w \<and> unat w < unat v + 4096 * 1"
      using at[OF offset_small, of w] offset_small[of w] by simp
  qed
qed

text \<open>One page: a frame, its mapping, and a node for the list of pages.\<close>

lemma map_page:
  assumes fmt: "arm_format M" and laws: "heap_laws M owned used" and ok: "space_ok M root owned used m"
    and v: "v AND mask 12 = 0" "i1 v < user_end M"
    and pg: "me_get_free_page M (m_heap m) = (pg, h)" and room: "stock M (Suc (Suc (Suc n))) (m_heap m)"
  shows "\<exists>m1 h2. create_mapping M root v pg 0x1000 nc (m\<lparr>m_heap := h\<rparr>) = Some m1 \<and> me_malloc_node M (m_heap m1) = Some h2 \<and>
    stock M n h2 \<and> space_ok M root owned used (m1\<lparr>m_heap := h2\<rparr>) \<and>
    translate M root m1 = (\<lambda>w. if frame_of w = v then Some (pg + (w AND mask 12)) else translate M root m w) \<and>
    m_phys m1 = m_phys m \<and> m_current m1 = m_current m \<and> m_sys_root m1 = m_sys_root m \<and>
    pg AND mask 12 = 0 \<and> pg \<notin> used (m_heap m) \<and> insert pg (used (m_heap m)) \<subseteq> used h2"
proof -
  let ?s = "m\<lparr>m_heap := h\<rparr>"
  have root0: "root \<noteq> NULL" and tok: "tables_ok M root m" and tw: "table_words M root m \<subseteq> owned (m_heap m)"
    and nosec: "\<And>i. i < user_end M \<Longrightarrow> m_mem m (ent root i) \<noteq> 0 \<Longrightarrow> has_l2 M root m i"
    and inuse: "\<And>v p. i1 v < user_end M \<Longrightarrow> translate M root m v = Some p \<Longrightarrow> frame_of p \<in> used (m_heap m)"
    using ok unfolding space_ok_def by blast+
  have pg0: "pg \<noteq> 0" and room1: "stock M (Suc (Suc n)) h"
    using room[unfolded stock_step[of M "Suc (Suc n)" "m_heap m"]] pg by blast+
  note fr = fresh_frame[OF laws pg pg0]
  obtain t h1 where al: "me_memalign M 0x400 (me_SZ_1K M) h = (t, h1)" by fastforce
  have t: "t \<noteq> NULL" "stock M (Suc n) h1" using room1[unfolded stock_step[of M "Suc n" h]] al by blast+
  note fb = fresh_block[OF laws al t(1)]
  have tws: "table_words M root ?s = table_words M root m" "has_l2 M root ?s = has_l2 M root m" "tables_ok M root ?s = tables_ok M root m"
      "translate M root ?s = translate M root m"
    by (rule table_words_cong[of M root m ?s], simp)+
  have fresh: "fresh_table M root ?s t"
    by (rule fresh_block_table[of M root ?s "owned h"]) (use tws tw fr(5) fb(1) in auto)
  have rt: "root = the_table root ?s" using root0 by (simp add: the_table_def)
  have can: "mappable M root v 1 ?s"
    using v(1) nosec[OF v(2)] fresh t(1) al i2_less[of v] unfolding mappable_def page_range_def Let_def
    by (auto simp: has_l2_def Suc_le_eq)
  have tok_s: "tables_ok M root ?s" using tok tws(3) by simp
  have alx: "me_memalign M 0x400 (me_SZ_1K M) (m_heap ?s) = (t, h1)" and one: "(of_nat 1 * 0x1000 :: u32) = 0x1000"
    using al by simp_all
  have flds: "m_sys_root ?s = m_sys_root m" "m_current ?s = m_current m" "m_phys ?s = m_phys m" "m_mem ?s = m_mem m" "m_heap ?s = h"
    by simp_all
  from mapping_effect[OF fmt rt tok_s can fr(1), of nc, unfolded Let_def alx one fst_conv snd_conv, unfolded flds] obtain m1 where
    run: "create_mapping M root v pg 0x1000 nc ?s = Some m1"
    and tr: "\<And>w. translate M root m1 w = (if unat v \<le> unat w \<and> unat w < unat v + 4096 * 1 then Some (pg + (w - v)) else translate M root ?s w)"
    and ok1: "tables_ok M root m1" and l2: "has_l2 M root m1 (i1 v)"
    and same: "m_sys_root m1 = m_sys_root m" "m_current m1 = m_current m" "m_phys m1 = m_phys m"
    and heap: "m_heap m1 = (if m_mem m (ent root (i1 v)) = 0 then h1 else h)"
      "l2_of M root m1 (i1 v) = (if m_mem m (ent root (i1 v)) = 0 then t else l2_of M root ?s (i1 v))"
    and other: "\<And>b. b \<noteq> ent root (i1 v) \<Longrightarrow> \<forall>j < 256. b \<noteq> ent (l2_of M root m1 (i1 v)) j \<Longrightarrow> m_mem m1 b = m_mem m b"
    by blast
  have heap1: "owned (m_heap m) \<subseteq> owned (m_heap m1)" "insert pg (used (m_heap m)) \<subseteq> used (m_heap m1)" "stock M (Suc n) (m_heap m1)"
    using fr fb t(2) stock_less[OF room1] unfolding heap(1) by (auto split: if_splits)
  obtain h2 where h2: "me_malloc_node M (m_heap m1) = Some h2" "stock M n h2"
    using heap1(3)[unfolded stock_step[of M n "m_heap m1"]] by blast
  note nd = fresh_node[OF laws h2(1)]
  have entry: "m_mem m1 (ent root i) = m_mem m (ent root i)" if "i < 4096" "i \<noteq> i1 v" for i
  proof (rule other)
    show "ent root i \<noteq> ent root (i1 v)" using ent_inj[of i "i1 v" root] that less_trans[OF i1_less[of v], of "2 ^ 30"] by simp
    show "\<forall>j < 256. ent root i \<noteq> ent (l2_of M root m1 (i1 v)) j"
      using ok1 l2 that(1) unfolding tables_ok_def apart_def by blast
  qed
  have l2s: "has_l2 M root m1 i \<longleftrightarrow> has_l2 M root m i" "l2_of M root m1 i = l2_of M root m i" if "i \<noteq> i1 v" "i < 4096" for i
    using entry[OF that(2,1)] by (simp_all add: has_l2_def l2_of_def)
  have new: "words_at (l2_of M root m1 (i1 v)) 256 \<subseteq> owned (m_heap m1)"
  proof (cases "m_mem m (ent root (i1 v)) = 0")
    case True
    then show ?thesis using fb(3) by (simp add: heap)
  next
    case False
    then have "has_l2 M root m (i1 v)" using nosec v(2) by blast
    then have "words_at (l2_of M root m (i1 v)) 256 \<subseteq> table_words M root m" unfolding table_words_def by blast
    moreover have "l2_of M root m1 (i1 v) = l2_of M root m (i1 v)" using False heap(2) by (simp add: l2_of_def)
    ultimately show ?thesis using tw heap1(1) by auto
  qed
  have tw1: "table_words M root m1 \<subseteq> owned (m_heap m1)"
  proof
    fix a assume "a \<in> table_words M root m1"
    then consider "a \<in> words_at root 4096" | i where "has_l2 M root m1 i" "a \<in> words_at (l2_of M root m1 i) 256"
      unfolding table_words_def by blast
    then show "a \<in> owned (m_heap m1)"
    proof cases
      case 1
      then show ?thesis using tw heap1(1) unfolding table_words_def by blast
    next
      case 2
      show ?thesis
      proof (cases "i = i1 v")
        case True
        then show ?thesis using 2(2) new by blast
      next
        case False
        have "i < 4096" using 2(1) by (simp add: has_l2_def)
        then have "has_l2 M root m i" "a \<in> words_at (l2_of M root m i) 256" using 2 l2s[OF False] by simp_all
        then show ?thesis using tw heap1(1) unfolding table_words_def by blast
      qed
    qed
  qed
  have tr1: "translate M root m1 w = (if frame_of w = v then Some (pg + (w AND mask 12)) else translate M root m w)" for w
  proof -
    have "frame_of w = v \<Longrightarrow> w - v = w AND mask 12" using frame_split[of w] by (metis add_diff_cancel_left')
    then show ?thesis unfolding tr in_page[OF v(1)] tws(4) by simp
  qed
  let ?m2 = "m1\<lparr>m_heap := h2\<rparr>"
  have c2: "has_l2 M root ?m2 = has_l2 M root m1" "table_words M root ?m2 = table_words M root m1" "tables_ok M root ?m2 = tables_ok M root m1"
      "translate M root ?m2 = translate M root m1"
    by (rule table_words_cong[of M root m1 ?m2], simp)+
  have "space_ok M root owned used ?m2"
    unfolding space_ok_def c2
  proof (intro conjI allI impI)
    show "table_words M root m1 \<subseteq> owned (m_heap ?m2)" using tw1 nd(1) by auto
    show "has_l2 M root m1 i" if "i < user_end M" "m_mem ?m2 (ent root i) \<noteq> 0" for i
    proof (cases "i = i1 v")
      case False
      then show ?thesis using that entry l2s(1) nosec user_index[OF that(1)] by simp
    qed (simp add: l2)
    show "frame_of p \<in> used (m_heap ?m2)" if "i1 w < user_end M" "translate M root m1 w = Some p" for w p
    proof (cases "frame_of w = v")
      case True
      then have "p = pg + (w AND mask 12)" using that(2) tr1 by simp
      then have "frame_of p = pg" using frame_add(1)[OF fr(1) offset_small, of w] by simp
      then show ?thesis using heap1(2) nd(2) by auto
    next
      case False
      then show ?thesis using inuse[OF that(1)] that(2) tr1 heap1(2) nd(2) by auto
    qed
  qed (use root0 ok1 in auto)
  moreover have "translate M root m1 = (\<lambda>w. if frame_of w = v then Some (pg + (w AND mask 12)) else translate M root m w)"
    using tr1 by (rule ext)
  ultimately show ?thesis using run h2 same fr(1,2) heap1(2) nd(2)
    by (intro exI[of _ m1] exI[of _ h2]) auto
qed

text \<open>A fresh frame under one page keeps the pages apart.\<close>

lemma pages_apart_step:
  assumes ap: "pages_apart M root m" and inuse: "\<And>v p. i1 v < user_end M \<Longrightarrow> translate M root m v = Some p \<Longrightarrow> frame_of p \<in> U"
    and pg: "pg AND mask 12 = 0" "pg \<notin> U"
    and tr: "translate M root m' = (\<lambda>w. if frame_of w = v then Some (pg + (w AND mask 12)) else translate M root m w)"
  shows "pages_apart M root m'"
  unfolding pages_apart_def
proof (intro allI impI)
  fix x y p q assume u: "i1 x < user_end M" "i1 y < user_end M" "translate M root m' x = Some p" "translate M root m' y = Some q"
    and eq: "frame_of p = frame_of q"
  have own: "frame_of (pg + (w AND mask 12)) = pg" for w using frame_add(1)[OF pg(1) offset_small, of w] by simp
  have out: "frame_of p' \<noteq> pg" if "i1 z < user_end M" "translate M root m z = Some p'" for z p'
    using inuse[OF that] pg(2) by auto
  have new: "frame_of z = v \<Longrightarrow> frame_of p' = pg" and old: "frame_of z \<noteq> v \<Longrightarrow> translate M root m z = Some p'"
    if "translate M root m' z = Some p'" for z p' using that own unfolding tr by auto
  show "frame_of x = frame_of y"
  proof (cases "frame_of x = v \<or> frame_of y = v")
    case True
    then show ?thesis using new[OF u(3)] new[OF u(4)] old[OF u(3)] old[OF u(4)] out[OF u(1)] out[OF u(2)] eq by metis
  next
    case False
    then have "translate M root m x = Some p" "translate M root m y = Some q" using old[OF u(3)] old[OF u(4)] by blast+
    then show ?thesis using ap u(1,2) eq unfolding pages_apart_def by blast
  qed
qed

definition same_kernel :: "'m kstate \<Rightarrow> 'm kstate \<Rightarrow> bool" where
  "same_kernel s t \<longleftrightarrow> k_tcbs t = k_tcbs s \<and> k_current t = k_current s \<and> k_umem t = k_umem s \<and>
     k_irq_disabled t = k_irq_disabled s \<and> k_errno_addr t = k_errno_addr s \<and> k_log t = k_log s \<and>
     k_pid_current t = k_pid_current s \<and> k_root_process t = k_root_process s"

lemma same_kernel_trans: "same_kernel s t \<Longrightarrow> same_kernel t u \<Longrightarrow> same_kernel s u"
  by (simp add: same_kernel_def)

lemma add_page_effect:
  assumes "pcb_at s a = Some p" and "ke_malloc_node E (k_mm s) = Some mm"
  shows "\<exists>t. add_page_to_proc E a pg s = Some t \<and> k_mm t = mm \<and> same_kernel s t \<and>
    pcb_effect a (\<lambda>p. p\<lparr>p_page_list := p_page_list p @ [pg]\<rparr>) s t \<and>
    k_refcount t = (k_refcount s)(pg := k_refcount s pg + 1)"
proof -
  let ?s = "s\<lparr>k_mm := mm, k_refcount := (k_refcount s)(pg := k_refcount s pg + 1)\<rparr>"
  have p: "pcb_at ?s a = Some p" using assms(1) by simp
  obtain t where t: "upd_pcb a (\<lambda>p. p\<lparr>p_page_list := p_page_list p @ [pg]\<rparr>) ?s = Some t"
    using p by (simp add: upd_pcb_def split: option.splits)
  have "add_page_to_proc E a pg s = Some t" using t assms(2) by (simp add: add_page_to_proc_def link_page_def)
  moreover have "pcb_effect a (\<lambda>p. p\<lparr>p_page_list := p_page_list p @ [pg]\<rparr>) s t"
    using pcb_effect_upd[OF t] by (simp add: pcb_effect_def)
  ultimately show ?thesis using t by (auto simp: upd_pcb_Some same_kernel_def)
qed

lemma next_page:
  assumes "unat b + 4096 < 4294967296"
  shows "unat (b + 0x1000 :: addr) = unat b + 4096" "b AND mask 12 = 0 \<Longrightarrow> (b + 0x1000) AND mask 12 = 0"
proof -
  show u: "unat (b + 0x1000) = unat b + 4096" using unat_of_nat_u32[OF assms] by simp
  show "b AND mask 12 = 0 \<Longrightarrow> (b + 0x1000) AND mask 12 = 0" unfolding aligned_unat u by simp
qed

text \<open>The address map of a run of pages from \<open>b\<close> in the frames \<open>fs\<close>.\<close>

definition pages_at :: "addr \<Rightarrow> frame list \<Rightarrow> addr \<Rightarrow> addr option" where
  "pages_at b fs w = (if unat b \<le> unat w \<and> unat w < unat b + 4096 * length fs
     then Some (fs ! ((unat w - unat b) div 4096) + (w AND mask 12)) else None)"

lemma pages_at_Nil [simp]: "pages_at b [] = (\<lambda>w. None)"
  by (simp add: pages_at_def fun_eq_iff)

lemma pages_at_Cons:
  assumes b: "b AND mask 12 = 0" "unat b + 4096 * Suc (length fs) < 2 ^ 32"
  shows "(\<lambda>w. if frame_of w = b then Some (pg + (w AND mask 12)) else f w) ++ pages_at (b + 0x1000) fs = f ++ pages_at b (pg # fs)"
proof
  fix w
  have nx: "unat (b + 0x1000) = unat b + 4096" by (rule next_page(1)) (use b(2) in simp)
  show "((\<lambda>w. if frame_of w = b then Some (pg + (w AND mask 12)) else f w) ++ pages_at (b + 0x1000) fs) w = (f ++ pages_at b (pg # fs)) w"
  proof (cases "unat b \<le> unat w \<and> unat w < unat b + 4096 * Suc (length fs)")
    case True
    show ?thesis
    proof (cases "unat w < unat b + 4096")
      case first: True
      then have "frame_of w = b" using True in_page[OF b(1), of w] by simp
      moreover have "(unat w - unat b) div 4096 = 0" using first True by (intro div_less) linarith
      ultimately show ?thesis using first True nx by (simp add: map_add_def pages_at_def)
    next
      case later: False
      then have "(unat w - unat b) div 4096 = Suc ((unat w - (unat b + 4096)) div 4096)"
        using div_add_self2[of 4096 "unat w - (unat b + 4096)"] by (simp add: le_div_geq)
      then show ?thesis using later True nx by (simp add: map_add_def pages_at_def)
    qed
  next
    case False
    then have "frame_of w \<noteq> b" using in_page[OF b(1), of w] by auto
    then show ?thesis using False nx by (auto simp: map_add_def pages_at_def)
  qed
qed

text \<open>What the allocation of the pages \<open>fs\<close> from \<open>b\<close> does to the kernel.\<close>

definition allocated :: "'h mmu_env \<Rightarrow> ('h \<Rightarrow> addr set) \<Rightarrow> ('h \<Rightarrow> addr set) \<Rightarrow> addr \<Rightarrow> addr \<Rightarrow> addr \<Rightarrow> frame list \<Rightarrow>
    'h mmu kstate \<Rightarrow> 'h mmu kstate \<Rightarrow> bool" where
  "allocated M owned used root a b fs s t \<longleftrightarrow>
     same_kernel s t \<and> pcb_effect a (\<lambda>p. p\<lparr>p_page_list := p_page_list p @ fs\<rparr>) s t \<and>
     translate M root (k_mm t) = translate M root (k_mm s) ++ pages_at b fs \<and>
     space_ok M root owned used (k_mm t) \<and> pages_apart M root (k_mm t) \<and>
     m_phys (k_mm t) = m_phys (k_mm s) \<and> m_current (k_mm t) = m_current (k_mm s) \<and>
     m_sys_root (k_mm t) = m_sys_root (k_mm s) \<and>
     distinct fs \<and> set fs \<inter> used (m_heap (k_mm s)) = {} \<and> set fs \<union> used (m_heap (k_mm s)) \<subseteq> used (m_heap (k_mm t))"

lemma with_mmu_alloc:
  "ke_get_free_page (with_mmu M E) m = (case me_get_free_page M (m_heap m) of (p, h) \<Rightarrow> (p, m\<lparr>m_heap := h\<rparr>))"
  "ke_malloc_node (with_mmu M E) m = map_option (\<lambda>h. m\<lparr>m_heap := h\<rparr>) (me_malloc_node M (m_heap m))"
  "ke_create_mapping (with_mmu M E) = create_mapping M" "ke_PAGE_SIZE (with_mmu M E) = ke_PAGE_SIZE E"
  by (simp_all add: with_mmu_def)

lemma allocate_loop:
  assumes fmt: "arm_format M" and laws: "heap_laws M owned used" and size: "ke_PAGE_SIZE E = 0x1000"
  shows "pcb_at s a = Some p \<Longrightarrow> p_pgtable p = root \<Longrightarrow> space_ok M root owned used (k_mm s) \<Longrightarrow> pages_apart M root (k_mm s) \<Longrightarrow>
    virt + of_nat i * 0x1000 = b \<Longrightarrow> b AND mask 12 = 0 \<Longrightarrow> unat b + 4096 * n \<le> 2 ^ 20 * user_end M \<Longrightarrow>
    stock M (3 * n + k) (m_heap (k_mm s)) \<Longrightarrow>
    \<exists>t fs. allocate_page_loop (with_mmu M E) a virt i n s = Some t \<and> length fs = n \<and> stock M k (m_heap (k_mm t)) \<and>
      allocated M owned used root a b fs s t"
proof (induction n arbitrary: s p i b)
  case 0
  then show ?case by (auto simp: allocated_def same_kernel_def pcb_effect_def option.map_ident)
next
  case (Suc n)
  let ?E = "with_mmu M E" and ?m = "k_mm s"
  obtain pg h where pg: "me_get_free_page M (m_heap ?m) = (pg, h)" by fastforce
  have st: "stock M (Suc (Suc (Suc (3 * n + k)))) (m_heap ?m)"
  proof -
    have "3 * Suc n + k = Suc (Suc (Suc (3 * n + k)))" by simp
    then show ?thesis using Suc.prems(8) by (simp only:)
  qed
  have ue: "user_end M \<le> 4095" using i1_less[of "me_KERNEL_VADDR M"] by linarith
  have "2 ^ 20 * user_end M \<le> 2 ^ 20 * 4095" using ue by (rule mult_le_mono2)
  then have lim: "unat b + 4096 * Suc n < 2 ^ 32" using Suc.prems(7) by simp
  have iv: "i1 b < user_end M"
  proof -
    have "unat b < unat b + 4096 * Suc n" by simp
    also have "\<dots> \<le> 2 ^ 20 * user_end M" by (rule Suc.prems(7))
    finally have "unat b < 2 ^ 20 * user_end M" .
    then show ?thesis by (simp add: i1_def less_mult_imp_div_less mult.commute)
  qed
  obtain m1 h2 where run: "create_mapping M root b pg 0x1000 False (?m\<lparr>m_heap := h\<rparr>) = Some m1"
    and node: "me_malloc_node M (m_heap m1) = Some h2" and st2: "stock M (3 * n + k) h2"
    and ok2: "space_ok M root owned used (m1\<lparr>m_heap := h2\<rparr>)"
    and tr: "translate M root m1 = (\<lambda>w. if frame_of w = b then Some (pg + (w AND mask 12)) else translate M root ?m w)"
    and same: "m_phys m1 = m_phys ?m" "m_current m1 = m_current ?m" "m_sys_root m1 = m_sys_root ?m"
    and fr: "pg AND mask 12 = 0" "pg \<notin> used (m_heap ?m)" "insert pg (used (m_heap ?m)) \<subseteq> used h2"
    using map_page[OF fmt laws Suc.prems(3,6) iv pg st, of False] by blast
  have pg0: "pg \<noteq> 0" using st[unfolded stock_step[of M "Suc (Suc (3 * n + k))" "m_heap ?m"]] pg by blast
  let ?s1 = "s\<lparr>k_mm := m1\<rparr>" and ?m2 = "m1\<lparr>m_heap := h2\<rparr>"
  have "ke_malloc_node ?E (k_mm ?s1) = Some ?m2" using node by (simp add: with_mmu_alloc)
  from add_page_effect[OF _ this, of a p pg] obtain s2 where add: "add_page_to_proc ?E a pg ?s1 = Some s2"
    and mm2: "k_mm s2 = ?m2" and sk: "same_kernel ?s1 s2"
    and eff: "pcb_effect a (\<lambda>p. p\<lparr>p_page_list := p_page_list p @ [pg]\<rparr>) ?s1 s2" using Suc.prems(1) by auto
  have sk2: "same_kernel s s2" using sk by (simp add: same_kernel_def)
  have eff2: "pcb_effect a (\<lambda>p. p\<lparr>p_page_list := p_page_list p @ [pg]\<rparr>) s s2" using eff by (simp add: pcb_effect_def)
  have p2: "pcb_at s2 a = Some (p\<lparr>p_page_list := p_page_list p @ [pg]\<rparr>)" using eff2 Suc.prems(1) by (simp add: pcb_effect_def)
  have tr2: "translate M root ?m2 = translate M root m1" by (rule table_words_cong(5)) simp
  have ap2: "pages_apart M root ?m2"
  proof (rule pages_apart_step[OF Suc.prems(4) _ fr(1,2)])
    show "i1 v < user_end M \<Longrightarrow> translate M root ?m v = Some p' \<Longrightarrow> frame_of p' \<in> used (m_heap ?m)" for v p'
      using Suc.prems(3) unfolding space_ok_def by blast
  qed (use tr tr2 in simp)
  have "unat b + 4096 < 4294967296" using lim by simp
  note nx = next_page(1)[OF this] and al = next_page(2)[OF this]
  have "\<exists>t fs. allocate_page_loop ?E a virt (Suc i) n s2 = Some t \<and> length fs = n \<and> stock M k (m_heap (k_mm t)) \<and>
      allocated M owned used root a (b + 0x1000) fs s2 t"
  proof (rule Suc.IH[OF p2])
    show "virt + of_nat (Suc i) * 0x1000 = b + 0x1000" using Suc.prems(5) by (simp add: algebra_simps)
    show "(b + 0x1000) AND mask 12 = 0" by (rule al[OF Suc.prems(6)])
    show "unat (b + 0x1000) + 4096 * n \<le> 2 ^ 20 * user_end M" using Suc.prems(7) nx by simp
  qed (use Suc.prems(2) mm2 ok2 ap2 st2 in simp_all)
  then obtain t fs where t: "allocate_page_loop ?E a virt (Suc i) n s2 = Some t" "length fs = n" "stock M k (m_heap (k_mm t))"
    and al: "allocated M owned used root a (b + 0x1000) fs s2 t" by blast
  note al' = al[unfolded allocated_def mm2]
  have "allocate_page_loop ?E a virt i (Suc n) s = Some t"
    using pg pg0 Suc.prems(1,2) run add t(1) Suc.prems(5) by (simp add: with_mmu_alloc size)
  moreover have "allocated M owned used root a b (pg # fs) s t"
    unfolding allocated_def
  proof (intro conjI)
    show "same_kernel s t" using sk2 al' same_kernel_trans by blast
    show "pcb_effect a (\<lambda>p. p\<lparr>p_page_list := p_page_list p @ pg # fs\<rparr>) s t"
      using pcb_effect_trans[OF eff2] al' by fastforce
    have "translate M root (k_mm t) = translate M root m1 ++ pages_at (b + 0x1000) fs" using al' tr2 by simp
    also have "\<dots> = translate M root ?m ++ pages_at b (pg # fs)"
      unfolding tr by (rule pages_at_Cons[OF Suc.prems(6)]) (use lim t(2) in simp)
    finally show "translate M root (k_mm t) = translate M root ?m ++ pages_at b (pg # fs)" .
  qed (use al' same fr in auto)
  ultimately show ?case using t by (intro exI[of _ t] exI[of _ "pg # fs"]) simp
qed

section \<open>Giving the old image back\<close>

text \<open>
  What the functions that free promise: a freed block is no longer owned, and nothing else is lost;
  freeing a frame or a node leaves tables and bytes alone; and none of them makes a request fail. \<open>block h t\<close> are
  the words of the block at \<open>t\<close>.
\<close>

definition quiet :: "'h mmu_env \<Rightarrow> ('h \<Rightarrow> addr set) \<Rightarrow> 'h mmu \<Rightarrow> 'h mmu \<Rightarrow> bool" where
  "quiet M owned m m' \<longleftrightarrow> m_mem m' = m_mem m \<and> m_phys m' = m_phys m \<and> m_current m' = m_current m \<and>
     m_sys_root m' = m_sys_root m \<and> owned (m_heap m) \<subseteq> owned (m_heap m') \<and>
     (\<forall>n. stock M n (m_heap m) \<longrightarrow> stock M n (m_heap m'))"

definition free_laws :: "'h mmu_env \<Rightarrow> 'h mmu kenv \<Rightarrow> ('h \<Rightarrow> addr set) \<Rightarrow> ('h \<Rightarrow> addr \<Rightarrow> addr set) \<Rightarrow> bool" where
  "free_laws M E owned block \<longleftrightarrow>
     (\<forall>h t. owned h - block h t \<subseteq> owned (me_free M t h) \<and> (\<forall>u. block (me_free M t h) u \<subseteq> block h u) \<and>
        (\<forall>n. stock M n h \<longrightarrow> stock M n (me_free M t h))) \<and>
     (\<forall>pg m. quiet M owned m (ke_free_page E pg m)) \<and> (\<forall>m. quiet M owned m (ke_free_node E m))"

lemma free_tables:
  assumes "free_laws M E owned block"
  shows "owned h - (\<Union>t \<in> set ts. block h t) \<subseteq> owned (fold (me_free M) ts h) \<and>
    (stock M n h \<longrightarrow> stock M n (fold (me_free M) ts h))"
proof (induction ts arbitrary: h)
  case (Cons t ts)
  have f: "owned h - block h t \<subseteq> owned (me_free M t h)" "\<And>u. block (me_free M t h) u \<subseteq> block h u"
    "stock M n h \<longrightarrow> stock M n (me_free M t h)" using assms unfolding free_laws_def by blast+
  have "x \<in> owned (me_free M t h) - (\<Union>u \<in> set ts. block (me_free M t h) u)"
    if "x \<in> owned h" "\<forall>u \<in> set (t # ts). x \<notin> block h u" for x
    using that f(1,2) by auto
  then have "owned h - (\<Union>u \<in> set (t # ts). block h u) \<subseteq> owned (fold (me_free M) ts (me_free M t h))"
    using Cons.IH[of "me_free M t h"] by blast
  then show ?case using Cons.IH[of "me_free M t h"] f(3) by simp
qed simp

lemma reset_entries_frame:
  "m_phys (fold (reset_entry M root) js m) = m_phys m \<and> m_current (fold (reset_entry M root) js m) = m_current m \<and>
   m_sys_root (fold (reset_entry M root) js m) = m_sys_root m"
  by (induction js arbitrary: m) (simp_all add: reset_entry_def Let_def store_def op_def)

text \<open>The user space after \<open>reset_root_pgtable\<close>: empty, with the kernel area as it was.\<close>

lemma reset_effect:
  assumes fmt: "arm_format M" and laws: "free_laws M E owned block" and ok: "space_ok M root owned used m"
    and blocks: "\<forall>i < user_end M. has_l2 M root m i \<longrightarrow> block (m_heap m) (l2_of M root m i) \<subseteq> words_at (l2_of M root m i) 256"
  defines "m' \<equiv> reset_root_pgtable M root False m"
  shows "space_ok M root owned used m'" "\<And>v. i1 v < user_end M \<Longrightarrow> translate M root m' v = None"
    "\<And>v. user_end M \<le> i1 v \<Longrightarrow> translate M root m' v = translate M root m v"
    "m_phys m' = m_phys m" "m_current m' = m_current m" "m_sys_root m' = m_sys_root m"
    "stock M n (m_heap m) \<Longrightarrow> stock M n (m_heap m')"
proof -
  let ?k = "user_end M" and ?f = "fold (reset_entry M root) [0..<user_end M] m"
  have k: "?k \<le> 4096" using i1_less[of "me_KERNEL_VADDR M"] by (rule less_imp_le)
  have m': "m' = op (TableFlush root (root + 4096)) ?f"
    by (simp add: m'_def reset_root_pgtable_def arm_offsets(1)[OF fmt] arm_sizes(6)[OF fmt])
  note re = reset_entries[OF k, of M root m]
  have mem: "m_mem m' a = (if \<exists>j < ?k. a = ent root j then 0 else m_mem m a)" for a using re by (simp add: m')
  have heap: "m_heap m' = fold (me_free M) (map (l2_of M root m) (filter (has_l2 M root m) [0..<?k])) (m_heap m)"
    using re by (simp add: m' op_def)
  show "m_phys m' = m_phys m" "m_current m' = m_current m" "m_sys_root m' = m_sys_root m"
    using reset_entries_frame[of M root "[0..<?k]" m] by (simp_all add: m' op_def)
  have root0: "root \<noteq> NULL" and tok: "tables_ok M root m" and tw: "table_words M root m \<subseteq> owned (m_heap m)"
    using ok unfolding space_ok_def by blast+
  have low: "m_mem m' (ent root j) = (if j < ?k then 0 else m_mem m (ent root j))" if "j < 4096" for j
  proof -
    have "ent root j = ent root i \<longleftrightarrow> j = i" if "i < ?k" for i
      using ent_inj[of j i root] \<open>j < 4096\<close> that k by simp
    then have "(\<exists>i < ?k. ent root j = ent root i) \<longleftrightarrow> j < ?k" by blast
    then show ?thesis unfolding mem by (rule arg_cong)
  qed
  have l2: "has_l2 M root m' i \<longleftrightarrow> ?k \<le> i \<and> has_l2 M root m i" for i
    by (cases "i < ?k") (use low[of i] in \<open>auto simp: has_l2_def\<close>)
  have l2o: "l2_of M root m' i = l2_of M root m i" if "has_l2 M root m' i" for i
    using that low[of i] by (auto simp: has_l2_def l2_of_def split: if_splits)
  have inner: "m_mem m' (ent (l2_of M root m i) j) = m_mem m (ent (l2_of M root m i) j)" if "has_l2 M root m i" "j < 256" for i j
  proof -
    have "\<not> (\<exists>i' < ?k. ent (l2_of M root m i) j = ent root i')"
    proof
      assume "\<exists>i' < ?k. ent (l2_of M root m i) j = ent root i'"
      then obtain i' where i': "i' < ?k" "ent (l2_of M root m i) j = ent root i'" by blast
      have "apart root 4096 (l2_of M root m i) 256" using tok that(1) unfolding tables_ok_def by blast
      from apartD[OF this _ that(2), of i'] i' k show False by simp
    qed
    then show ?thesis unfolding mem by (rule if_not_P)
  qed
  show low_none: "translate M root m' v = None" if "i1 v < ?k" for v
    using low[OF i1_less, of v] that by (simp add: translate_def Let_def)
  show "translate M root m' v = translate M root m v" if "?k \<le> i1 v" for v
  proof -
    have e: "m_mem m' (ent root (i1 v)) = m_mem m (ent root (i1 v))" using low[OF i1_less, of v] that by simp
    have "has_l2 M root m (i1 v) \<Longrightarrow> m_mem m' (ent (l2_of M root m (i1 v)) (i2 v)) = m_mem m (ent (l2_of M root m (i1 v)) (i2 v))"
      by (rule inner[OF _ i2_less])
    then show ?thesis using e by (auto simp: translate_def Let_def has_l2_def l2_of_def)
  qed
  let ?ts = "map (l2_of M root m) (filter (has_l2 M root m) [0..<?k])"
  have gone: "(\<Union>t \<in> set ?ts. block (m_heap m) t) \<subseteq> (\<Union>i \<in> {i. i < ?k \<and> has_l2 M root m i}. words_at (l2_of M root m i) 256)"
    using blocks by auto
  show "stock M n (m_heap m) \<Longrightarrow> stock M n (m_heap m')" unfolding heap using free_tables[OF laws, of "m_heap m" ?ts n] by blast
  have "table_words M root m' \<subseteq> owned (m_heap m')"
  proof
    fix a assume a: "a \<in> table_words M root m'"
    have "a \<in> table_words M root m \<and> a \<notin> (\<Union>i \<in> {i. i < ?k \<and> has_l2 M root m i}. words_at (l2_of M root m i) 256)"
      using a
    proof (cases "a \<in> words_at root 4096")
      case True
      then show ?thesis using tok unfolding table_words_def tables_ok_def apart_words by blast
    next
      case False
      then obtain i where i: "has_l2 M root m' i" "a \<in> words_at (l2_of M root m' i) 256" using a unfolding table_words_def by blast
      have i': "?k \<le> i" "has_l2 M root m i" "a \<in> words_at (l2_of M root m i) 256" using i l2[of i] l2o[OF i(1)] by auto
      have "words_at (l2_of M root m j) 256 \<inter> words_at (l2_of M root m i) 256 = {}" if "j < ?k" "has_l2 M root m j" for j
      proof -
        have "j \<noteq> i" using that(1) i'(1) by simp
        then show ?thesis using tok that(2) i'(2) unfolding tables_ok_def apart_words by blast
      qed
      then show ?thesis using i'(2,3) unfolding table_words_def by blast
    qed
    then have "a \<in> owned (m_heap m) - (\<Union>t \<in> set ?ts. block (m_heap m) t)" using tw gone by blast
    then show "a \<in> owned (m_heap m')" unfolding heap using free_tables[OF laws, of "m_heap m" ?ts 0] by blast
  qed
  moreover have "tables_ok M root m'"
    unfolding tables_ok_def
  proof (intro conjI allI impI)
    fix i assume i: "has_l2 M root m' i"
    show "apart root 4096 (l2_of M root m' i) 256"
      unfolding l2o[OF i] using tok l2[of i] i unfolding tables_ok_def by blast
    fix j assume j: "has_l2 M root m' j" "i \<noteq> j"
    show "apart (l2_of M root m' i) 256 (l2_of M root m' j) 256"
      unfolding l2o[OF i] l2o[OF j(1)] using tok l2[of i] l2[of j] i j unfolding tables_ok_def by blast
  qed
  moreover have "m_mem m' (ent root i) = 0" if "i < ?k" for i using low[OF user_index[OF that]] that by simp
  ultimately show "space_ok M root owned used m'" unfolding space_ok_def using root0 low_none by simp
qed

lemma quiet_refl: "quiet M owned m m"
  by (simp add: quiet_def)

lemma quiet_trans: "quiet M owned m m' \<Longrightarrow> quiet M owned m' m'' \<Longrightarrow> quiet M owned m m''"
  unfolding quiet_def by (metis subset_trans)

lemma quiet_empty:
  assumes ok: "space_ok M root owned used m" and q: "quiet M owned m m'"
    and none: "\<forall>v. i1 v < user_end M \<longrightarrow> translate M root m v = None"
  shows "space_ok M root owned used m'" "translate M root m' = translate M root m"
proof -
  have mem: "\<forall>a \<in> table_words M root m. m_mem m' a = m_mem m a" "m_mem m' = m_mem m" using q by (simp_all add: quiet_def)
  note c = table_words_cong[OF mem(1)]
  show "translate M root m' = translate M root m" by (rule c(5))
  have "table_words M root m \<subseteq> owned (m_heap m')" using ok q unfolding space_ok_def quiet_def by blast
  then show "space_ok M root owned used m'" using ok none unfolding space_ok_def c mem(2) by simp
qed

lemma release_quiet:
  assumes "free_laws M E owned block"
  shows "quiet M owned (k_mm s) (k_mm (fold (release_page (with_mmu M E)) fs s)) \<and>
    same_kernel s (fold (release_page (with_mmu M E)) fs s) \<and> pcb_at (fold (release_page (with_mmu M E)) fs s) = pcb_at s"
proof (induction fs arbitrary: s)
  case Nil
  then show ?case by (simp add: quiet_refl same_kernel_def)
next
  case (Cons f fs)
  let ?s = "release_page (with_mmu M E) f s"
  have q: "\<And>pg m. quiet M owned m (ke_free_page E pg m)" "\<And>m. quiet M owned m (ke_free_node E m)"
    using assms unfolding free_laws_def by blast+
  have e: "ke_free_page (with_mmu M E) = ke_free_page E" "ke_free_node (with_mmu M E) = ke_free_node E" by (simp_all add: with_mmu_def)
  have "quiet M owned (k_mm s) (k_mm ?s)"
    using q quiet_trans[OF q(1) q(2)] by (simp add: release_page_def Let_def e)
  moreover have "same_kernel s ?s" "pcb_at ?s = pcb_at s" by (simp_all add: release_page_def Let_def same_kernel_def)
  ultimately show ?case using Cons.IH[of ?s] quiet_trans same_kernel_trans by fastforce
qed

section \<open>The address space of a new image\<close>

text \<open>The four runs of pages that \<open>setup_proc_image_replace\<close> allocates: stack, segments, heap, arguments.\<close>

definition image_runs :: "'m kenv \<Rightarrow> elf_img_info \<Rightarrow> (addr \<times> nat) list" where
  "image_runs E img =
     [(ke_args_base E - stack_pages E * ke_PAGE_SIZE E, unat (stack_pages E)),
      (e_entry img, unat (segment_page_count img)),
      ((stack_pages E + segment_page_count img + 1) * ke_PAGE_SIZE E, unat (heap_pages E)),
      (ke_args_base E, 1)]"

definition run_ok :: "'h mmu_env \<Rightarrow> addr \<times> nat \<Rightarrow> bool" where
  "run_ok M r \<longleftrightarrow> fst r AND mask 12 = 0 \<and> unat (fst r) + 4096 * snd r \<le> 2 ^ 20 * user_end M"

lemma with_mmu_sizes:
  "stack_pages (with_mmu M E) = stack_pages E" "heap_pages (with_mmu M E) = heap_pages E"
  "image_runs (with_mmu M E) img = image_runs E img" "reset_process_stack (with_mmu M E) = reset_process_stack E"
  "image_pcb (with_mmu M E) = image_pcb E"
  by (simp_all add: stack_pages_def heap_pages_def image_runs_def reset_process_stack_def image_pcb_def with_mmu_def fun_eq_iff)

text \<open>One run.\<close>

lemma allocate_run:
  assumes fmt: "arm_format M" and laws: "heap_laws M owned used" and size: "ke_PAGE_SIZE E = 0x1000"
    and p: "pcb_at s a = Some p" "p_pgtable p = root" and ok: "space_ok M root owned used (k_mm s)" "pages_apart M root (k_mm s)"
    and r: "run_ok M (b, n)" and st: "stock M (3 * n + k) (m_heap (k_mm s))"
  shows "\<exists>t fs. allocate_page (with_mmu M E) a b n s = Some t \<and> length fs = n \<and> stock M k (m_heap (k_mm t)) \<and>
      allocated M owned used root a b fs s t \<and> pcb_at t a = Some (p\<lparr>p_page_list := p_page_list p @ fs\<rparr>)"
proof -
  obtain t fs where t: "allocate_page_loop (with_mmu M E) a b 0 n s = Some t" "length fs = n" "stock M k (m_heap (k_mm t))"
      "allocated M owned used root a b fs s t"
    using allocate_loop[OF fmt laws size p ok, of b 0 b n k] r st by (auto simp: run_ok_def)
  have "pcb_at t a = Some (p\<lparr>p_page_list := p_page_list p @ fs\<rparr>)"
    using t(4) p(1) by (simp add: allocated_def pcb_effect_def)
  then show ?thesis using t unfolding allocate_page_def by blast
qed

lemma upd_pcb_at:
  assumes "pcb_at s a = Some p"
  shows "\<exists>t. upd_pcb a f s = Some t \<and> k_mm t = k_mm s \<and> same_kernel s t \<and> pcb_at t a = Some (f p) \<and> pcb_effect a f s t"
proof -
  obtain t where t: "upd_pcb a f s = Some t" using assms by (simp add: upd_pcb_def split: option.splits)
  then show ?thesis using pcb_effect_upd[OF t] assms by (auto simp: upd_pcb_Some same_kernel_def pcb_effect_def)
qed

lemma new_image_memory:
  assumes fmt: "arm_format M" and laws: "heap_laws M owned used" and frees: "free_laws M E owned block"
    and size: "ke_PAGE_SIZE E = 0x1000" and p: "pcb_at s a = Some p" and root: "p_pgtable p = root"
    and ok: "space_ok M root owned used (k_mm s)"
    and blocks: "\<forall>i < user_end M. has_l2 M root (k_mm s) i \<longrightarrow>
      block (m_heap (k_mm s)) (l2_of M root (k_mm s) i) \<subseteq> words_at (l2_of M root (k_mm s) i) 256"
    and runs: "\<forall>r \<in> set (image_runs E img). run_ok M r"
    and st: "stock M (3 * sum_list (map snd (image_runs E img))) (m_heap (k_mm s))"
  shows "\<exists>t f1 f2 f3 f4. new_image (with_mmu M E) img a s = Some t \<and> map length [f1, f2, f3, f4] = map snd (image_runs E img) \<and>
    same_kernel s t \<and> space_ok M root owned used (k_mm t) \<and> pages_apart M root (k_mm t) \<and>
    (\<forall>v. translate M root (k_mm t) v =
       ((\<lambda>v. if i1 v < user_end M then None else translate M root (k_mm s) v) ++
         pages_at (fst (image_runs E img ! 0)) f1 ++ pages_at (fst (image_runs E img ! 1)) f2 ++
         pages_at (fst (image_runs E img ! 2)) f3 ++ pages_at (fst (image_runs E img ! 3)) f4) v) \<and>
    m_phys (k_mm t) = m_phys (k_mm s) \<and> m_current (k_mm t) = m_current (k_mm s)"
proof -
  let ?E = "with_mmu M E" and ?seg = "segment_page_count img"
  define n1 n2 n3 where "n1 = unat (stack_pages E)" and "n2 = unat ?seg" and "n3 = unat (heap_pages E)"
  define b1 b3 where "b1 = ke_args_base E - stack_pages E * ke_PAGE_SIZE E"
    and "b3 = (stack_pages E + ?seg + 1) * ke_PAGE_SIZE E"
  have ir: "image_runs E img = [(b1, n1), (e_entry img, n2), (b3, n3), (ke_args_base E, 1)]"
    by (simp add: image_runs_def n1_def n2_def n3_def b1_def b3_def)
  have rs: "run_ok M (b1, n1)" "run_ok M (e_entry img, n2)" "run_ok M (b3, n3)" "run_ok M (ke_args_base E, 1)"
    using runs unfolding ir by simp_all
  have st1: "stock M (3 * n1 + (3 * n2 + (3 * n3 + (3 * 1 + 0)))) (m_heap (k_mm s))"
    using st by (simp add: ir algebra_simps)
  obtain s1 where s1: "upd_pcb a (reset_process_stack E) s = Some s1" "k_mm s1 = k_mm s" "same_kernel s s1"
      "pcb_at s1 a = Some (reset_process_stack E p)" using upd_pcb_at[OF p] by blast
  let ?p1 = "reset_process_stack E p"
  have p1: "p_pgtable ?p1 = root" "p_page_count ?p1 = stack_pages E" "p_stack_top ?p1 = ke_args_base E"
    by (simp_all add: reset_process_stack_def root stack_pages_def)
  define mm where "mm = reset_root_pgtable M root False (k_mm s)"
  note re = reset_effect[OF fmt frees ok blocks, folded mm_def]
  let ?f = "fold (release_page ?E) (p_page_list ?p1) (s1\<lparr>k_mm := mm\<rparr>)"
  have rq: "quiet M owned mm (k_mm ?f)" "same_kernel (s1\<lparr>k_mm := mm\<rparr>) ?f" "pcb_at ?f = pcb_at (s1\<lparr>k_mm := mm\<rparr>)"
    using release_quiet[OF frees, of "s1\<lparr>k_mm := mm\<rparr>" "p_page_list ?p1"] by simp_all
  have pf: "pcb_at ?f a = Some ?p1" using rq(3) s1(4) by simp
  let ?p2 = "?p1\<lparr>p_page_list := []\<rparr>"
  obtain s2 where s2: "upd_pcb a (\<lambda>p. p\<lparr>p_page_list := []\<rparr>) ?f = Some s2" "k_mm s2 = k_mm ?f" "same_kernel ?f s2" "pcb_at s2 a = Some ?p2"
    using upd_pcb_at[OF pf] by blast
  have rel: "release_proc_pages ?E a (s1\<lparr>k_mm := mm\<rparr>) = Some s2" using s1(4) s2(1) by (simp add: release_proc_pages_def)
  have none: "\<forall>v. i1 v < user_end M \<longrightarrow> translate M root mm v = None" using re(2) by blast
  note q2 = quiet_empty[OF re(1) rq(1) none, folded s2(2)]
  have ap2: "pages_apart M root (k_mm s2)" unfolding pages_apart_def q2(2) using re(2) by simp
  have st2: "stock M (3 * n1 + (3 * n2 + (3 * n3 + (3 * 1 + 0)))) (m_heap (k_mm s2))"
    using rq(1) re(7)[OF st1] unfolding quiet_def s2(2) by blast
  have r2: "p_pgtable ?p2 = root" using p1(1) by simp
  obtain s3 f1 where s3: "allocate_page ?E a b1 n1 s2 = Some s3" "length f1 = n1" "stock M (3 * n2 + (3 * n3 + (3 * 1 + 0))) (m_heap (k_mm s3))"
      "allocated M owned used root a b1 f1 s2 s3" "pcb_at s3 a = Some (?p2\<lparr>p_page_list := p_page_list ?p2 @ f1\<rparr>)"
    using allocate_run[OF fmt laws size s2(4) r2 q2(1) ap2 rs(1) st2] by blast
  note a3 = s3(4)[unfolded allocated_def]
  obtain s4 where s4: "upd_pcb a (\<lambda>p. p\<lparr>p_bin_image_entry := e_entry img, p_page_count := p_page_count p + ?seg\<rparr>) s3 = Some s4"
      "k_mm s4 = k_mm s3" "same_kernel s3 s4" "\<exists>p4. pcb_at s4 a = Some p4 \<and> p_pgtable p4 = root \<and> p_page_count p4 = stack_pages E + ?seg"
    using upd_pcb_at[OF s3(5)] p1 by fastforce
  obtain p4 where p4: "pcb_at s4 a = Some p4" "p_pgtable p4 = root" "p_page_count p4 = stack_pages E + ?seg" using s4(4) by blast
  have o4: "space_ok M root owned used (k_mm s4)" "pages_apart M root (k_mm s4)" "stock M (3 * n2 + (3 * n3 + (3 * 1 + 0))) (m_heap (k_mm s4))"
    using a3 s3(3) unfolding s4(2) by blast+
  obtain s5 f2 where s5: "allocate_page ?E a (e_entry img) n2 s4 = Some s5" "length f2 = n2" "stock M (3 * n3 + (3 * 1 + 0)) (m_heap (k_mm s5))"
      "allocated M owned used root a (e_entry img) f2 s4 s5" "pcb_at s5 a = Some (p4\<lparr>p_page_list := p_page_list p4 @ f2\<rparr>)"
    using allocate_run[OF fmt laws size p4(1,2) o4(1,2) rs(2) o4(3)] by blast
  note a5 = s5(4)[unfolded allocated_def]
  let ?u6 = "\<lambda>p. p\<lparr>p_heap_base := (p_page_count p + 1) * ke_PAGE_SIZE E, p_heap_pointer := (p_page_count p + 1) * ke_PAGE_SIZE E,
      p_page_count := p_page_count p + heap_pages E\<rparr>"
  obtain s6 where s6: "upd_pcb a ?u6 s5 = Some s6" "k_mm s6 = k_mm s5" "same_kernel s5 s6"
      "\<exists>p6. pcb_at s6 a = Some p6 \<and> p_pgtable p6 = root \<and> p_heap_base p6 = b3"
    using upd_pcb_at[OF s5(5), of ?u6] p4 by (fastforce simp: b3_def)
  obtain p6 where p6: "pcb_at s6 a = Some p6" "p_pgtable p6 = root" "p_heap_base p6 = b3" using s6(4) by blast
  have o6: "space_ok M root owned used (k_mm s6)" "pages_apart M root (k_mm s6)" "stock M (3 * n3 + (3 * 1 + 0)) (m_heap (k_mm s6))"
    using a5 s5(3) unfolding s6(2) by blast+
  obtain s7 f3 where s7: "allocate_page ?E a b3 n3 s6 = Some s7" "length f3 = n3" "stock M (3 * 1 + 0) (m_heap (k_mm s7))"
      "allocated M owned used root a b3 f3 s6 s7" "pcb_at s7 a = Some (p6\<lparr>p_page_list := p_page_list p6 @ f3\<rparr>)"
    using allocate_run[OF fmt laws size p6(1,2) o6(1,2) rs(3) o6(3)] by blast
  note a7 = s7(4)[unfolded allocated_def]
  obtain s8 where s8: "upd_pcb a (\<lambda>p. p\<lparr>p_page_count := p_page_count p + 1\<rparr>) s7 = Some s8"
      "k_mm s8 = k_mm s7" "same_kernel s7 s8" "\<exists>p8. pcb_at s8 a = Some p8 \<and> p_pgtable p8 = root"
    using upd_pcb_at[OF s7(5)] p6 by fastforce
  obtain p8 where p8: "pcb_at s8 a = Some p8" "p_pgtable p8 = root" using s8(4) by blast
  have o8: "space_ok M root owned used (k_mm s8)" "pages_apart M root (k_mm s8)" "stock M (3 * 1 + 0) (m_heap (k_mm s8))"
    using a7 s7(3) unfolding s8(2) by blast+
  obtain t f4 where t: "allocate_page ?E a (ke_args_base E) 1 s8 = Some t" "length f4 = 1"
      "allocated M owned used root a (ke_args_base E) f4 s8 t"
    using allocate_run[OF fmt laws size p8 o8(1,2) rs(4) o8(3)] by blast
  note a9 = t(3)[unfolded allocated_def]
  have args: "ke_args_base ?E = ke_args_base E" "ke_PAGE_SIZE ?E = ke_PAGE_SIZE E" by (simp_all add: with_mmu_def)
  have hp: "drop_bit (ke_PAGE_SHIFT ?E) (ke_ALIGN_UP ?E (of_int (ke_HEAP_SIZE ?E)) (ke_PAGE_SIZE E)) = heap_pages E"
    by (simp add: heap_pages_def with_mmu_def)
  have reset: "ke_reset_root_pgtable ?E root False (k_mm s1) = Some mm" by (simp add: with_mmu_def mm_def s1(2))
  have run: "new_image ?E img a s = Some t"
    unfolding new_image_def with_mmu_sizes args Let_def hp
    using s1(1,4) reset rel s3(1) s4(1) s5(1) s6(1) s7(1) s8(1) t(1) p6
    by (simp add: p1 n1_def n2_def n3_def b1_def)
  have tr: "translate M root (k_mm t) v =
       ((\<lambda>v. if i1 v < user_end M then None else translate M root (k_mm s) v) ++
         pages_at b1 f1 ++ pages_at (e_entry img) f2 ++ pages_at b3 f3 ++ pages_at (ke_args_base E) f4) v" for v
  proof -
    have "translate M root (k_mm s2) = (\<lambda>v. if i1 v < user_end M then None else translate M root (k_mm s) v)"
      using q2(2) re(2,3) by (auto simp: fun_eq_iff)
    then show ?thesis using a3 a5 a7 a9 unfolding s4(2) s6(2) s8(2) by simp
  qed
  have sk: "same_kernel s t"
  proof -
    have "same_kernel s ?f" using s1(3) rq(2) by (simp add: same_kernel_def)
    then show ?thesis using s2(3) a3 s4(3) a5 s6(3) a7 s8(3) a9 by (simp add: same_kernel_def)
  qed
  have "m_phys (k_mm t) = m_phys (k_mm s) \<and> m_current (k_mm t) = m_current (k_mm s)"
    using a3 a5 a7 a9 rq(1) re(4,5) unfolding s4(2) s6(2) s8(2) s2(2) quiet_def by simp
  then show ?thesis
    using run sk tr a9 s3(2) s5(2) s7(2) t(2)
    by (intro exI[of _ t] exI[of _ f1] exI[of _ f2] exI[of _ f3] exI[of _ f4]) (simp add: ir)
qed

section \<open>Loading through the tables\<close>

text \<open>
  \<open>load_process\<close> as the processor carries it out: each byte of a copied section is a store to a user
  address. \<open>put\<close> is the store.
\<close>

fun put_bytes :: "(addr \<Rightarrow> u8 \<Rightarrow> 's \<Rightarrow> 's option) \<Rightarrow> (nat \<Rightarrow> u8) \<Rightarrow> addr \<Rightarrow> nat \<Rightarrow> 's \<Rightarrow> 's option" where
  "put_bytes put f dst 0 s = Some s"
| "put_bytes put f dst (Suc n) s = do { s1 \<leftarrow> put_bytes put f dst n s; put (dst + of_nat n) (f n) s1 }"

definition store_section :: "(addr \<Rightarrow> u8 \<Rightarrow> 's \<Rightarrow> 's option) \<Rightarrow> 'm xenv \<Rightarrow> elf_img_info \<Rightarrow> elf_segment \<Rightarrow> elf_section \<Rightarrow> 's \<Rightarrow> 's option" where
  "store_section put X img seg sec s =
     (let segment_start = ph_offset seg; segment_end = segment_start + ph_memsz seg;
          section_start = sh_offset sec; section_end = section_start + sh_size sec
      in if section_start < segment_start \<or> section_end > segment_end then Some s
         else if sh_name sec \<notin> set supported_section_names then Some s
         else if sh_type sec = xe_SHT_NOBITS X then Some s
         else put_bytes put (\<lambda>k. file_buffer img (sh_offset sec + of_nat k)) (sh_addr sec) (unat (sh_size sec)) s)"

fun in_turn :: "('x \<Rightarrow> 's \<Rightarrow> 's option) \<Rightarrow> 'x list \<Rightarrow> 's \<Rightarrow> 's option" where
  "in_turn f [] s = Some s"
| "in_turn f (x # xs) s = do { s1 \<leftarrow> f x s; in_turn f xs s1 }"

definition store_segment :: "(addr \<Rightarrow> u8 \<Rightarrow> 's \<Rightarrow> 's option) \<Rightarrow> 'm xenv \<Rightarrow> elf_img_info \<Rightarrow> elf_segment \<Rightarrow> 's \<Rightarrow> 's option" where
  "store_segment put X img seg s =
     (if ph_type seg \<noteq> xe_PT_LOAD X then Some s else in_turn (store_section put X img seg) (e_sections img) s)"

definition store_process :: "(addr \<Rightarrow> u8 \<Rightarrow> 's \<Rightarrow> 's option) \<Rightarrow> 'm xenv \<Rightarrow> elf_img_info \<Rightarrow> 's \<Rightarrow> 's option" where
  "store_process put X img s = in_turn (store_segment put X img) (e_segments img) s"

definition shows_mem :: "('s \<Rightarrow> bool) \<Rightarrow> ('s \<Rightarrow> addr \<Rightarrow> u8) \<Rightarrow> addr set \<Rightarrow> 's \<Rightarrow> (addr \<Rightarrow> u8) \<Rightarrow> bool" where
  "shows_mem good view area s mem \<longleftrightarrow> good s \<and> (\<forall>w \<in> area. view s w = mem w)"

text \<open>
  A memory in which every store to an address of \<open>area\<close> succeeds and changes that byte alone: there the
  stores have the effect of \<open>load_process\<close> on a flat memory.
\<close>

locale user_memory =
  fixes good :: "'s \<Rightarrow> bool" and view :: "'s \<Rightarrow> addr \<Rightarrow> u8" and put :: "addr \<Rightarrow> u8 \<Rightarrow> 's \<Rightarrow> 's option" and area :: "addr set"
  assumes put: "good s \<Longrightarrow> v \<in> area \<Longrightarrow>
    \<exists>s'. put v b s = Some s' \<and> good s' \<and> (\<forall>w \<in> area. view s' w = (if w = v then b else view s w))"
begin

lemma put_bytes_shows:
  assumes mem: "shows_mem good view area s mem"
  shows "n < 4294967296 \<Longrightarrow> \<forall>k < n. dst + of_nat k \<in> area \<Longrightarrow>
    \<exists>s'. put_bytes put f dst n s = Some s' \<and> shows_mem good view area s' (\<lambda>a. if unat (a - dst) < n then f (unat (a - dst)) else mem a)"
proof (induction n)
  case 0
  then show ?case using mem by simp
next
  case (Suc n)
  then obtain s1 where s1: "put_bytes put f dst n s = Some s1"
    "shows_mem good view area s1 (\<lambda>a. if unat (a - dst) < n then f (unat (a - dst)) else mem a)" by auto
  have "dst + of_nat n \<in> area" using Suc.prems(2) by blast
  then obtain s2 where s2: "put (dst + of_nat n) (f n) s1 = Some s2" "good s2"
    "\<forall>w \<in> area. view s2 w = (if w = dst + of_nat n then f n else view s1 w)"
    using put s1(2) unfolding shows_mem_def by blast
  have at: "w = dst + of_nat n \<longleftrightarrow> unat (w - dst) = n" for w :: addr
  proof
    assume "w = dst + of_nat n"
    then show "unat (w - dst) = n" using unat_of_nat_u32[of n] Suc.prems(1) by simp
  next
    assume n: "unat (w - dst) = n"
    have "w - dst = of_nat n" unfolding n[symmetric] by simp
    then show "w = dst + of_nat n" by (simp add: algebra_simps)
  qed
  have "shows_mem good view area s2 (\<lambda>a. if unat (a - dst) < Suc n then f (unat (a - dst)) else mem a)"
    using s1(2) s2(2,3) unfolding shows_mem_def at by (auto simp: less_Suc_eq)
  then show ?case using s1(1) s2(1) by auto
qed

lemma store_section_shows:
  assumes mem: "shows_mem good view area s mem"
    and sec: "ph_offset seg \<le> sh_offset sec \<Longrightarrow> sh_offset sec + sh_size sec \<le> ph_offset seg + ph_memsz seg \<Longrightarrow>
      sh_name sec \<in> set supported_section_names \<Longrightarrow> sh_type sec \<noteq> xe_SHT_NOBITS X \<Longrightarrow> {a. covers sec a} \<subseteq> area"
  shows "\<exists>s'. store_section put X img seg sec s = Some s' \<and> shows_mem good view area s' (load_section X img seg sec mem)"
proof (cases "sh_offset sec < ph_offset seg \<or> sh_offset sec + sh_size sec > ph_offset seg + ph_memsz seg \<or>
    sh_name sec \<notin> set supported_section_names \<or> sh_type sec = xe_SHT_NOBITS X")
  case True
  then show ?thesis using mem by (auto simp: store_section_def load_section_def Let_def)
next
  case False
  let ?n = "unat (sh_size sec)" and ?f = "\<lambda>k. file_buffer img (sh_offset sec + of_nat k)"
  have n: "?n < 4294967296" using unsigned_less[of "sh_size sec"] by simp
  have "sh_addr sec + of_nat k \<in> area" if "k < ?n" for k
  proof -
    have "unat (of_nat k :: u32) = k" using that n by (intro unat_of_nat_u32) (rule order.strict_trans)
    then have "covers sec (sh_addr sec + of_nat k)" using that by (simp add: covers_def word_less_nat_alt)
    then show ?thesis using sec False by (auto simp: not_less)
  qed
  then obtain s' where s': "put_bytes put ?f (sh_addr sec) ?n s = Some s'"
    "shows_mem good view area s' (\<lambda>a. if unat (a - sh_addr sec) < ?n then ?f (unat (a - sh_addr sec)) else mem a)"
    using put_bytes_shows[OF mem n, of "sh_addr sec" ?f] by blast
  have "(\<lambda>a. if unat (a - sh_addr sec) < ?n then ?f (unat (a - sh_addr sec)) else mem a) = load_section X img seg sec mem"
    using False by (auto simp: load_section_def copy_section_def Let_def word_less_nat_alt fun_eq_iff)
  then show ?thesis using s' False by (auto simp: store_section_def Let_def)
qed

lemma in_turn_shows:
  assumes "\<And>x s mem. x \<in> set xs \<Longrightarrow> shows_mem good view area s mem \<Longrightarrow> \<exists>s'. f x s = Some s' \<and> shows_mem good view area s' (g x mem)"
  shows "shows_mem good view area s mem \<Longrightarrow> \<exists>s'. in_turn f xs s = Some s' \<and> shows_mem good view area s' (fold g xs mem)"
  using assms
proof (induction xs arbitrary: s mem)
  case (Cons x xs)
  obtain s1 where s1: "f x s = Some s1" "shows_mem good view area s1 (g x mem)" using Cons.prems by fastforce
  from Cons.IH[OF s1(2)] Cons.prems(2) obtain s2 where "in_turn f xs s1 = Some s2" "shows_mem good view area s2 (fold g xs (g x mem))"
    by auto
  then show ?case using s1(1) by auto
qed simp

lemma store_process_shows:
  assumes mem: "shows_mem good view area s mem"
    and sec: "\<forall>sec. loaded_section X img sec \<longrightarrow> {a. covers sec a} \<subseteq> area"
  shows "\<exists>s'. store_process put X img s = Some s' \<and> shows_mem good view area s' (load_process X img mem)"
  unfolding store_process_def load_process_def
proof (rule in_turn_shows[OF _ mem])
  fix seg s mem assume seg: "seg \<in> set (e_segments img)" and m: "shows_mem good view area s mem"
  show "\<exists>s'. store_segment put X img seg s = Some s' \<and> shows_mem good view area s' (load_segment X img seg mem)"
  proof (cases "ph_type seg = xe_PT_LOAD X")
    case True
    have "\<exists>s'. in_turn (store_section put X img seg) (e_sections img) s = Some s' \<and>
        shows_mem good view area s' (fold (load_section X img seg) (e_sections img) mem)"
    proof (rule in_turn_shows[OF _ m])
      fix x s mem assume x: "x \<in> set (e_sections img)" and m: "shows_mem good view area s mem"
      show "\<exists>s'. store_section put X img seg x s = Some s' \<and> shows_mem good view area s' (load_section X img seg x mem)"
        by (rule store_section_shows[OF m]) (use sec x seg True in \<open>unfold loaded_section_def, blast\<close>)
    qed
    then show ?thesis using True by (simp add: store_segment_def load_segment_def)
  qed (use m in \<open>simp add: store_segment_def load_segment_def\<close>)
qed

end

text \<open>The user memory of a process, through page tables that give every page a frame of its own.\<close>

lemma translate_offset: "translate M root m v = Some p \<Longrightarrow> p AND mask 12 = v AND mask 12"
proof -
  have a: "((w AND NOT (mask 12)) OR (v AND mask 12)) AND mask 12 = v AND mask 12"
    "((w AND NOT (mask 20)) OR (v AND mask 20)) AND mask 12 = v AND mask 12" for w :: u32
    by (rule bit_word_eqI, auto simp: bit_simps)+
  show "translate M root m v = Some p \<Longrightarrow> p AND mask 12 = v AND mask 12"
    by (auto simp: translate_def Let_def a split: if_splits)
qed

definition user_mapped :: "'h mmu_env \<Rightarrow> (addr \<Rightarrow> addr option) \<Rightarrow> addr set" where
  "user_mapped M T = {v. i1 v < user_end M \<and> T v \<noteq> None}"

interpretation mapped_pages: user_memory "\<lambda>m. m_current m = root \<and> pages_apart M root m \<and> translate M root m = T"
  "\<lambda>m v. m_phys m (the (T v))" "store_byte M" "user_mapped M T"
proof
  fix m v b assume m: "m_current m = root \<and> pages_apart M root m \<and> translate M root m = T" and v: "v \<in> user_mapped M T"
  obtain p where p: "T v = Some p" and uv: "i1 v < user_end M" using v by (auto simp: user_mapped_def)
  let ?m = "m\<lparr>m_phys := (m_phys m)(p := b)\<rparr>"
  have mT: "m_current m = root" "translate M root m = T" and ap: "pages_apart M root m" using m by blast+
  have tr: "translate M root ?m = T" unfolding mT(2)[symmetric] by (rule table_words_cong(5)) simp
  note apT = ap[unfolded pages_apart_def mT(2), rule_format]
  have off: "T w = Some p' \<Longrightarrow> p' AND mask 12 = w AND mask 12" for w p'
    using translate_offset[of M root m w p'] unfolding mT(2) .
  have "the (T w) = p \<longleftrightarrow> w = v" if w: "w \<in> user_mapped M T" for w
  proof
    assume eq: "the (T w) = p"
    then have tw: "T w = Some p" "i1 w < user_end M" using w by (auto simp: user_mapped_def)
    have "frame_of w = frame_of v" by (rule apT[OF tw(2) uv tw(1) p refl])
    moreover have "w AND mask 12 = v AND mask 12" using off[OF tw(1)] off[OF p] by simp
    ultimately have "frame_of w + (w AND mask 12) = frame_of v + (v AND mask 12)" by (simp only:)
    then show "w = v" unfolding frame_split .
  qed (simp add: p)
  then have "\<forall>w \<in> user_mapped M T. m_phys ?m (the (T w)) = (if w = v then b else m_phys m (the (T w)))" by simp
  moreover have "store_byte M v b m = Some ?m" using p by (simp add: store_byte_def mT)
  moreover have "pages_apart M root ?m" using ap unfolding pages_apart_def tr mT(2) .
  ultimately show "\<exists>m'. store_byte M v b m = Some m' \<and> (m_current m' = root \<and> pages_apart M root m' \<and> translate M root m' = T) \<and>
      (\<forall>w \<in> user_mapped M T. m_phys m' (the (T w)) = (if w = v then b else m_phys m (the (T w))))"
    using mT(1) tr by (intro exI[of _ ?m] conjI) simp_all
qed

section \<open>Properties\<close>

lemma pages_at_range: "pages_at b fs v = None \<longleftrightarrow> \<not> in_range b (length fs) v"
  by (simp add: pages_at_def in_range_def)

lemma run_user: "run_ok M r \<Longrightarrow> in_range (fst r) (snd r) v \<Longrightarrow> i1 v < user_end M"
proof -
  assume "run_ok M r" "in_range (fst r) (snd r) v"
  then have "unat v < 2 ^ 20 * user_end M" unfolding run_ok_def in_range_def by linarith
  then show ?thesis unfolding i1_def by (simp add: less_mult_imp_div_less mult.commute)
qed

text \<open>What a process needs to take a new image: an address space of its own, and what is to be had from the heap.\<close>

definition can_take :: "'h mmu_env \<Rightarrow> 'h mmu kenv \<Rightarrow> ('h \<Rightarrow> addr set) \<Rightarrow> ('h \<Rightarrow> addr set) \<Rightarrow> ('h \<Rightarrow> addr \<Rightarrow> addr set) \<Rightarrow>
    elf_img_info \<Rightarrow> addr \<Rightarrow> 'h mmu \<Rightarrow> bool" where
  "can_take M E owned used block img root m \<longleftrightarrow> space_ok M root owned used m \<and>
     (\<forall>i < user_end M. has_l2 M root m i \<longrightarrow> block (m_heap m) (l2_of M root m i) \<subseteq> words_at (l2_of M root m i) 256) \<and>
     ke_PAGE_SIZE E = 0x1000 \<and> (\<forall>r \<in> set (image_runs E img). run_ok M r) \<and>
     stock M (3 * sum_list (map snd (image_runs E img))) (m_heap m)"

lemma image_space:
  assumes fmt: "arm_format M" and laws: "heap_laws M owned used" and frees: "free_laws M E owned block"
    and p: "pcb_at s a = Some p" and can: "can_take M E owned used block img (p_pgtable p) (k_mm s)"
  shows "\<exists>t. new_image (with_mmu M E) img a s = Some t \<and>
    (\<forall>v. i1 v < user_end M \<longrightarrow> (translate M (p_pgtable p) (k_mm t) v \<noteq> None \<longleftrightarrow>
       (\<exists>r \<in> set (image_runs E img). in_range (fst r) (snd r) v))) \<and>
    pages_apart M (p_pgtable p) (k_mm t) \<and>
    (\<forall>v. user_end M \<le> i1 v \<longrightarrow> translate M (p_pgtable p) (k_mm t) v = translate M (p_pgtable p) (k_mm s) v) \<and>
    m_current (k_mm t) = m_current (k_mm s) \<and> same_kernel s t"
proof -
  note c = can[unfolded can_take_def]
  have ok: "space_ok M (p_pgtable p) owned used (k_mm s)" and size: "ke_PAGE_SIZE E = 0x1000"
    and blocks: "\<forall>i < user_end M. has_l2 M (p_pgtable p) (k_mm s) i \<longrightarrow> block (m_heap (k_mm s)) (l2_of M (p_pgtable p) (k_mm s) i) \<subseteq>
        words_at (l2_of M (p_pgtable p) (k_mm s) i) 256"
    and runs: "\<forall>r \<in> set (image_runs E img). run_ok M r"
    and st: "stock M (3 * sum_list (map snd (image_runs E img))) (m_heap (k_mm s))" using c by blast+
  obtain t f1 f2 f3 f4 where t: "new_image (with_mmu M E) img a s = Some t" "pages_apart M (p_pgtable p) (k_mm t)"
      "m_current (k_mm t) = m_current (k_mm s)" "same_kernel s t"
    and len: "map length [f1, f2, f3, f4] = map snd (image_runs E img)"
    and tr: "\<And>v. translate M (p_pgtable p) (k_mm t) v =
       ((\<lambda>v. if i1 v < user_end M then None else translate M (p_pgtable p) (k_mm s) v) ++
         pages_at (fst (image_runs E img ! 0)) f1 ++ pages_at (fst (image_runs E img ! 1)) f2 ++
         pages_at (fst (image_runs E img ! 2)) f3 ++ pages_at (fst (image_runs E img ! 3)) f4) v"
    using new_image_memory[OF fmt laws frees size p refl ok blocks runs st] by blast
  obtain r1 r2 r3 r4 where ir: "image_runs E img = [r1, r2, r3, r4]" by (simp add: image_runs_def)
  have len': "length f1 = snd r1" "length f2 = snd r2" "length f3 = snd r3" "length f4 = snd r4" using len by (simp_all add: ir)
  have no: "(f ++ g) v = None \<longleftrightarrow> f v = None \<and> g v = None" for f g :: "addr \<Rightarrow> addr option" and v
    by (auto simp: map_add_def split: option.splits)
  have none: "(translate M (p_pgtable p) (k_mm t) v = None) = (\<not> (\<exists>r \<in> set (image_runs E img). in_range (fst r) (snd r) v))"
    if "i1 v < user_end M" for v
    using that unfolding tr no pages_at_range len' by (simp add: ir)
  have kern: "translate M (p_pgtable p) (k_mm t) v = translate M (p_pgtable p) (k_mm s) v" if "user_end M \<le> i1 v" for v
  proof -
    have "\<not> in_range (fst r) (snd r) v" if "r \<in> set (image_runs E img)" for r
      using run_user[of M r v] runs that \<open>user_end M \<le> i1 v\<close> by (metis not_le)
    then have "pages_at (fst r1) f1 v = None" "pages_at (fst r2) f2 v = None" "pages_at (fst r3) f3 v = None" "pages_at (fst r4) f4 v = None"
      unfolding pages_at_range len' by (simp_all add: ir)
    then show ?thesis using that unfolding tr by (simp add: map_add_def ir)
  qed
  have dom: "\<forall>v. i1 v < user_end M \<longrightarrow> (translate M (p_pgtable p) (k_mm t) v \<noteq> None \<longleftrightarrow>
       (\<exists>r \<in> set (image_runs E img). in_range (fst r) (snd r) v))"
    using none by (simp del: not_None_eq)
  have "\<forall>v. user_end M \<le> i1 v \<longrightarrow> translate M (p_pgtable p) (k_mm t) v = translate M (p_pgtable p) (k_mm s) v"
    using kern by simp
  with t dom show ?thesis by blast
qed

text \<open>The loader on an address space that maps the pages of an image, each to a frame of its own.\<close>

lemma image_stores:
  assumes cur: "m_current m0 = root" and ap: "pages_apart M root m0" and runs: "\<forall>r \<in> set (image_runs E img). run_ok M r"
    and dom: "\<And>v. i1 v < user_end M \<Longrightarrow> translate M root m0 v \<noteq> None \<longleftrightarrow> (\<exists>r \<in> set (image_runs E img). in_range (fst r) (snd r) v)"
    and secs: "\<forall>sec v. loaded_section X img sec \<longrightarrow> covers sec v \<longrightarrow> in_range (e_entry img) (unat (segment_page_count img)) v"
    and mem: "\<And>v b. i1 v < user_end M \<Longrightarrow> user_byte M root m0 v = Some b \<Longrightarrow> mem v = b"
  shows "\<exists>m. store_process (store_byte M) X img m0 = Some m \<and> (\<forall>v. i1 v < user_end M \<longrightarrow> user_byte M root m v =
      (if \<exists>r \<in> set (image_runs E img). in_range (fst r) (snd r) v then Some (load_process X img mem v) else None))"
proof -
  define T where "T = translate M root m0"
  let ?good = "\<lambda>m. m_current m = root \<and> pages_apart M root m \<and> translate M root m = T" and ?view = "\<lambda>m v. m_phys m (the (T v))"
  have start: "shows_mem ?good ?view (user_mapped M T) m0 mem"
    using cur ap mem unfolding shows_mem_def by (auto simp: T_def user_mapped_def user_byte_def)
  have seg: "(e_entry img, unat (segment_page_count img)) \<in> set (image_runs E img)" by (simp add: image_runs_def)
  have "{v. covers sec v} \<subseteq> user_mapped M T" if "loaded_section X img sec" for sec
  proof
    fix v assume "v \<in> {v. covers sec v}"
    then have v: "in_range (fst (e_entry img, unat (segment_page_count img))) (snd (e_entry img, unat (segment_page_count img))) v"
      using secs that by simp
    then have "i1 v < user_end M" using run_user seg runs by blast
    then show "v \<in> user_mapped M T" using dom v seg unfolding user_mapped_def T_def by blast
  qed
  then obtain m where m: "store_process (store_byte M) X img m0 = Some m"
    "shows_mem ?good ?view (user_mapped M T) m (load_process X img mem)"
    using mapped_pages.store_process_shows[OF start] by blast
  have "user_byte M root m v = (if \<exists>r \<in> set (image_runs E img). in_range (fst r) (snd r) v then Some (load_process X img mem v) else None)"
    if "i1 v < user_end M" for v
  proof -
    have "translate M root m = T" using m(2) unfolding shows_mem_def by blast
    then have ub: "user_byte M root m v = map_option (m_phys m) (T v)" by (simp add: user_byte_def)
    have d: "T v \<noteq> None \<longleftrightarrow> (\<exists>r \<in> set (image_runs E img). in_range (fst r) (snd r) v)" using dom[OF that] unfolding T_def .
    show ?thesis
    proof (cases "T v")
      case (Some x)
      then have "v \<in> user_mapped M T" using that by (simp add: user_mapped_def)
      then have "m_phys m (the (T v)) = load_process X img mem v" using m(2) unfolding shows_mem_def by blast
      then show ?thesis using d ub Some by simp
    qed (use d ub in simp)
  qed
  then show ?thesis using m(1) by blast
qed

text \<open>
  The address space of a new program: with frames, blocks and nodes enough, \<open>setup_proc_image_replace\<close> builds the
  image, and afterwards the user addresses that have a translation are exactly those of the stack, the
  segments, the heap and the page of the arguments; no frame lies under two pages; nothing of the old image is left,
  and the kernel area is as it was.
\<close>

theorem image_address_space:
  assumes "arm_format M" and "heap_laws M owned used" and "free_laws M E owned block"
    and "pcb_at s a = Some p" and "can_take M E owned used block img (p_pgtable p) (k_mm s)"
  shows "\<exists>t. new_image (with_mmu M E) img a s = Some t \<and>
    (\<forall>v. i1 v < user_end M \<longrightarrow> (translate M (p_pgtable p) (k_mm t) v \<noteq> None \<longleftrightarrow>
       (\<exists>r \<in> set (image_runs E img). in_range (fst r) (snd r) v))) \<and>
    (\<forall>v w x y. i1 v < user_end M \<longrightarrow> i1 w < user_end M \<longrightarrow> translate M (p_pgtable p) (k_mm t) v = Some x \<longrightarrow>
       translate M (p_pgtable p) (k_mm t) w = Some y \<longrightarrow> frame_of x = frame_of y \<longrightarrow> frame_of v = frame_of w) \<and>
    (\<forall>v. user_end M \<le> i1 v \<longrightarrow> translate M (p_pgtable p) (k_mm t) v = translate M (p_pgtable p) (k_mm s) v)"
  using image_space[OF assms] unfolding pages_apart_def by blast

text \<open>
  C15. Loading through the page tables: in the new address space every store of the loader succeeds, if the sections lie in the
  pages of the segments; then each mapped address holds the byte that \<open>load_process\<close> on a flat memory gives it, and
  the others still have no translation.
\<close>

theorem image_loaded:
  assumes fmt: "arm_format M" and laws: "heap_laws M owned used" and frees: "free_laws M E owned block"
    and p: "pcb_at s a = Some p" and can: "can_take M E owned used block img (p_pgtable p) (k_mm s)"
    and cur: "m_current (k_mm s) = p_pgtable p"
    and secs: "\<forall>sec v. loaded_section X img sec \<longrightarrow> covers sec v \<longrightarrow> in_range (e_entry img) (unat (segment_page_count img)) v"
  shows "\<exists>t m. new_image (with_mmu M E) img a s = Some t \<and> store_process (store_byte M) X img (k_mm t) = Some m \<and>
    (\<forall>v. i1 v < user_end M \<longrightarrow> user_byte M (p_pgtable p) m v =
       (if \<exists>r \<in> set (image_runs E img). in_range (fst r) (snd r) v
        then Some (load_process X img (\<lambda>w. the (user_byte M (p_pgtable p) (k_mm t) w)) v) else None))"
proof -
  let ?r = "p_pgtable p"
  obtain t where t: "new_image (with_mmu M E) img a s = Some t" "pages_apart M ?r (k_mm t)" "m_current (k_mm t) = ?r"
    and dom: "\<And>v. i1 v < user_end M \<Longrightarrow> translate M ?r (k_mm t) v \<noteq> None \<longleftrightarrow> (\<exists>r \<in> set (image_runs E img). in_range (fst r) (snd r) v)"
    using image_space[OF fmt laws frees p can] cur by auto
  have runs: "\<forall>r \<in> set (image_runs E img). run_ok M r" using can unfolding can_take_def by blast
  show ?thesis
    using image_stores[OF t(3,2) runs _ secs, of "\<lambda>w. the (user_byte M ?r (k_mm t) w)"] dom t(1) by fastforce
qed

text \<open>
  An entry point that is no page address: each call of \<open>create_mapping\<close> then maps two pages, the second one to the
  frame after the one that was allocated.
\<close>

lemma unaligned_maps_two:
  assumes fmt: "arm_format M" and v: "v AND mask 12 = 0" and k: "0 < k" "k < 4096"
  shows "create_mapping M root (v + of_nat k) pg 0x1000 nc m = create_mapping M root v pg 0x2000 nc m"
proof -
  have two: "(of_nat 2 * 0x1000 :: u32) = 0x2000" by simp
  have "0x1000 + of_nat k + 0xfff = (0x2000 :: u32) + of_nat (k - 1)" using k(1) by (simp add: of_nat_diff)
  moreover have "(0x2000 :: u32) AND mask 12 = 0" by (simp add: mask_eq_exp_minus_1)
  ultimately have "frame_of (0x1000 + of_nat k + 0xfff) = 0x2000"
    using frame_add(1)[of "0x2000" "k - 1"] k by simp
  then have len: "(0x1000 + of_nat k + 0xfff :: u32) AND NOT (mask 12) = 0x2000" unfolding frame_of_def .
  have "page_span M (v + of_nat k) 0x1000 = (v, v + 0x2000)"
    using frame_add[OF v k(2)] len
    by (simp add: page_span_def Let_def arm_sizes[OF fmt] arm_offsets(5)[OF fmt] frame_of_def bit.double_compl)
  moreover have "page_span M v 0x2000 = (v, v + 0x2000)" using page_span_pages[OF fmt v, of 2] unfolding two .
  ultimately show ?thesis unfolding create_mapping_def by simp
qed

lemma unaligned_entry_leaks_frame:
  assumes fmt: "arm_format M" and root: "root \<noteq> NULL" "tables_ok M root m" and can: "mappable M root v 2 m"
    and pg: "pg AND mask 12 = 0" and k: "0 < k" "k < 4096"
  shows "\<exists>m'. create_mapping M root (v + of_nat k) pg 0x1000 nc m = Some m' \<and>
    (\<forall>w. in_range v 2 w \<longrightarrow> translate M root m' w = Some (pg + (w - v)))"
proof -
  have v: "v AND mask 12 = 0" using can by (simp add: mappable_def page_range_def)
  have two: "(of_nat 2 * 0x1000 :: u32) = 0x2000" by simp
  have rt: "root = the_table root m" using root(1) by (simp add: the_table_def)
  show ?thesis unfolding unaligned_maps_two[OF fmt v k]
    using mapping_effect[OF fmt rt root(2) can pg, of nc, unfolded two] unfolding in_range_def by auto
qed

section \<open>A concrete image\<close>

lemma user_space_space:
  assumes "user_space_ok M root owned used m"
  shows "space_ok M root owned used m"
  unfolding space_ok_def
proof (intro conjI allI impI)
  note us = assms[unfolded user_space_ok_def]
  fix v p assume v: "i1 v < user_end M" and p: "translate M root m v = Some p"
  have e: "m_mem m (ent root (i1 v)) \<noteq> 0" using p by (auto simp: translate_def Let_def)
  then have l2: "has_l2 M root m (i1 v)" using us v by blast
  let ?w = "page_entry M root m (i1 v) (i2 v)"
  have w: "?w \<noteq> 0" "p = (?w AND NOT (mask 12)) OR (v AND mask 12)"
    using p l2 by (auto simp: translate_def Let_def page_entry_def l2_of_def has_l2_def split: if_splits)
  have "\<forall>i < user_end M. \<forall>j < 256. has_l2 M root m i \<longrightarrow> page_entry M root m i j \<noteq> 0 \<longrightarrow>
        frame_of (page_entry M root m i j) \<in> used (m_heap m)" using us by blast
  then have "frame_of ?w \<in> used (m_heap m)" using v l2 w(1) i2_less by blast
  moreover have "frame_of p = frame_of ?w"
    unfolding w(2) frame_of_def by (rule bit_word_eqI) (auto simp: bit_simps)
  ultimately show "frame_of p \<in> used (m_heap m)" by simp
qed (use assms in \<open>unfold user_space_ok_def, blast+\<close>)

lemma sim_requests:
  "me_memalign sim_arm 0x400 (me_SZ_1K sim_arm) (k, f, fr) = (if k < 256 then (of_nat (0x20000 + 0x4000 * k), (Suc k, f, fr)) else (NULL, (k, f, fr)))"
  "me_get_free_page sim_arm (k, f, fr) = (if f < 4096 then (of_nat (0x800000 + 0x1000 * f), (k, Suc f, fr)) else (NULL, (k, f, fr)))"
  "me_malloc_node sim_arm (k, f, fr) = Some (k, f, fr)"
  by (simp_all add: sim_arm_def sim_memalign_def sim_get_free_page_def)

lemma sim_stock: "stock sim_arm n (k, f, fr) \<longleftrightarrow> n = 0 \<or> k + n \<le> 256 \<and> f + n \<le> 4096"
proof (induction n arbitrary: k f)
  case (Suc n)
  have ne: "k < 256 \<Longrightarrow> (of_nat (0x20000 + 0x4000 * k) :: addr) \<noteq> 0" "f < 4096 \<Longrightarrow> (of_nat (0x800000 + 0x1000 * f) :: addr) \<noteq> 0"
    using unat_of_nat_u32[of "0x20000 + 0x4000 * k"] unat_of_nat_u32[of "0x800000 + 0x1000 * f"]
    by (auto simp: word_unat_eq_iff simp del: of_nat_add of_nat_mult)
  show ?case
  proof (cases "k < 256 \<and> f < 4096")
    case True
    then have "stock sim_arm (Suc n) (k, f, fr) \<longleftrightarrow>
        stock sim_arm n (Suc k, f, fr) \<and> stock sim_arm n (k, Suc f, fr) \<and> stock sim_arm n (k, f, fr)"
      using ne unfolding stock_step sim_requests by auto
    then show ?thesis using Suc.IH True by auto
  next
    case False
    then show ?thesis unfolding stock_step sim_requests by auto
  qed
qed simp

lemma sim_free_laws: "free_laws sim_arm fork_env sim_owned (\<lambda>h t. {})"
proof -
  have "sim_owned h - {} \<subseteq> sim_owned (me_free sim_arm t h) \<and> (stock sim_arm n h \<longrightarrow> stock sim_arm n (me_free sim_arm t h))" for h t n
  proof (cases h)
    case (fields k f fr)
    have "me_free sim_arm t h = (k, f, t # fr)" unfolding fields by (simp add: sim_arm_def)
    then show ?thesis by (simp add: fields sim_owned_def sim_stock)
  qed
  then show ?thesis by (simp add: free_laws_def quiet_def fork_env_def)
qed

lemma sim_runs: "image_runs fork_env sim_img = [(0xBFFFE000, 1), (0x1000, 1), (0x3000, 16), (0xBFFFF000, 1)]"
  by (simp add: image_runs_def stack_pages_def heap_pages_def fork_env_def sim_img_def PROC_THREAD_MAX_def)

lemma sim_can_take: "can_take sim_arm fork_env sim_owned sim_used (\<lambda>h t. {}) sim_img 0x10000 sim_parent"
proof -
  have ue: "user_end sim_arm = 3072" by (simp add: sim_arm_def i1_def)
  have heap: "m_heap sim_parent = (0, 0, [])" by (simp add: sim_parent_def sim_tables_def store_def)
  have "space_ok sim_arm 0x10000 sim_owned sim_used sim_parent"
    by (rule user_space_space) (use sim_copyable in \<open>unfold copyable_def, blast\<close>)
  moreover have "\<forall>r \<in> set (image_runs fork_env sim_img). run_ok sim_arm r"
    unfolding sim_runs run_ok_def ue by (simp add: mask_eq_exp_minus_1)
  moreover have "stock sim_arm 57 (0, 0, [])" by (simp only: sim_stock) simp
  then have "stock sim_arm (3 * sum_list (map snd (image_runs fork_env sim_img))) (m_heap sim_parent)"
    unfolding sim_runs heap by simp
  moreover have "ke_PAGE_SIZE fork_env = 0x1000" by (simp add: fork_env_def)
  ultimately show ?thesis unfolding can_take_def by simp
qed

lemma fork_start_pcb: "pcb_at fork_start 1 = Some fork_parent" "p_pgtable fork_parent = 0x10000" "k_mm fork_start = sim_parent"
    "m_current sim_parent = 0x10000"
  by (simp_all add: fork_start_def fork_parent_def sim_pcb_def pcb_at_def sim_parent_def sim_tables_def store_def)

theorem image_address_space_witness:
  "\<exists>t. new_image (with_mmu sim_arm fork_env) sim_img 1 fork_start = Some t \<and>
    translate sim_arm 0x10000 (k_mm t) 0x1000 \<noteq> None \<and> translate sim_arm 0x10000 (k_mm t) 0x8000 \<noteq> None \<and>
    translate sim_arm 0x10000 (k_mm t) 0x2000 = None"
proof -
  obtain t where t: "new_image (with_mmu sim_arm fork_env) sim_img 1 fork_start = Some t"
    and dom: "\<forall>v. i1 v < user_end sim_arm \<longrightarrow> (translate sim_arm 0x10000 (k_mm t) v \<noteq> None \<longleftrightarrow>
       (\<exists>r \<in> set (image_runs fork_env sim_img). in_range (fst r) (snd r) v))"
    using image_address_space[OF sim_arm_format sim_heap_laws sim_free_laws fork_start_pcb(1),
        unfolded fork_start_pcb(2,3), OF sim_can_take] by blast
  have u: "i1 0x1000 < user_end sim_arm" "i1 0x8000 < user_end sim_arm" "i1 0x2000 < user_end sim_arm" by (simp_all add: sim_user)
  show ?thesis
    using t dom[rule_format, OF u(1)] dom[rule_format, OF u(2)] dom[rule_format, OF u(3)]
    by (intro exI[of _ t]) (simp add: sim_runs in_range_def)
qed

theorem image_loaded_witness:
  "\<exists>t m. new_image (with_mmu sim_arm fork_env) sim_img 1 fork_start = Some t \<and>
    store_process (store_byte sim_arm) sim_xenv sim_img (k_mm t) = Some m \<and> user_byte sim_arm 0x10000 m 0x1002 = Some 0x42"
proof -
  have secs: "\<forall>sec v. loaded_section sim_xenv sim_img sec \<longrightarrow> covers sec v \<longrightarrow>
      in_range (e_entry sim_img) (unat (segment_page_count sim_img)) v"
  proof (intro allI impI)
    fix sec v assume "loaded_section sim_xenv sim_img sec" "covers sec v"
    then have "v - 0x1000 < 8" by (simp add: sim_loaded covers_def sim_text_def)
    then have "unat (v - 0x1000) < 8" by (simp add: word_less_nat_alt)
    moreover have "unat (0x1000 + (v - 0x1000)) = 0x1000 + unat (v - 0x1000)"
      using unat_of_nat_u32[of "0x1000 + unat (v - 0x1000)"] calculation by simp
    ultimately show "in_range (e_entry sim_img) (unat (segment_page_count sim_img)) v"
      by (simp add: in_range_def sim_img_def)
  qed
  obtain t m where r: "new_image (with_mmu sim_arm fork_env) sim_img 1 fork_start = Some t"
      "store_process (store_byte sim_arm) sim_xenv sim_img (k_mm t) = Some m"
    and b: "\<forall>v. i1 v < user_end sim_arm \<longrightarrow> user_byte sim_arm 0x10000 m v =
       (if \<exists>r \<in> set (image_runs fork_env sim_img). in_range (fst r) (snd r) v
        then Some (load_process sim_xenv sim_img (\<lambda>w. the (user_byte sim_arm 0x10000 (k_mm t) w)) v) else None)"
    using image_loaded[OF sim_arm_format sim_heap_laws sim_free_laws fork_start_pcb(1), unfolded fork_start_pcb(2-4),
        OF sim_can_take refl secs] by blast
  have u: "i1 0x1002 < user_end sim_arm" by (simp add: sim_user)
  have "load_process sim_xenv sim_img mem 0x1002 = 0x42" for mem
  proof -
    have "load_process sim_xenv sim_img mem 0x1002 = file_buffer sim_img (sh_offset sim_text + (0x1002 - sh_addr sim_text))"
      by (rule load_process_at) (simp_all add: sim_loaded covers_def sim_text_def)
    then show ?thesis by (simp add: sim_text_def sim_img_def)
  qed
  then show ?thesis using r b[rule_format, OF u] by (intro exI[of _ t] exI[of _ m]) (simp add: sim_runs in_range_def)
qed

end
