(* ===== verification/ExecMemory.thy ===== *)
theory ExecMemory
  imports ImageMemory
begin

unbundle bit_operations_syntax

text \<open>
  \<open>do_execve\<close> of \<open>so3/kernel/process.c\<close> on the page tables of \<open>so3/arch/arm32/mmu.c\<close>: what the new program finds in its
  address space.
\<close>

section \<open>What the call needs of its surroundings\<close>

definition same_tables :: "'h mmu \<Rightarrow> 'h mmu \<Rightarrow> bool" where
  "same_tables m m' \<longleftrightarrow> m_mem m' = m_mem m \<and> m_phys m' = m_phys m \<and> m_current m' = m_current m"

lemma same_tables_trans: "same_tables m m' \<Longrightarrow> same_tables m' m'' \<Longrightarrow> same_tables m m''"
  by (simp add: same_tables_def)

lemma same_tables_views:
  assumes "same_tables m m'"
  shows "translate M r m' = translate M r m" "user_byte M r m' = user_byte M r m" "m_current m' = m_current m"
    "pages_apart M r m' = pages_apart M r m"
proof -
  show tr: "translate M r m' = translate M r m" using assms by (auto simp: same_tables_def translate_def fun_eq_iff)
  show "user_byte M r m' = user_byte M r m" "m_current m' = m_current m" using assms by (auto simp: user_byte_def tr same_tables_def)
  show "pages_apart M r m' = pages_apart M r m" by (simp add: pages_apart_def tr)
qed

text \<open>
  The loader, the kernel's heap and the caches leave page tables and user memory alone, and user memory is
  read through the tables of the running process.
\<close>

definition loader_laws :: "'h mmu_env \<Rightarrow> 'h mmu xenv \<Rightarrow> bool" where
  "loader_laws M X \<longleftrightarrow>
     (\<forall>f m. same_tables m (snd (xe_elf_load X f m))) \<and> (\<forall>m. same_tables m (snd (xe_malloc X m))) \<and>
     (\<forall>b m. same_tables m (xe_free X b m)) \<and> (\<forall>m. same_tables m (xe_elf_clean X m)) \<and>
     (\<forall>m. same_tables m (xe_flush_dcache X m)) \<and>
     (\<forall>m v b. user_byte M (m_current m) m v = Some b \<longrightarrow> xe_user_bytes X m v = b)"

text \<open>
  A new thread can be made beside the threads \<open>ths\<close>: nobody waits for it, and the others stay as they are.
\<close>

definition thread_made :: "'h mmu kstate \<Rightarrow> addr \<Rightarrow> 'h mmu kstate \<Rightarrow> bool" where
  "thread_made s th s' \<longleftrightarrow> same_tables (k_mm s) (k_mm s') \<and> k_current s' = k_current s \<and> th \<noteq> k_current s \<and>
     (\<exists>c. k_tcbs s' th = Some c \<and> t_joinQueue c = []) \<and> (\<forall>u c. k_tcbs s u = Some c \<longrightarrow> k_tcbs s' u = Some c)"

definition thread_laws :: "'h mmu kenv \<Rightarrow> (addr \<rightharpoonup> tcb) \<Rightarrow> addr \<Rightarrow> bool" where
  "thread_laws E ths cur \<longleftrightarrow>
     (\<forall>f n b a s th s'. k_tcbs s = ths \<longrightarrow> k_current s = cur \<longrightarrow> ke_user_thread E f n b a s = (th, s') \<longrightarrow> thread_made s th s') \<and>
     (\<forall>s. same_tables (k_mm s) (k_mm (ke_thread_exit E s)))"

text \<open>At most one thread waits for the running thread, and it is one of the parent.\<close>

definition joiner_ok :: "(addr \<rightharpoonup> tcb) \<Rightarrow> tcb \<Rightarrow> addr \<Rightarrow> bool" where
  "joiner_ok ths c parent \<longleftrightarrow> (case t_joinQueue c of [] \<Rightarrow> True
     | w # ws \<Rightarrow> ws = [] \<and> (\<exists>wt. ths w = Some wt \<and> t_pcb wt = parent))"

section \<open>The steps of the call\<close>

lemma pcb_at_skel:
  assumes "same_procs s t" and "pcb_at s a = Some p"
  shows "\<exists>q. pcb_at t a = Some q \<and> p_pid q = p_pid p \<and> p_parent q = p_parent p"
proof -
  have m: "map_of (map (\<lambda>(a, p). (a, p_pid p, p_parent p)) ps) a = map_option (\<lambda>p. (p_pid p, p_parent p)) (map_of ps a)" for ps
    by (induction ps) auto
  have "map_option (\<lambda>p. (p_pid p, p_parent p)) (pcb_at t a) = map_option (\<lambda>p. (p_pid p, p_parent p)) (pcb_at s a)"
    unfolding pcb_at_def m[symmetric] using assms(1) by (simp add: same_procs_def skel_def)
  then show ?thesis using assms(2) by auto
qed

lemma start_image_returns:
  assumes laws: "thread_laws E (k_tcbs s) (k_current s)" and ok: "kenv_ok E" and p: "pcb_at s a = Some p"
    and c: "k_tcbs s (k_current s) = Some c" and join: "joiner_ok (k_tcbs s) c (p_parent p)"
  shows "\<exists>t. start_image E a s = Some t \<and> same_tables (k_mm s) (k_mm t)"
proof -
  obtain th s1 where u: "ke_user_thread E (p_bin_image_entry p) (p_name p) (ke_args_base E) a s = (th, s1)" by fastforce
  have th: "same_tables (k_mm s) (k_mm s1)" "k_current s1 = k_current s" "th \<noteq> k_current s"
    "\<exists>n. k_tcbs s1 th = Some n \<and> t_joinQueue n = []" "\<And>u tc. k_tcbs s u = Some tc \<Longrightarrow> k_tcbs s1 u = Some tc"
    using laws u unfolding thread_laws_def thread_made_def by blast+
  then obtain n where n: "k_tcbs s1 th = Some n" by blast
  have "same_procs s s1" using kenv_ok_frames(6)[OF ok, of s "p_bin_image_entry p" "p_name p" "ke_args_base E" a] u by simp
  then obtain p1 where p1: "pcb_at s1 a = Some p1" "p_parent p1 = p_parent p" using pcb_at_skel[OF _ p] by blast
  obtain s2 where s2: "upd_pcb a (\<lambda>p. p\<lparr>p_main_thread := th\<rparr>) s1 = Some s2" "k_mm s2 = k_mm s1" "same_kernel s1 s2"
    "pcb_at s2 a = Some (p1\<lparr>p_main_thread := th\<rparr>)" using upd_pcb_at[OF p1(1)] by blast
  have k: "k_tcbs s2 = k_tcbs s1" "k_current s2 = k_current s" using s2(3) th(2) by (simp_all add: same_kernel_def)
  obtain s3 f where s3: "move_joiner a th s2 = Some s3" "s3 = s2\<lparr>k_tcbs := f\<rparr>" "f (k_current s) \<noteq> None"
  proof (cases "t_joinQueue c")
    case Nil
    then have "move_joiner a th s2 = Some (s2\<lparr>k_tcbs := k_tcbs s2\<rparr>)" using th(5)[OF c] s2(4) by (simp add: move_joiner_def k)
    then show thesis using that[of "s2\<lparr>k_tcbs := k_tcbs s2\<rparr>" "k_tcbs s2"] th(5)[OF c] by (simp add: k)
  next
    case (Cons w ws)
    then obtain wt where w: "ws = []" "k_tcbs s w = Some wt" "t_pcb wt = p_parent p" using join by (auto simp: joiner_ok_def)
    let ?f = "(k_tcbs s1)(k_current s \<mapsto> c\<lparr>t_joinQueue := []\<rparr>, th \<mapsto> n\<lparr>t_joinQueue := w # t_joinQueue n\<rparr>)"
    have "move_joiner a th s2 = Some (s2\<lparr>k_tcbs := ?f\<rparr>)"
      using th(5)[OF c] th(5)[OF w(2)] s2(4) n Cons w p1(2) by (simp add: move_joiner_def k Let_def)
    then show thesis using that[of "s2\<lparr>k_tcbs := ?f\<rparr>" ?f] by simp
  qed
  then obtain c3 where c3: "k_tcbs s3 (k_current s3) = Some c3" by (auto simp: k)
  let ?t = "ke_thread_exit E (s3\<lparr>k_tcbs := (k_tcbs s3)(k_current s3 \<mapsto> c3\<lparr>t_pcb := NULL\<rparr>)\<rparr>)"
  have "start_image E a s = Some ?t" using p u s2(1) s3(1) c3 by (simp add: start_image_def Let_def)
  moreover have "same_tables (k_mm s) (k_mm ?t)"
  proof -
    have "same_tables (k_mm s3) (k_mm ?t)" using laws[unfolded thread_laws_def, THEN conjunct2, rule_format, of "s3\<lparr>k_tcbs := (k_tcbs s3)(k_current s3 \<mapsto> c3\<lparr>t_pcb := NULL\<rparr>)\<rparr>"] by simp
    then show ?thesis using th(1) s2(2) s3(2) same_tables_trans[of "k_mm s" "k_mm s3"] by simp
  qed
  ultimately show ?thesis by blast
qed

text \<open>The arguments lie in the first page above the stack, in the form that the C library of a program expects.\<close>

definition args_at :: "addr \<Rightarrow> (addr \<Rightarrow> u8) \<Rightarrow> string list \<Rightarrow> string list \<Rightarrow> bool" where
  "args_at base mem args env \<longleftrightarrow> (let page = \<lambda>i. mem (base + of_nat i) in
     read_word page 0 = of_nat (length args) \<and> strings_at 0x1000 base page 4 args \<and>
     strings_at 0x1000 base page (4 + 4 * length args) env \<and>
     read_word page (4 + 4 * length args + 4 * length env) = 0)"

lemma setup_memory:
  assumes fmt: "arm_format M" and laws: "heap_laws M owned used" and frees: "free_laws M E owned block"
    and loader: "loader_laws M X" and cur: "current_pcb s = Some a" and p: "pcb_at s a = Some p"
    and mal: "xe_malloc X (k_mm s) = (base, mm)" "base \<noteq> NULL" "unat base + 0x1000 < 2 ^ 32"
    and can: "can_take M E owned used block img (p_pgtable p) mm"
    and argv: "argv = Some args \<or> argv = None \<and> args = []"
    and fit: "args_size (arg_list (p_name p) args) (env_list envp) \<le> 0x1000"
  shows "\<exists>mem t. setup_proc_image_replace (with_mmu M E) X img a (length args) argv envp s = Some (mem, t) \<and>
    k_tcbs t = k_tcbs s \<and> k_current t = k_current s \<and> m_current (k_mm t) = m_current (k_mm s) \<and>
    (\<forall>v. i1 v < user_end M \<longrightarrow> (translate M (p_pgtable p) (k_mm t) v \<noteq> None \<longleftrightarrow>
       (\<exists>r \<in> set (image_runs E img). in_range (fst r) (snd r) v))) \<and>
    pages_apart M (p_pgtable p) (k_mm t) \<and> args_at (ke_args_base E) mem (arg_list (p_name p) args) (env_list envp) \<and>
    (\<forall>v b. 0x1000 \<le> unat (v - ke_args_base E) \<longrightarrow> user_byte M (m_current (k_mm t)) (k_mm t) v = Some b \<longrightarrow> mem v = b)"
proof -
  let ?E = "with_mmu M E" and ?xs = "arg_list (p_name p) args" and ?es = "env_list envp" and ?b = "ke_args_base E"
  have size: "ke_PAGE_SIZE ?E = 0x1000" using can by (simp add: can_take_def with_mmu_def)
  let ?s1 = "s\<lparr>k_mm := mm\<rparr>"
  have p1: "pcb_at ?s1 a = Some p" "k_mm ?s1 = mm" using p by simp_all
  obtain t where t: "new_image ?E img a ?s1 = Some t"
      "\<forall>v. i1 v < user_end M \<longrightarrow> (translate M (p_pgtable p) (k_mm t) v \<noteq> None \<longleftrightarrow>
         (\<exists>r \<in> set (image_runs E img). in_range (fst r) (snd r) v))"
      "pages_apart M (p_pgtable p) (k_mm t)" "m_current (k_mm t) = m_current mm" "same_kernel ?s1 t"
    using image_space[OF fmt laws frees p1(1), of img] can unfolding p1(2) by blast
  define old where "old = (\<lambda>i. xe_user_bytes X (k_mm t) (?b + of_nat i))"
  obtain m m' where pres: "preserve_args_and_env 0x1000 base (p_name p) (length args) argv envp = Some (Inr m)"
    and post: "post_setup_image 0x1000 base ?b m old = Some m'"
    and m': "read_word m' 0 = of_nat (length ?xs)" "strings_at 0x1000 ?b m' 4 ?xs"
      "strings_at 0x1000 ?b m' (4 + 4 * length ?xs) ?es"
      "read_word m' (4 + 4 * length ?xs + 4 * length ?es) = 0" "\<forall>b \<ge> 0x1000. m' b = old b"
    using args_roundtrip[OF fit mal(3) argv, of ?b old] by blast
  let ?mem = "\<lambda>v. m' (unat (v - ?b))" and ?t = "t\<lparr>k_mm := xe_free X base (k_mm t)\<rparr>"
  have save: "save_args ?E X (p_name p) (length args) argv envp s = Some (Some (base, m), ?s1)"
    using mal(1,2) pres argv by (auto simp: save_args_def size)
  have stp: "setup_proc_image_replace ?E X img a (length args) argv envp s = Some (?mem, ?t)"
    using cur p save t(1) post by (simp add: setup_proc_image_replace_def Let_def size old_def)
  have fr: "same_tables (k_mm t) (k_mm ?t)" using loader by (simp add: loader_laws_def)
  have ml: "same_tables (k_mm s) mm" using loader mal(1) unfolding loader_laws_def by (metis snd_conv)
  have size_le: "4 + 4 * length ?xs + 4 * (length ?es + 1) \<le> 0x1000"
    using fit str_off_ge[of "strings_start ?xs ?es" "?xs @ ?es"] unfolding args_size_def strings_start_def by (meson le_trans)
  have page: "?mem (?b + of_nat i) = m' i" if "i < 0x1000" for i using unat_of_nat_u32[of i] that by simp
  have "args_at ?b ?mem ?xs ?es" unfolding args_at_def Let_def
    by (rule args_page_cong[OF _ size_le page]) (use m' in blast)+
  moreover have "?mem v = b" if "0x1000 \<le> unat (v - ?b)" "user_byte M (m_current (k_mm ?t)) (k_mm ?t) v = Some b" for v b
  proof -
    have "user_byte M (m_current (k_mm t)) (k_mm t) v = Some b" using that(2) unfolding same_tables_views[OF fr] .
    then have "xe_user_bytes X (k_mm t) v = b" using loader unfolding loader_laws_def by blast
    then show ?thesis using m'(5) that(1) by (simp add: old_def)
  qed
  moreover have "k_tcbs ?t = k_tcbs s" "k_current ?t = k_current s" using t(5) by (simp_all add: same_kernel_def)
  moreover have "m_current (k_mm ?t) = m_current (k_mm s)"
    unfolding same_tables_views(3)[OF fr] t(4) same_tables_views(3)[OF ml] ..
  moreover have "pages_apart M (p_pgtable p) (k_mm ?t)" using t(3) unfolding same_tables_views[OF fr] .
  moreover have "\<forall>v. i1 v < user_end M \<longrightarrow> (translate M (p_pgtable p) (k_mm ?t) v \<noteq> None \<longleftrightarrow>
         (\<exists>r \<in> set (image_runs E img). in_range (fst r) (snd r) v))" using t(2) unfolding same_tables_views[OF fr] .
  ultimately show ?thesis using stp by blast
qed

text \<open>The page of the arguments, stored through the page tables.\<close>

lemma page_stores:
  assumes cur: "m_current m0 = root" and ap: "pages_apart M root m0"
    and base: "run_ok M (b, 1)" "\<And>v. in_range b 1 v \<Longrightarrow> translate M root m0 v \<noteq> None"
    and mem: "\<And>v c. i1 v < user_end M \<Longrightarrow> 0x1000 \<le> unat (v - b) \<Longrightarrow> user_byte M root m0 v = Some c \<Longrightarrow> mem v = c"
  shows "\<exists>m. put_bytes (store_byte M) (\<lambda>i. mem (b + of_nat i)) b 0x1000 m0 = Some m \<and>
    m_current m = root \<and> pages_apart M root m \<and> translate M root m = translate M root m0 \<and>
    (\<forall>v c. i1 v < user_end M \<longrightarrow> user_byte M root m v = Some c \<longrightarrow> mem v = c)"
proof -
  define T where "T = translate M root m0"
  let ?good = "\<lambda>m. m_current m = root \<and> pages_apart M root m \<and> translate M root m = T" and ?view = "\<lambda>m v. m_phys m (the (T v))"
  have start: "shows_mem ?good ?view (user_mapped M T) m0 (?view m0)" using cur ap by (simp add: shows_mem_def T_def)
  have "b + of_nat k \<in> user_mapped M T" if k: "k < 0x1000" for k
  proof -
    have "user_end M \<le> 4095" using i1_less[of "me_KERNEL_VADDR M"] by linarith
    then have "unat b + k < 2 ^ 32" using base(1) k by (simp add: run_ok_def)
    then have "unat (b + of_nat k) = unat b + k" using unat_of_nat_u32[of k] k by (simp add: unat_word_ariths unsigned_of_nat)
    then have "in_range b 1 (b + of_nat k)" using k by (simp add: in_range_def)
    then show ?thesis using base run_user[OF base(1)] unfolding user_mapped_def T_def by simp
  qed
  then obtain m where m: "put_bytes (store_byte M) (\<lambda>i. mem (b + of_nat i)) b 0x1000 m0 = Some m"
      "shows_mem ?good ?view (user_mapped M T) m (\<lambda>a. if unat (a - b) < 0x1000 then mem (b + of_nat (unat (a - b))) else ?view m0 a)"
    using mapped_pages.put_bytes_shows[OF start, of "0x1000" b "\<lambda>i. mem (b + of_nat i)"] by auto
  have g: "m_current m = root" "pages_apart M root m" "translate M root m = T" using m(2) unfolding shows_mem_def by blast+
  have "mem v = c" if v: "i1 v < user_end M" "user_byte M root m v = Some c" for v c
  proof -
    have d: "v \<in> user_mapped M T" "c = ?view m v" using v by (auto simp: user_byte_def g user_mapped_def)
    then have c: "c = (if unat (v - b) < 0x1000 then mem (b + of_nat (unat (v - b))) else ?view m0 v)"
      using m(2) unfolding shows_mem_def by simp
    show ?thesis
    proof (cases "unat (v - b) < 0x1000")
      case False
      have "user_byte M root m0 v = Some (?view m0 v)" using d(1) by (auto simp: user_byte_def user_mapped_def T_def)
      then show ?thesis using mem[OF v(1)] False c by simp
    qed (use c in simp)
  qed
  then show ?thesis using m(1) g unfolding T_def by blast
qed

section \<open>The whole call\<close>

text \<open>What \<open>do_execve\<close> finds: the file, a page for the arguments, and an address space that can be replaced.\<close>

definition execve_ready :: "'h mmu_env \<Rightarrow> 'h mmu kenv \<Rightarrow> 'h mmu xenv \<Rightarrow> ('h \<Rightarrow> addr set) \<Rightarrow> ('h \<Rightarrow> addr set) \<Rightarrow>
    ('h \<Rightarrow> addr \<Rightarrow> addr set) \<Rightarrow> string \<Rightarrow> elf_img_info \<Rightarrow> addr \<Rightarrow> 'h mmu \<Rightarrow> bool" where
  "execve_ready M E X owned used block fn img root m \<longleftrightarrow> m_current m = root \<and> length fn < PROC_NAME_LEN \<and>
     (case xe_elf_load X fn m of (i, m1) \<Rightarrow> i = Some img \<and>
        (case xe_malloc X m1 of (base, m2) \<Rightarrow> base \<noteq> NULL \<and> unat base + 0x1000 < 2 ^ 32 \<and>
           can_take M E owned used block img root m2)) \<and>
     (\<forall>sec v. loaded_section X img sec \<longrightarrow> covers sec v \<longrightarrow> in_range (e_entry img) (unat (segment_page_count img)) v)"

lemma do_execve_returns:
  assumes fmt: "arm_format M" and laws: "heap_laws M owned used" and frees: "free_laws M E owned block"
    and ok: "kenv_ok E" and loader: "loader_laws M X" and threads: "thread_laws E (k_tcbs s) (k_current s)"
    and cur: "k_tcbs s (k_current s) = Some c" "pcb_at s (t_pcb c) = Some p" "k_current s = p_main_thread p"
    and join: "joiner_ok (k_tcbs s) c (p_parent p)"
    and ready: "execve_ready M E X owned used block fn img (p_pgtable p) (k_mm s)"
    and argv: "argv = Some args \<or> argv = None \<and> args = []"
    and fit: "args_size (arg_list fn args) (env_list envp) \<le> 0x1000"
  shows "\<exists>mem t. do_execve (with_mmu M E) X fn argv envp s = Some (0, Some (load_process X img mem), t) \<and>
    m_current (k_mm t) = p_pgtable p \<and>
    (\<forall>v. i1 v < user_end M \<longrightarrow> (translate M (p_pgtable p) (k_mm t) v \<noteq> None \<longleftrightarrow>
       (\<exists>r \<in> set (image_runs E img). in_range (fst r) (snd r) v))) \<and>
    pages_apart M (p_pgtable p) (k_mm t) \<and> args_at (ke_args_base E) mem (arg_list fn args) (env_list envp) \<and>
    (\<forall>v b. 0x1000 \<le> unat (v - ke_args_base E) \<longrightarrow> user_byte M (p_pgtable p) (k_mm t) v = Some b \<longrightarrow> mem v = b)"
proof -
  let ?E = "with_mmu M E" and ?a = "t_pcb c" and ?r = "p_pgtable p"
  obtain mm base m2 where elf: "xe_elf_load X fn (k_mm s) = (Some img, mm)"
    and mal: "xe_malloc X mm = (base, m2)" "base \<noteq> NULL" "unat base + 0x1000 < 2 ^ 32"
    and can: "can_take M E owned used block img ?r m2" and root: "m_current (k_mm s) = ?r" and name: "length fn < PROC_NAME_LEN"
    using ready unfolding execve_ready_def by (auto split: prod.splits)
  have at: "pcb_at (s\<lparr>k_irq_disabled := True\<rparr>) ?a = Some p" using cur(2) by simp
  obtain s1 where s1: "upd_pcb ?a (\<lambda>p. p\<lparr>p_name := fn\<rparr>) (s\<lparr>k_irq_disabled := True\<rparr>) = Some s1" "k_mm s1 = k_mm s"
      "same_kernel (s\<lparr>k_irq_disabled := True\<rparr>) s1" "pcb_at s1 ?a = Some (p\<lparr>p_name := fn\<rparr>)"
    using upd_pcb_at[OF at] by fastforce
  let ?s1 = "s1\<lparr>k_mm := mm\<rparr>" and ?p = "p\<lparr>p_name := fn\<rparr>"
  have k1: "k_tcbs ?s1 = k_tcbs s" "k_current ?s1 = k_current s" using s1(3) by (simp_all add: same_kernel_def)
  have c1: "current_pcb ?s1 = Some ?a" using cur(1) k1 by (simp add: current_pcb_def)
  have p1: "pcb_at ?s1 ?a = Some ?p" using s1(4) by simp
  have mal1: "xe_malloc X (k_mm ?s1) = (base, m2)" using mal(1) by simp
  have can1: "can_take M E owned used block img (p_pgtable ?p) m2" using can by simp
  have fit1: "args_size (arg_list (p_name ?p) args) (env_list envp) \<le> 0x1000" using fit by simp
  obtain mem s2 where s2: "setup_proc_image_replace ?E X img ?a (length args) argv envp ?s1 = Some (mem, s2)"
      "k_tcbs s2 = k_tcbs ?s1" "k_current s2 = k_current ?s1" "m_current (k_mm s2) = m_current (k_mm ?s1)"
    and dom: "\<forall>v. i1 v < user_end M \<longrightarrow> (translate M (p_pgtable ?p) (k_mm s2) v \<noteq> None \<longleftrightarrow>
       (\<exists>r \<in> set (image_runs E img). in_range (fst r) (snd r) v))"
    and ap: "pages_apart M (p_pgtable ?p) (k_mm s2)"
    and as: "args_at (ke_args_base E) mem (arg_list (p_name ?p) args) (env_list envp)"
    and rest: "\<forall>v b. 0x1000 \<le> unat (v - ke_args_base E) \<longrightarrow> user_byte M (m_current (k_mm s2)) (k_mm s2) v = Some b \<longrightarrow> mem v = b"
    using setup_memory[OF fmt laws frees loader c1 p1 mal1 mal(2,3) can1 argv fit1] by blast
  obtain q where q: "pcb_at s2 ?a = Some q" "p_parent q = p_parent ?p"
    using exec_image_layout[OF s2(1) p1] by blast
  let ?s2 = "s2\<lparr>k_mm := xe_elf_clean X (xe_flush_dcache X (k_mm s2))\<rparr>"
  have q2: "pcb_at ?s2 ?a = Some q" using q(1) by simp
  have c2: "k_tcbs ?s2 (k_current ?s2) = Some c" using s2(2,3) k1 cur(1) by simp
  have j2: "joiner_ok (k_tcbs ?s2) c (p_parent q)" using join s2(2) k1(1) q(2) by simp
  have th: "thread_laws ?E (k_tcbs ?s2) (k_current ?s2)" "kenv_ok ?E"
    using threads with_mmu_ok[OF ok] s2(2,3) k1 by (simp_all add: thread_laws_def)
  obtain t where t: "start_image ?E ?a ?s2 = Some t" "same_tables (k_mm ?s2) (k_mm t)"
    using start_image_returns[OF th q2 c2 j2] by blast
  have count: "count_args argv = length args" using argv by (auto simp: count_args_def)
  have run: "do_execve ?E X fn argv envp s = Some (0, Some (load_process X img mem), t)"
    using cur s1(1,2) elf s2(1) t(1) name by (simp add: do_execve_def current_pcb_def local_irq_save_def set_name_def count Let_def)
  have fr: "same_tables (k_mm s2) (k_mm t)"
  proof -
    have "same_tables (k_mm s2) (k_mm ?s2)" using loader same_tables_trans unfolding loader_laws_def by simp blast
    then show ?thesis using t(2) by (rule same_tables_trans)
  qed
  have "same_tables (k_mm s) mm" using loader elf unfolding loader_laws_def by (metis snd_conv)
  then have cr: "m_current (k_mm s2) = ?r" using s2(4) root by (simp add: same_tables_def)
  have f: "p_pgtable ?p = ?r" "p_name ?p = fn" by simp_all
  note fin = dom[unfolded f] ap[unfolded f] as[unfolded f] rest[unfolded cr]
  show ?thesis by (intro exI[of _ mem] exI[of _ t] conjI) (use run fin cr in \<open>simp_all only: same_tables_views[OF fr]\<close>)
qed

text \<open>
  C14. execve replaces the memory of a process: with a file that loads, arguments that fit into a page, and frames, blocks and
  nodes enough, \<open>do_execve\<close> over the page tables of \<open>mmu.c\<close> returns 0; afterwards the user addresses that have a translation
  are exactly those of the stack, the segments, the heap and the page of the arguments, no frame lies under
  two pages, and storing the page of the arguments and then the sections byte by byte through the tables never
  faults and leaves at every mapped address the byte of the new image, the old program being gone.
\<close>

theorem execve_replaces_memory:
  assumes fmt: "arm_format M" and laws: "heap_laws M owned used" and frees: "free_laws M E owned block"
    and ok: "kenv_ok E" and loader: "loader_laws M X" and threads: "thread_laws E (k_tcbs s) (k_current s)"
    and cur: "k_tcbs s (k_current s) = Some c" "pcb_at s (t_pcb c) = Some p" "k_current s = p_main_thread p"
    and join: "joiner_ok (k_tcbs s) c (p_parent p)"
    and ready: "execve_ready M E X owned used block fn img (p_pgtable p) (k_mm s)"
    and argv: "argv = Some args \<or> argv = None \<and> args = []"
    and fit: "args_size (arg_list fn args) (env_list envp) \<le> 0x1000"
  defines "held \<equiv> \<lambda>v. \<exists>r \<in> set (image_runs E img). in_range (fst r) (snd r) v"
  shows "\<exists>mem t page m1 m2. do_execve (with_mmu M E) X fn argv envp s = Some (0, Some mem, t) \<and>
    (\<forall>v. i1 v < user_end M \<longrightarrow> (translate M (p_pgtable p) (k_mm t) v \<noteq> None \<longleftrightarrow> held v)) \<and>
    (\<forall>v w x y. i1 v < user_end M \<longrightarrow> i1 w < user_end M \<longrightarrow> translate M (p_pgtable p) (k_mm t) v = Some x \<longrightarrow>
       translate M (p_pgtable p) (k_mm t) w = Some y \<longrightarrow> frame_of x = frame_of y \<longrightarrow> frame_of v = frame_of w) \<and>
    args_at (ke_args_base E) page (arg_list fn args) (env_list envp) \<and>
    put_bytes (store_byte M) (\<lambda>i. page (ke_args_base E + of_nat i)) (ke_args_base E) 0x1000 (k_mm t) = Some m1 \<and>
    store_process (store_byte M) X img m1 = Some m2 \<and>
    (\<forall>v. i1 v < user_end M \<longrightarrow> user_byte M (p_pgtable p) m2 v = (if held v then Some (mem v) else None))"
proof -
  let ?r = "p_pgtable p" and ?b = "ke_args_base E"
  obtain mem t where run: "do_execve (with_mmu M E) X fn argv envp s = Some (0, Some (load_process X img mem), t)"
    and c: "m_current (k_mm t) = ?r" and dom: "\<And>v. i1 v < user_end M \<Longrightarrow> translate M ?r (k_mm t) v \<noteq> None \<longleftrightarrow> held v"
    and ap: "pages_apart M ?r (k_mm t)" and page: "args_at ?b mem (arg_list fn args) (env_list envp)"
    and rest: "\<And>v b. 0x1000 \<le> unat (v - ?b) \<Longrightarrow> user_byte M ?r (k_mm t) v = Some b \<Longrightarrow> mem v = b"
    using do_execve_returns[OF fmt laws frees ok loader threads cur join ready argv fit] unfolding held_def by blast
  have runs: "\<forall>r \<in> set (image_runs E img). run_ok M r"
    and secs: "\<forall>sec v. loaded_section X img sec \<longrightarrow> covers sec v \<longrightarrow> in_range (e_entry img) (unat (segment_page_count img)) v"
    using ready unfolding execve_ready_def can_take_def by (auto split: prod.splits)
  have argrun: "(?b, 1) \<in> set (image_runs E img)" by (simp add: image_runs_def)
  then have b: "run_ok M (?b, 1)" using runs by blast
  have mb: "translate M ?r (k_mm t) v \<noteq> None" if "in_range ?b 1 v" for v
    using that run_user[OF b] dom[of v] argrun unfolding held_def by fastforce
  obtain m1 where m1: "put_bytes (store_byte M) (\<lambda>i. mem (?b + of_nat i)) ?b 0x1000 (k_mm t) = Some m1"
      "m_current m1 = ?r" "pages_apart M ?r m1" "translate M ?r m1 = translate M ?r (k_mm t)"
    and m1v: "\<And>v c. i1 v < user_end M \<Longrightarrow> user_byte M ?r m1 v = Some c \<Longrightarrow> mem v = c"
    using page_stores[OF c ap b mb, of mem] rest by blast
  obtain m2 where "store_process (store_byte M) X img m1 = Some m2"
    "\<forall>v. i1 v < user_end M \<longrightarrow> user_byte M ?r m2 v = (if held v then Some (load_process X img mem v) else None)"
    using image_stores[OF m1(2,3) runs _ secs, of mem] dom m1v unfolding held_def m1(4) by blast
  then show ?thesis using run dom ap[unfolded pages_apart_def] page m1(1) by blast
qed

section \<open>A concrete call\<close>

definition run_env :: "sim_heap mmu kenv" where
  "run_env = fork_env\<lparr>ke_user_thread := (\<lambda>f n b a s. (0x301, s\<lparr>k_tcbs := (k_tcbs s)(0x301 \<mapsto> sim_tcb n a)\<rparr>))\<rparr>"

definition load_env :: "sim_heap mmu xenv" where
  "load_env = \<lparr>xe_elf_load = (\<lambda>f m. (if f = ''ls.elf'' then Some sim_img else None, m)),
     xe_elf_clean = id, xe_malloc = (\<lambda>m. (0x20000, m)), xe_free = (\<lambda>a m. m),
     xe_user_bytes = (\<lambda>m v. case user_byte sim_arm (m_current m) m v of None \<Rightarrow> 0 | Some b \<Rightarrow> b), xe_flush_dcache = id,
     xe_PT_LOAD = 1, xe_SHT_NOBITS = 8, xe_ENOENT = 2, xe_EINVAL = 22\<rparr>"

lemma run_env_laws:
  "kenv_ok run_env" "free_laws sim_arm run_env sim_owned (\<lambda>h t. {})" "loader_laws sim_arm load_env"
  "thread_laws run_env (k_tcbs fork_start) (k_current fork_start)"
proof -
  show "kenv_ok run_env" using fork_env_ok(1)
    by (simp add: kenv_ok_def run_env_def same_core_def core_view_def)
  show "free_laws sim_arm run_env sim_owned (\<lambda>h t. {})" using sim_free_laws by (simp add: free_laws_def run_env_def)
  show "loader_laws sim_arm load_env" by (simp add: loader_laws_def load_env_def same_tables_def)
  show "thread_laws run_env (k_tcbs fork_start) (k_current fork_start)"
    by (auto simp: thread_laws_def run_env_def thread_made_def same_tables_def fork_env_def fork_start_def sim_tcb_def)
qed

lemma load_env_section: "loaded_section load_env sim_img sec \<longleftrightarrow> sec = sim_text"
  using sim_loaded[of sec] by (simp add: loaded_section_def load_env_def sim_xenv_def)

lemma text_in_segment:
  assumes "covers sim_text v"
  shows "in_range (e_entry sim_img) (unat (segment_page_count sim_img)) v"
proof -
  have "unat (v - 0x1000) < 8" using assms by (simp add: covers_def sim_text_def word_less_nat_alt)
  moreover have "unat (0x1000 + (v - 0x1000)) = 0x1000 + unat (v - 0x1000)"
    using unat_of_nat_u32[of "0x1000 + unat (v - 0x1000)"] calculation by simp
  ultimately show ?thesis by (simp add: in_range_def sim_img_def)
qed

lemma run_env_sizes: "image_runs run_env sim_img = image_runs fork_env sim_img" "ke_PAGE_SIZE run_env = ke_PAGE_SIZE fork_env"
  by (simp_all add: image_runs_def stack_pages_def heap_pages_def run_env_def)

lemma sim_execve_ready:
  "execve_ready sim_arm run_env load_env sim_owned sim_used (\<lambda>h t. {}) ''ls.elf'' sim_img 0x10000 sim_parent"
proof -
  have "can_take sim_arm run_env sim_owned sim_used (\<lambda>h t. {}) sim_img 0x10000 sim_parent"
    using sim_can_take by (simp add: can_take_def run_env_sizes)
  then show ?thesis using fork_start_pcb(4)
    by (simp add: execve_ready_def load_env_section text_in_segment) (simp add: load_env_def PROC_NAME_LEN_def)
qed

theorem execve_replaces_memory_witness:
  "\<exists>mem t. do_execve (with_mmu sim_arm run_env) load_env ''ls.elf'' (Some [''ls'', ''-l'']) None fork_start = Some (0, Some mem, t) \<and>
    translate sim_arm 0x10000 (k_mm t) 0x1000 \<noteq> None \<and> translate sim_arm 0x10000 (k_mm t) 0x8000 \<noteq> None \<and>
    translate sim_arm 0x10000 (k_mm t) 0x2000 = None"
proof -
  have cur: "k_tcbs fork_start (k_current fork_start) = Some (sim_tcb ''sh'' 1)" "t_pcb (sim_tcb ''sh'' 1) = 1"
    "k_current fork_start = p_main_thread fork_parent"
    by (simp_all add: fork_start_def sim_tcb_def fork_parent_def sim_pcb_def)
  have pcb: "pcb_at fork_start (t_pcb (sim_tcb ''sh'' 1)) = Some fork_parent" using fork_start_pcb(1) cur(2) by simp
  have join: "joiner_ok (k_tcbs fork_start) (sim_tcb ''sh'' 1) (p_parent fork_parent)" by (simp add: joiner_ok_def sim_tcb_def)
  have argv: "Some [''ls'', ''-l''] = Some [''ls'', ''-l''] \<or> Some [''ls'', ''-l''] = None \<and> [''ls'', ''-l''] = []" by simp
  have fit: "args_size (arg_list ''ls.elf'' [''ls'', ''-l'']) (env_list None) \<le> 0x1000"
    by (simp add: args_size_def strings_start_def str_off_def env_list_def arg_list_def)
  obtain mem t where t: "do_execve (with_mmu sim_arm run_env) load_env ''ls.elf'' (Some [''ls'', ''-l'']) None fork_start
        = Some (0, Some mem, t)"
    and dom: "\<forall>v. i1 v < user_end sim_arm \<longrightarrow> (translate sim_arm 0x10000 (k_mm t) v \<noteq> None \<longleftrightarrow>
       (\<exists>r \<in> set (image_runs run_env sim_img). in_range (fst r) (snd r) v))"
    using execve_replaces_memory[OF sim_arm_format sim_heap_laws run_env_laws(2,1,3,4) cur(1) pcb cur(3) join
        sim_execve_ready[folded fork_start_pcb(2,3)] argv fit] unfolding fork_start_pcb(2) by blast
  have u: "i1 0x1000 < user_end sim_arm" "i1 0x8000 < user_end sim_arm" "i1 0x2000 < user_end sim_arm" by (simp_all add: sim_user)
  show ?thesis
    using t dom[rule_format, OF u(1)] dom[rule_format, OF u(2)] dom[rule_format, OF u(3)]
    by (intro exI[of _ mem] exI[of _ t]) (simp add: run_env_sizes sim_runs in_range_def)
qed

end
