(* ===== verification/Ipc.thy ===== *)
theory Ipc
  imports CLib "HOL-Library.Monad_Syntax"
begin

text \<open>
  The pipes between the game manager and the player of the tic-tac-toe game, \<open>l3-ipc/usr/src/tictactoe_ipc.c\<close>.
\<close>

section \<open>Pipes\<close>

text \<open>
  The calls of the system on the state \<open>'p\<close> of its pipes: \<open>pipe\<close> (its two descriptors), \<open>read\<close> of a
  command (\<open>None\<close> while the pipe is empty; the number of bytes, and the command), \<open>write\<close> of a command,
  \<open>close\<close>. To state what they promise: the commands waiting at a descriptor, and the reading
  end of a writing one.
\<close>

record 'p pipe_env =
  pe_pipe :: "'p \<Rightarrow> int \<times> int \<times> 'p"
  pe_read :: "int \<Rightarrow> 'p \<Rightarrow> (int \<times> int \<times> 'p) option"
  pe_write :: "int \<Rightarrow> int \<Rightarrow> 'p \<Rightarrow> int \<times> 'p"
  pe_close :: "int \<Rightarrow> 'p \<Rightarrow> 'p"
  pe_waiting :: "'p \<Rightarrow> int \<Rightarrow> int list"
  pe_reader :: "'p \<Rightarrow> int \<Rightarrow> int option"

text \<open>\<open>sye_ipc_t\<close>.\<close>

record ipc =
  gm_recv :: int
  gm_send :: int
  player_recv :: int
  player_send :: int

definition ipc_zero :: ipc where
  "ipc_zero = \<lparr>gm_recv = 0, gm_send = 0, player_recv = 0, player_send = 0\<rparr>"

section \<open>Operations\<close>

definition ipc_init :: "'p pipe_env \<Rightarrow> ipc \<Rightarrow> 'p \<Rightarrow> ipc \<times> 'p" where
  "ipc_init E i p =
     (let (r1, w1, p1) = pe_pipe E p;
          i1 = i\<lparr>gm_recv := r1, player_send := w1\<rparr>;
          (r2, w2, p2) = pe_pipe E p1
      in (i1\<lparr>player_recv := r2, gm_send := w2\<rparr>, p2))"

definition ipc_init_child :: "string list \<Rightarrow> ipc \<Rightarrow> ipc option" where
  "ipc_init_child argv i =
     (if length argv < 3 then None
      else Some (i\<lparr>player_recv := atoi (argv ! 1), player_send := atoi (argv ! 2)\<rparr>))"

definition ipc_close :: "'p pipe_env \<Rightarrow> ipc \<Rightarrow> 'p \<Rightarrow> 'p" where
  "ipc_close E i p = pe_close E (player_send i) (pe_close E (player_recv i) (pe_close E (gm_send i) (pe_close E (gm_recv i) p)))"

text \<open>
  Receiving a command. \<open>garbage\<close> is what the variable holds before the call; a \<open>read\<close> that gives no
  byte (the end of the pipe) leaves it there.
\<close>

definition get_cmd :: "'p pipe_env \<Rightarrow> int \<Rightarrow> int \<Rightarrow> 'p \<Rightarrow> (int \<times> 'p) option" where
  "get_cmd E garbage fd p = (case pe_read E fd p of
     None \<Rightarrow> None
   | Some (n, c, p') \<Rightarrow> Some (if n \<noteq> - 1 then (if n = 0 then garbage else c) else - 1, p'))"

definition send_cmd :: "'p pipe_env \<Rightarrow> int \<Rightarrow> int \<Rightarrow> 'p \<Rightarrow> int \<times> 'p" where
  "send_cmd E fd c p = (case pe_write E fd c p of (n, p') \<Rightarrow> (if n \<noteq> - 1 then 0 else - 1, p'))"

definition gm_get_cmd :: "'p pipe_env \<Rightarrow> int \<Rightarrow> ipc \<Rightarrow> 'p \<Rightarrow> (int \<times> 'p) option" where
  "gm_get_cmd E garbage i p = get_cmd E garbage (gm_recv i) p"

definition gm_send_cmd :: "'p pipe_env \<Rightarrow> int \<Rightarrow> ipc \<Rightarrow> 'p \<Rightarrow> int \<times> 'p" where
  "gm_send_cmd E c i p = send_cmd E (gm_send i) c p"

definition player_get_cmd :: "'p pipe_env \<Rightarrow> int \<Rightarrow> ipc \<Rightarrow> 'p \<Rightarrow> (int \<times> 'p) option" where
  "player_get_cmd E garbage i p = get_cmd E garbage (player_recv i) p"

definition player_send_cmd :: "'p pipe_env \<Rightarrow> int \<Rightarrow> ipc \<Rightarrow> 'p \<Rightarrow> int \<times> 'p" where
  "player_send_cmd E c i p = send_cmd E (player_send i) c p"

definition ipc_player_argv1 :: "ipc \<Rightarrow> int" where "ipc_player_argv1 i = player_recv i"
definition ipc_player_argv2 :: "ipc \<Rightarrow> int" where "ipc_player_argv2 i = player_send i"

section \<open>What pipes promise\<close>

definition pipe_laws :: "'p pipe_env \<Rightarrow> bool" where
  "pipe_laws E \<longleftrightarrow>
     (\<forall>p r w p'. pe_pipe E p = (r, w, p') \<longrightarrow> r \<noteq> w \<and> pe_waiting E p' r = [] \<and> pe_reader E p' = (pe_reader E p)(w \<mapsto> r) \<and>
        pe_reader E p w = None \<and> r \<notin> ran (pe_reader E p) \<and> (\<forall>fd. fd \<noteq> r \<longrightarrow> pe_waiting E p' fd = pe_waiting E p fd)) \<and>
     (\<forall>p w r c. pe_reader E p w = Some r \<longrightarrow> (\<exists>p'. pe_write E w c p = (4, p') \<and> pe_reader E p' = pe_reader E p \<and>
        pe_waiting E p' = (pe_waiting E p)(r := pe_waiting E p r @ [c]))) \<and>
     (\<forall>p r c cs. pe_waiting E p r = c # cs \<longrightarrow> (\<exists>p'. pe_read E r p = Some (4, c, p') \<and> pe_reader E p' = pe_reader E p \<and>
        pe_waiting E p' = (pe_waiting E p)(r := cs)))"

lemma pipe_lawsD:
  assumes "pipe_laws E"
  shows "pe_pipe E p = (r, w, p') \<Longrightarrow> pe_waiting E p' r = []"
    and "pe_pipe E p = (r, w, p') \<Longrightarrow> pe_reader E p' = (pe_reader E p)(w \<mapsto> r)"
    and "pe_pipe E p = (r, w, p') \<Longrightarrow> pe_reader E p w = None"
    and "pe_pipe E p = (r, w, p') \<Longrightarrow> r \<notin> ran (pe_reader E p)"
    and "pe_pipe E p = (r, w, p') \<Longrightarrow> fd \<noteq> r \<Longrightarrow> pe_waiting E p' fd = pe_waiting E p fd"
    and "pe_reader E p w = Some r \<Longrightarrow> \<exists>p'. pe_write E w c p = (4, p') \<and> pe_reader E p' = pe_reader E p \<and>
        pe_waiting E p' = (pe_waiting E p)(r := pe_waiting E p r @ [c])"
    and "pe_waiting E p r = c # cs \<Longrightarrow> \<exists>p'. pe_read E r p = Some (4, c, p') \<and> pe_reader E p' = pe_reader E p \<and>
        pe_waiting E p' = (pe_waiting E p)(r := cs)"
  using assms unfolding pipe_laws_def by blast+

section \<open>Two channels\<close>

text \<open>
  The two pipes as the programs see them: the commands on their way to the player and those on their
  way to the game manager.
\<close>

definition channels :: "'p pipe_env \<Rightarrow> ipc \<Rightarrow> 'p \<Rightarrow> bool" where
  "channels E i p \<longleftrightarrow> pe_reader E p (gm_send i) = Some (player_recv i) \<and> pe_reader E p (player_send i) = Some (gm_recv i) \<and>
     player_recv i \<noteq> gm_recv i"

definition to_player :: "'p pipe_env \<Rightarrow> ipc \<Rightarrow> 'p \<Rightarrow> int list" where "to_player E i p = pe_waiting E p (player_recv i)"
definition to_gm :: "'p pipe_env \<Rightarrow> ipc \<Rightarrow> 'p \<Rightarrow> int list" where "to_gm E i p = pe_waiting E p (gm_recv i)"

lemma ipc_init_channels:
  assumes "pipe_laws E" "ipc_init E i p = (j, q)"
  shows "channels E j q" "to_player E j q = []" "to_gm E j q = []"
proof -
  obtain r1 w1 p1 where p1: "pe_pipe E p = (r1, w1, p1)" by (cases "pe_pipe E p")
  obtain r2 w2 p2 where p2: "pe_pipe E p1 = (r2, w2, p2)" by (cases "pe_pipe E p1")
  have j: "j = i\<lparr>gm_recv := r1, player_send := w1, player_recv := r2, gm_send := w2\<rparr>" and q: "q = p2"
    using assms(2) by (auto simp: ipc_init_def p1 p2)
  note d = pipe_lawsD[OF assms(1)]
  have rd: "pe_reader E p1 w1 = Some r1" using d(2)[OF p1] by simp
  have "r2 \<noteq> r1" using d(4)[OF p2] rd by (auto simp: ran_def)
  moreover have "w2 \<noteq> w1" using d(3)[OF p2] rd by auto
  ultimately show "channels E j q" "to_player E j q = []" "to_gm E j q = []"
    using d(1)[OF p1] d(1)[OF p2] d(2)[OF p2] d(5)[OF p2, of r1] rd
    by (simp_all add: channels_def to_player_def to_gm_def j q)
qed

text \<open>Sending the commands of a list one after the other, and receiving \<open>n\<close> commands.\<close>

definition send_each :: "(int \<Rightarrow> 'p \<Rightarrow> int \<times> 'p) \<Rightarrow> int list \<Rightarrow> 'p \<Rightarrow> 'p" where
  "send_each send cs p = fold (\<lambda>c p. snd (send c p)) cs p"

fun get_each :: "('p \<Rightarrow> (int \<times> 'p) option) \<Rightarrow> nat \<Rightarrow> 'p \<Rightarrow> (int list \<times> 'p) option" where
  "get_each get 0 p = Some ([], p)"
| "get_each get (Suc n) p = do { (c, q) \<leftarrow> get p; (cs, q') \<leftarrow> get_each get n q; Some (c # cs, q') }"

text \<open>The contract of one direction, with the queue of the other left alone.\<close>

locale channel =
  fixes inv :: "'p \<Rightarrow> bool" and queue :: "'p \<Rightarrow> int list" and other :: "'p \<Rightarrow> int list"
    and send :: "int \<Rightarrow> 'p \<Rightarrow> int \<times> 'p" and get :: "'p \<Rightarrow> (int \<times> 'p) option"
  assumes send: "inv p \<Longrightarrow> \<exists>q. send c p = (0, q) \<and> inv q \<and> queue q = queue p @ [c] \<and> other q = other p"
    and get: "inv p \<Longrightarrow> queue p = c # cs \<Longrightarrow> \<exists>q. get p = Some (c, q) \<and> inv q \<and> queue q = cs \<and> other q = other p"
begin

lemma send_each_queue: "inv p \<Longrightarrow> inv (send_each send cs p) \<and> queue (send_each send cs p) = queue p @ cs \<and>
    other (send_each send cs p) = other p"
proof (induction cs arbitrary: p)
  case (Cons c cs)
  obtain q where q: "send c p = (0, q)" "inv q" "queue q = queue p @ [c]" "other q = other p" using send[OF Cons.prems] by blast
  have "send_each send (c # cs) p = send_each send cs q" by (simp add: send_each_def q(1))
  then show ?case using Cons.IH[OF q(2)] q(3,4) by simp
qed (simp add: send_each_def)

lemma get_each_queue: "inv p \<Longrightarrow> queue p = cs @ ds \<Longrightarrow>
    \<exists>q. get_each get (length cs) p = Some (cs, q) \<and> inv q \<and> queue q = ds \<and> other q = other p"
proof (induction cs arbitrary: p)
  case (Cons c cs)
  obtain q where q: "get p = Some (c, q)" "inv q" "queue q = cs @ ds" "other q = other p"
    using get[OF Cons.prems(1)] Cons.prems(2) by fastforce
  then show ?case using Cons.IH[OF q(2,3)] by auto
qed simp

lemma arrives_in_order:
  assumes "inv p" "queue p = []"
  shows "\<exists>q. get_each get (length cs) (send_each send cs p) = Some (cs, q) \<and> inv q \<and> queue q = [] \<and> other q = other p"
  using send_each_queue[OF assms(1), of cs] get_each_queue[of "send_each send cs p" cs "[]"] assms(2) by auto

end

lemma channels_same:
  "channels E i p \<Longrightarrow> pe_reader E q = pe_reader E p \<Longrightarrow> channels E i q"
  by (simp add: channels_def)

lemma send_channel:
  assumes "pipe_laws E" "pe_reader E p w = Some r"
  shows "\<exists>q. send_cmd E w c p = (0, q) \<and> pe_reader E q = pe_reader E p \<and> pe_waiting E q = (pe_waiting E p)(r := pe_waiting E p r @ [c])"
  using pipe_lawsD(6)[OF assms, of c] by (auto simp: send_cmd_def)

lemma get_channel:
  assumes "pipe_laws E" "pe_waiting E p r = c # cs"
  shows "\<exists>q. get_cmd E g r p = Some (c, q) \<and> pe_reader E q = pe_reader E p \<and> pe_waiting E q = (pe_waiting E p)(r := cs)"
  using pipe_lawsD(7)[OF assms] by (auto simp: get_cmd_def)

interpretation gm_to_player: channel "\<lambda>p. pipe_laws E \<and> channels E i p" "to_player E i" "to_gm E i"
  "\<lambda>c. gm_send_cmd E c i" "player_get_cmd E g i"
proof
  fix p c assume p: "pipe_laws E \<and> channels E i p"
  then show "\<exists>q. gm_send_cmd E c i p = (0, q) \<and> (pipe_laws E \<and> channels E i q) \<and> to_player E i q = to_player E i p @ [c] \<and> to_gm E i q = to_gm E i p"
    using send_channel[of E p "gm_send i" "player_recv i" c] channels_same[of E i p]
    by (auto simp: gm_send_cmd_def to_player_def to_gm_def channels_def)
next
  fix p c cs assume p: "pipe_laws E \<and> channels E i p" "to_player E i p = c # cs"
  then show "\<exists>q. player_get_cmd E g i p = Some (c, q) \<and> (pipe_laws E \<and> channels E i q) \<and> to_player E i q = cs \<and> to_gm E i q = to_gm E i p"
    using get_channel[of E p "player_recv i" c cs g] channels_same[of E i p]
    by (auto simp: player_get_cmd_def to_player_def to_gm_def channels_def)
qed

interpretation player_to_gm: channel "\<lambda>p. pipe_laws E \<and> channels E i p" "to_gm E i" "to_player E i"
  "\<lambda>c. player_send_cmd E c i" "gm_get_cmd E g i"
proof
  fix p c assume p: "pipe_laws E \<and> channels E i p"
  then show "\<exists>q. player_send_cmd E c i p = (0, q) \<and> (pipe_laws E \<and> channels E i q) \<and> to_gm E i q = to_gm E i p @ [c] \<and> to_player E i q = to_player E i p"
    using send_channel[of E p "player_send i" "gm_recv i" c] channels_same[of E i p]
    by (auto simp: player_send_cmd_def to_player_def to_gm_def channels_def)
next
  fix p c cs assume p: "pipe_laws E \<and> channels E i p" "to_gm E i p = c # cs"
  then show "\<exists>q. gm_get_cmd E g i p = Some (c, q) \<and> (pipe_laws E \<and> channels E i q) \<and> to_gm E i q = cs \<and> to_player E i q = to_player E i p"
    using get_channel[of E p "gm_recv i" c cs g] channels_same[of E i p]
    by (auto simp: gm_get_cmd_def to_player_def to_gm_def channels_def)
qed

section \<open>The two programs\<close>

text \<open>The player gets its descriptors as decimal arguments.\<close>

lemma child_descriptors:
  "ipc_init_child [prog, show_int (ipc_player_argv1 i), show_int (ipc_player_argv2 i)] k =
     Some (k\<lparr>player_recv := player_recv i, player_send := player_send i\<rparr>)"
  using atoi_show_int[of "[]"] by (simp add: ipc_init_child_def ipc_player_argv1_def ipc_player_argv2_def)

text \<open>
  After \<open>ipc_init\<close>, a player started with the two descriptors as decimal arguments receives the commands
  of the game manager in the order they were sent, and the game manager those of the player, and neither
  direction disturbs the other.
\<close>

theorem commands_arrive_in_order:
  assumes "pipe_laws E" "ipc_init E i p = (gm, q)"
    and "ipc_init_child [prog, show_int (ipc_player_argv1 gm), show_int (ipc_player_argv2 gm)] ipc_zero = Some player"
  shows "\<exists>q1 q2.
    get_each (player_get_cmd E g player) (length cs) (send_each (\<lambda>c. gm_send_cmd E c gm) cs q) = Some (cs, q1) \<and>
    get_each (gm_get_cmd E g gm) (length ds) (send_each (\<lambda>c. player_send_cmd E c player) ds q1) = Some (ds, q2)"
proof -
  have player: "player = ipc_zero\<lparr>player_recv := player_recv gm, player_send := player_send gm\<rparr>"
    using assms(3) by (simp add: child_descriptors)
  then have same: "player_get_cmd E g player = player_get_cmd E g gm"
      "(\<lambda>c. player_send_cmd E c player) = (\<lambda>c. player_send_cmd E c gm)"
    by (auto simp: player_get_cmd_def player_send_cmd_def fun_eq_iff)
  note init = ipc_init_channels[OF assms(1,2)]
  obtain q1 where q1: "get_each (player_get_cmd E g gm) (length cs) (send_each (\<lambda>c. gm_send_cmd E c gm) cs q) = Some (cs, q1)"
      "channels E gm q1" "to_gm E gm q1 = []"
    using gm_to_player.arrives_in_order[of E gm q g cs] init assms(1) by auto
  obtain q2 where "get_each (gm_get_cmd E g gm) (length ds) (send_each (\<lambda>c. player_send_cmd E c gm) ds q1) = Some (ds, q2)"
    using player_to_gm.arrives_in_order[of E gm q1 g ds] q1(2,3) assms(1) by auto
  then show ?thesis using q1(1) unfolding same by blast
qed

section \<open>An instance\<close>

text \<open>A list of pipes; pipe \<open>k\<close> has the descriptors \<open>2 k\<close> and \<open>2 k + 1\<close>.\<close>

definition pipe_no :: "int \<Rightarrow> nat" where "pipe_no fd = nat fd div 2"

definition sim_pipes :: "int list list pipe_env" where
  "sim_pipes = \<lparr>
     pe_pipe = (\<lambda>p. (2 * int (length p), 2 * int (length p) + 1, p @ [[]])),
     pe_read = (\<lambda>fd p. if even fd \<and> 0 \<le> fd \<and> pipe_no fd < length p
        then (case p ! pipe_no fd of [] \<Rightarrow> None | c # cs \<Rightarrow> Some (4, c, p[pipe_no fd := cs])) else Some (- 1, 0, p)),
     pe_write = (\<lambda>fd c p. if odd fd \<and> 0 \<le> fd \<and> pipe_no fd < length p
        then (4, p[pipe_no fd := p ! pipe_no fd @ [c]]) else (- 1, p)),
     pe_close = (\<lambda>fd p. p),
     pe_waiting = (\<lambda>p fd. if even fd \<and> 0 \<le> fd \<and> pipe_no fd < length p then p ! pipe_no fd else []),
     pe_reader = (\<lambda>p fd. if odd fd \<and> 0 \<le> fd \<and> pipe_no fd < length p then Some (fd - 1) else None)\<rparr>"

lemma pipe_no_pair: "odd fd \<Longrightarrow> 0 \<le> fd \<Longrightarrow> pipe_no (fd - 1) = pipe_no fd"
  unfolding pipe_no_def by (elim oddE) (simp add: nat_add_distrib nat_mult_distrib)

lemma pipe_no_eq: "even fd \<Longrightarrow> even fd' \<Longrightarrow> 0 \<le> fd \<Longrightarrow> 0 \<le> fd' \<Longrightarrow> pipe_no fd = pipe_no fd' \<Longrightarrow> fd = fd'"
  unfolding pipe_no_def by (elim evenE) (auto simp: nat_mult_distrib)

lemma pipe_no_new: "pipe_no (2 * int n) = n" "pipe_no (2 * int n + 1) = n"
  by (simp_all add: pipe_no_def nat_mult_distrib nat_add_distrib)

lemma pipe_no_inverse: "0 \<le> fd \<Longrightarrow> fd = 2 * int (pipe_no fd) + (if odd fd then 1 else 0)"
  by (auto simp: pipe_no_def elim!: evenE oddE)

lemma sim_pipe_new:
  assumes "pe_pipe sim_pipes p = (r, w, p')"
  shows "r \<noteq> w \<and> pe_waiting sim_pipes p' r = [] \<and> pe_reader sim_pipes p' = (pe_reader sim_pipes p)(w \<mapsto> r) \<and>
    pe_reader sim_pipes p w = None \<and> r \<notin> ran (pe_reader sim_pipes p) \<and>
    (\<forall>fd. fd \<noteq> r \<longrightarrow> pe_waiting sim_pipes p' fd = pe_waiting sim_pipes p fd)"
proof (intro conjI allI impI)
  have d: "r = 2 * int (length p)" "w = 2 * int (length p) + 1" "p' = p @ [[]]"
    using assms by (simp_all add: sim_pipes_def)
  show "r \<noteq> w" by (simp add: d)
  show "pe_waiting sim_pipes p' r = []" by (simp add: sim_pipes_def d pipe_no_new)
  show "pe_reader sim_pipes p w = None" by (simp add: sim_pipes_def d pipe_no_new)
  have new: "fd = w" if "odd fd" "0 \<le> fd" "pipe_no fd = length p" for fd
    using pipe_no_inverse[OF that(2)] that by (simp add: d)
  show "pe_reader sim_pipes p' = (pe_reader sim_pipes p)(w \<mapsto> r)"
    by (rule ext) (auto simp: sim_pipes_def d pipe_no_new less_Suc_eq dest: new[unfolded d])
  show "r \<notin> ran (pe_reader sim_pipes p)"
  proof
    assume "r \<in> ran (pe_reader sim_pipes p)"
    then obtain fd where fd: "odd fd" "0 \<le> fd" "pipe_no fd < length p" "r = fd - 1"
      by (auto simp: sim_pipes_def ran_def split: if_splits)
    have "fd = 2 * int (length p) + 1" using fd(4) d(1) by simp
    then show False using fd(3) pipe_no_new(2)[of "length p"] by simp
  qed
  show "pe_waiting sim_pipes p' fd = pe_waiting sim_pipes p fd" if "fd \<noteq> r" for fd
    using that pipe_no_inverse[of fd] by (auto simp: sim_pipes_def d nth_append less_Suc_eq)
qed

lemma sim_pipe_laws: "pipe_laws sim_pipes"
  unfolding pipe_laws_def
proof (intro conjI allI impI)
  fix p r w p' assume "pe_pipe sim_pipes p = (r, w, p')"
  note new = sim_pipe_new[OF this]
  show "r \<noteq> w" "pe_waiting sim_pipes p' r = []" "pe_reader sim_pipes p' = (pe_reader sim_pipes p)(w \<mapsto> r)"
    "pe_reader sim_pipes p w = None" "r \<notin> ran (pe_reader sim_pipes p)"
    using new by blast+
  show "pe_waiting sim_pipes p' fd = pe_waiting sim_pipes p fd" if "fd \<noteq> r" for fd using new that by blast
next
  fix p w r c assume "pe_reader sim_pipes p w = Some r"
  then have w: "odd w" "0 \<le> w" "pipe_no w < length p" "r = w - 1" by (auto simp: sim_pipes_def split: if_splits)
  then have r: "even r" "0 \<le> r" "pipe_no r = pipe_no w" using pipe_no_pair by (auto simp: odd_pos elim!: oddE)
  show "\<exists>p'. pe_write sim_pipes w c p = (4, p') \<and> pe_reader sim_pipes p' = pe_reader sim_pipes p \<and>
      pe_waiting sim_pipes p' = (pe_waiting sim_pipes p)(r := pe_waiting sim_pipes p r @ [c])"
    using w r pipe_no_eq[of _ r] by (intro exI[of _ "p[pipe_no w := p ! pipe_no w @ [c]]"])
      (auto simp: sim_pipes_def fun_eq_iff nth_list_update)
next
  fix p r c and cs :: "int list" assume "pe_waiting sim_pipes p r = c # cs"
  then have r: "even r" "0 \<le> r" "pipe_no r < length p" "p ! pipe_no r = c # cs" by (auto simp: sim_pipes_def split: if_splits)
  show "\<exists>p'. pe_read sim_pipes r p = Some (4, c, p') \<and> pe_reader sim_pipes p' = pe_reader sim_pipes p \<and>
      pe_waiting sim_pipes p' = (pe_waiting sim_pipes p)(r := cs)"
    using r pipe_no_eq[of _ r] by (intro exI[of _ "p[pipe_no r := cs]"]) (auto simp: sim_pipes_def fun_eq_iff nth_list_update)
qed

theorem commands_arrive_in_order_witness:
  "\<exists>gm q player q1. ipc_init sim_pipes ipc_zero [] = (gm, q) \<and>
     ipc_init_child [''player'', show_int (ipc_player_argv1 gm), show_int (ipc_player_argv2 gm)] ipc_zero = Some player \<and>
     get_each (player_get_cmd sim_pipes 0 player) 2 (send_each (\<lambda>c. gm_send_cmd sim_pipes c gm) [3, 4] q) = Some ([3, 4], q1)"
proof -
  obtain gm q where init: "ipc_init sim_pipes ipc_zero [] = (gm, q)" by (cases "ipc_init sim_pipes ipc_zero []")
  obtain player where player: "ipc_init_child [''player'', show_int (ipc_player_argv1 gm), show_int (ipc_player_argv2 gm)] ipc_zero = Some player"
    by (simp add: child_descriptors)
  from commands_arrive_in_order[OF sim_pipe_laws init player, of 0 "[3, 4]" "[]"]
  show ?thesis using init player by (auto simp: eval_nat_numeral)
qed

end
