(* ===== verification/TttMain.thy ===== *)
theory TttMain
  imports TicTacToe Ipc
begin

text \<open>
  The two programs of the tic-tac-toe game from their \<open>main\<close>: the game manager
  (\<open>tictactoe_gm.c\<close>), which opens the pipes and starts a player for each game, and the player
  (\<open>tictactoe_player.c\<close>) with the game on the pipes it is given.
\<close>

section \<open>The player\<close>

text \<open>
  The loop of the player's \<open>main\<close> on its pipes. \<open>dec\<close> reads the numbers of the commands
  (\<open>tictactoe.h\<close>, not in the repository), \<open>g\<close> is the content of the local variable of
  \<open>player_get_cmd\<close>. A number that is no command is skipped. The result is \<open>None\<close> when the loop
  does not come back: nothing arrives, or the pipe is at its end and gives \<open>- 1\<close> for ever.
\<close>

type_synonym 'p player_end = "unit input \<times> 'p"

text \<open>
  One command: the end of the player (\<open>Inl\<close>), or the move to send, if there is one, with the words left on
  the terminal and the trace.
\<close>

definition reply_move :: "int input \<Rightarrow> unit input + (int option \<times> string list \<times> pl_event list)" where
  "reply_move r = (case r of Got m ws tr \<Rightarrow> Inr (Some m, ws, tr @ [SendMove m]) | NoInput tr \<Rightarrow> Inl (NoInput tr) | Undefined \<Rightarrow> Inl Undefined)"

definition player_cmd :: "ttt_hdr \<Rightarrow> ttt_cmd option \<Rightarrow> string list \<Rightarrow> pl_event list \<Rightarrow>
    unit input + (int option \<times> string list \<times> pl_event list)" where
  "player_cmd H cmd ws tr = (case cmd of
     Some GAME_START \<Rightarrow> Inr (None, ws, tr)
   | Some GAME_END \<Rightarrow> Inl (Got () ws (tr @ [EndedUnexpectedly]))
   | Some YOU_CAN_PLAY \<Rightarrow> reply_move (get_input_move H ws tr)
   | Some MOVE_REJECTED \<Rightarrow> reply_move (get_input_move H ws (tr @ [CannotPlayHere]))
   | Some NO_WINNER \<Rightarrow> Inl (Got () ws (tr @ [DrawMessage]))
   | Some YOU_WIN \<Rightarrow> Inl (Got () ws (tr @ [WinMessage]))
   | Some YOU_LOSE \<Rightarrow> Inl (Got () ws (tr @ [LoseMessage]))
   | None \<Rightarrow> Inr (None, ws, tr))"

partial_function (option) player_on_pipes ::
    "'p pipe_env \<Rightarrow> (int \<Rightarrow> ttt_cmd option) \<Rightarrow> int \<Rightarrow> ttt_hdr \<Rightarrow> ipc \<Rightarrow> string list \<Rightarrow> 'p \<Rightarrow> pl_event list \<Rightarrow> 'p player_end option" where
  "player_on_pipes E dec g H i ws p tr =
     (case player_get_cmd E g i p of
        None \<Rightarrow> None
      | Some (c, p) \<Rightarrow> (case player_cmd H (dec c) ws tr of
          Inl r \<Rightarrow> Some (r, p)
        | Inr (None, ws, tr) \<Rightarrow> player_on_pipes E dec g H i ws p tr
        | Inr (Some m, ws, tr) \<Rightarrow> player_on_pipes E dec g H i ws (snd (player_send_cmd E m i p)) tr))"

text \<open>\<open>main\<close> of the player: the exit status (1 is \<open>EXIT_FAILURE\<close>) and what the loop leaves.\<close>

definition player_main :: "'p pipe_env \<Rightarrow> (int \<Rightarrow> ttt_cmd option) \<Rightarrow> int \<Rightarrow> ttt_hdr \<Rightarrow> string list \<Rightarrow> string list \<Rightarrow> 'p \<Rightarrow>
    (int \<times> 'p player_end) option" where
  "player_main E dec g H argv ws p =
     (if length argv \<noteq> 3 then Some (1, Got () ws [], p)
      else do {
        i \<leftarrow> ipc_init_child argv ipc_zero;
        r \<leftarrow> player_on_pipes E dec g H i ws p [];
        Some (0, r)
      })"

section \<open>The game manager\<close>

text \<open>
  What \<open>main\<close> of the game manager asks of the system, whose state is \<open>'s\<close>: the pipes; \<open>fork\<close>;
  \<open>execl\<close>, with \<open>Some\<close> when it fails (a call that succeeds does not return); the moves that arrive
  from the player while a game is played, and the state after a game with the given events;
  \<open>waitpid\<close>, \<open>None\<close> when the wait does not end.
\<close>

record 's gm_sys =
  gs_pipes :: "'s pipe_env"
  gs_fork :: "'s \<Rightarrow> int \<times> 's"
  gs_execl :: "string list \<Rightarrow> 's \<Rightarrow> 's option"
  gs_moves :: "'s \<Rightarrow> int list"
  gs_played :: "ttt_event list \<Rightarrow> 's \<Rightarrow> 's"
  gs_waitpid :: "int \<Rightarrow> 's \<Rightarrow> 's option"

text \<open>The arguments of the player: its name and the two descriptors, written with \<open>%d\<close>.\<close>

definition player_argv :: "ipc \<Rightarrow> string list" where
  "player_argv i = [''tictactoe_player.elf'', show_int (ipc_player_argv1 i), show_int (ipc_player_argv2 i)]"

text \<open>
  How a process in \<open>main\<close> ends or stops: it returns, it becomes another program, it waits for a move or a
  child for ever, it writes past an array (the grid, or the buffers of \<open>sprintf\<close>).
\<close>

datatype 's gm_end = Returned 's | Replaced "string list" | Blocked | Overflow

text \<open>
  One pass of the loop up to \<open>ipc_close\<close>. The list collects the games this process has managed.
\<close>

definition gm_round :: "'s gm_sys \<Rightarrow> ttt_hdr \<Rightarrow> ipc \<Rightarrow> 's \<Rightarrow> ttt_event list list \<Rightarrow>
    's gm_end + (ipc \<times> 's \<times> ttt_event list list)" where
  "gm_round E H i s games =
     (case init_game H of (grid, shown) \<Rightarrow>
      case ipc_init (gs_pipes E) i s of (i, s) \<Rightarrow>
      case gs_fork E s of (pid, s) \<Rightarrow>
      if pid = 0
      then let argv = player_argv i in
        if (\<exists>a \<in> set (tl argv). h_MAX_BUFFER_LENGTH H \<le> length a) then Inl Overflow
        else (case gs_execl E argv s of
            None \<Rightarrow> Inl (Replaced argv)
          | Some s \<Rightarrow> Inr (i, ipc_close (gs_pipes E) i s, games))
      else if pid > 0
      then (case game_manager H grid (gs_moves E s) shown of
            Crash \<Rightarrow> Inl Overflow
          | Waiting tr \<Rightarrow> Inl Blocked
          | Done tr rest \<Rightarrow> (case gs_waitpid E pid (gs_played E tr s) of
              None \<Rightarrow> Inl Blocked
            | Some s \<Rightarrow> Inr (i, ipc_close (gs_pipes E) i s, games @ [tr])))
      else Inr (i, ipc_close (gs_pipes E) i s, games))"

definition scanf_char :: "char \<Rightarrow> string \<Rightarrow> char \<times> string" where
  "scanf_char play input = (case input of [] \<Rightarrow> (play, []) | c # cs \<Rightarrow> (c, cs))"

text \<open>
  The loop: \<open>scanf\<close> takes the next character of the terminal, any character, and at its end leaves
  \<open>play\<close> as it is. \<open>None\<close>: the loop does not end.
\<close>

partial_function (option) gm_main_loop :: "'s gm_sys \<Rightarrow> ttt_hdr \<Rightarrow> ipc \<Rightarrow> char \<Rightarrow> string \<Rightarrow> 's \<Rightarrow> ttt_event list list \<Rightarrow>
    ('s gm_end \<times> ttt_event list list) option" where
  "gm_main_loop E H i play input s games =
     (case gm_round E H i s games of
        Inl r \<Rightarrow> Some (r, games)
      | Inr (i, s, games) \<Rightarrow> (case scanf_char play input of (play, input) \<Rightarrow>
          if play = CHR ''Y'' then gm_main_loop E H i play input s games
          else Some (Returned s, games)))"

definition gm_main :: "'s gm_sys \<Rightarrow> ttt_hdr \<Rightarrow> char \<Rightarrow> string \<Rightarrow> 's \<Rightarrow> ('s gm_end \<times> ttt_event list list) option" where
  "gm_main E H play input s = gm_main_loop E H ipc_zero play input s []"

section \<open>The player on its pipes refines the player on a list of commands\<close>

lemma player_loop_cmd:
  "player_loop H (cmd # cmds) ws tr = (case player_cmd H (Some cmd) ws tr of
     Inl r \<Rightarrow> r | Inr (m, ws', tr') \<Rightarrow> player_loop H cmds ws' tr')"
  by (auto simp: player_cmd_def reply_move_def split: ttt_cmd.splits input.splits)

lemma get_input_trace: "get_input_move H ws tr = Got m ws' tr' \<Longrightarrow> \<exists>new. tr' = tr @ new \<and> sends new = []"
proof (induction ws arbitrary: tr)
  case (Cons w ws)
  show ?case
  proof (cases "length w < h_MAX_BUFFER_LENGTH H \<and> parse_line H w = Some None")
    case True
    with Cons.prems have "get_input_move H ws (tr @ [TttPrompt, Invalid]) = Got m ws' tr'" by simp
    from Cons.IH[OF this] obtain new where "tr' = tr @ [TttPrompt, Invalid] @ new" "sends new = []" by auto
    then show ?thesis by (intro exI[of _ "[TttPrompt, Invalid] @ new"]) (simp add: sends_def)
  next
    case False
    with Cons.prems show ?thesis
      by (intro exI[of _ "[TttPrompt]"]) (auto simp: sends_def split: option.splits if_splits)
  qed
qed simp

definition moves_of :: "int option \<Rightarrow> int list" where
  "moves_of m = (case m of None \<Rightarrow> [] | Some x \<Rightarrow> [x])"

lemma reply_move_trace:
  "reply_move (get_input_move H ws tr) = Inr (m, ws', tr') \<Longrightarrow> \<exists>new. tr' = tr @ new \<and> sends new = moves_of m"
  using get_input_trace[of H ws tr]
  by (fastforce simp: reply_move_def moves_of_def sends_def split: input.splits)

lemma player_cmd_trace:
  "player_cmd H cmd ws tr = Inr (m, ws', tr') \<Longrightarrow> \<exists>new. tr' = tr @ new \<and> sends new = moves_of m"
  using reply_move_trace[of H ws tr m ws' tr'] reply_move_trace[of H ws "tr @ [CannotPlayHere]" m ws' tr']
  by (auto simp: player_cmd_def moves_of_def sends_def split: option.splits ttt_cmd.splits)

lemma reply_goes_on: "reply_move r \<noteq> Inl (Got u ws tr)"
  by (simp add: reply_move_def split: input.splits)

lemma player_cmd_end:
  "player_cmd H cmd ws tr = Inl (Got u ws' tr') \<Longrightarrow> \<exists>new. tr' = tr @ new \<and> sends new = []"
  by (auto simp: player_cmd_def reply_goes_on sends_def split: option.splits ttt_cmd.splits)

text \<open>The player of the pipes \<open>i\<close>, with the descriptors it was given as arguments.\<close>

lemma player_on_pipes_loop:
  assumes E: "pipe_laws E" and dec: "\<forall>c. dec (enc c) = Some c"
    and j: "player_recv j = player_recv i" "player_send j = player_send i"
  shows "player_loop H cmds ws tr = Got () ws' tr' \<Longrightarrow> channels E i p \<Longrightarrow> to_player E i p = map enc cmds \<Longrightarrow>
    \<exists>q new. player_on_pipes E dec g H j ws p tr = Some (Got () ws' tr', q) \<and> channels E i q \<and>
      tr' = tr @ new \<and> to_gm E i q = to_gm E i p @ sends new"
proof (induction cmds arbitrary: ws tr p)
  case (Cons cmd cmds)
  have same: "player_get_cmd E g j = player_get_cmd E g i" "\<And>m. player_send_cmd E m j = player_send_cmd E m i"
    by (simp_all add: player_get_cmd_def player_send_cmd_def j fun_eq_iff)
  obtain q where q: "player_get_cmd E g j p = Some (enc cmd, q)" "channels E i q"
      "to_player E i q = map enc cmds" "to_gm E i q = to_gm E i p"
    using gm_to_player.get[of E i p "enc cmd" "map enc cmds" g] E Cons.prems(2,3) unfolding same by auto
  show ?case
  proof (cases "player_cmd H (Some cmd) ws tr")
    case (Inl r)
    then have r: "r = Got () ws' tr'" using Cons.prems(1) by (simp add: player_loop_cmd del: player_loop.simps)
    obtain new where "tr' = tr @ new" "sends new = []" using player_cmd_end Inl unfolding r by blast
    moreover have "player_on_pipes E dec g H j ws p tr = Some (Got () ws' tr', q)"
      using q(1) Inl dec by (subst player_on_pipes.simps) (simp add: r)
    ultimately show ?thesis using q(2,4) by auto
  next
    case (Inr nx)
    obtain m ws1 tr1 where nx: "nx = (m, ws1, tr1)" by (cases nx)
    obtain new where new: "tr1 = tr @ new" "sends new = moves_of m" using player_cmd_trace Inr unfolding nx by blast
    have loop: "player_loop H cmds ws1 tr1 = Got () ws' tr'"
      using Cons.prems(1) Inr by (simp add: player_loop_cmd nx del: player_loop.simps)
    have "\<exists>q1. player_on_pipes E dec g H j ws p tr = player_on_pipes E dec g H j ws1 q1 tr1 \<and> channels E i q1 \<and>
        to_player E i q1 = map enc cmds \<and> to_gm E i q1 = to_gm E i p @ moves_of m"
    proof (cases m)
      case None
      then have "player_on_pipes E dec g H j ws p tr = player_on_pipes E dec g H j ws1 q tr1"
        using q(1) Inr dec by (subst player_on_pipes.simps) (simp add: nx)
      then show ?thesis using q None by (auto simp: moves_of_def)
    next
      case (Some x)
      obtain q1 where q1: "player_send_cmd E x j q = (0, q1)" "channels E i q1" "to_gm E i q1 = to_gm E i q @ [x]"
          "to_player E i q1 = to_player E i q"
        using player_to_gm.send[of E i q x] E q(2) unfolding same by auto
      have "player_on_pipes E dec g H j ws p tr = player_on_pipes E dec g H j ws1 q1 tr1"
        using q(1) Inr dec by (subst player_on_pipes.simps) (simp add: nx Some q1(1))
      then show ?thesis using q q1 Some by (auto simp: moves_of_def)
    qed
    then obtain q1 where q1: "player_on_pipes E dec g H j ws p tr = player_on_pipes E dec g H j ws1 q1 tr1"
        "channels E i q1" "to_player E i q1 = map enc cmds" "to_gm E i q1 = to_gm E i p @ moves_of m" by blast
    from Cons.IH[OF loop q1(2,3)] obtain q2 rest where
      "player_on_pipes E dec g H j ws1 q1 tr1 = Some (Got () ws' tr', q2)" "channels E i q2" "tr' = tr1 @ rest"
      "to_gm E i q2 = to_gm E i q1 @ sends rest" by blast
    then show ?thesis using q1 new by (intro exI[of _ q2] exI[of _ "new @ rest"]) simp
  qed
qed simp

lemma init_child_argv:
  "ipc_init_child (player_argv i) k = Some (k\<lparr>player_recv := player_recv i, player_send := player_send i\<rparr>)"
  unfolding player_argv_def by (rule child_descriptors)

lemma player_main_plays:
  assumes E: "pipe_laws E" and dec: "\<forall>c. dec (enc c) = Some c" and init: "ipc_init E i p = (gm, q)"
    and loop: "player_loop H cmds ws [] = Got () ws' out"
  shows "\<exists>q1 q2. player_main E dec g H (player_argv gm) ws (send_each (\<lambda>c. gm_send_cmd E c gm) (map enc cmds) q) =
       Some (0, Got () ws' out, q1) \<and>
     get_each (gm_get_cmd E g' gm) (length (sends out)) q1 = Some (sends out, q2)"
proof -
  let ?q = "send_each (\<lambda>c. gm_send_cmd E c gm) (map enc cmds) q"
  let ?pl = "ipc_zero\<lparr>player_recv := player_recv gm, player_send := player_send gm\<rparr>"
  note ch = ipc_init_channels[OF E init]
  have q: "channels E gm ?q" "to_player E gm ?q = map enc cmds" "to_gm E gm ?q = []"
    using gm_to_player.send_each_queue[of E gm q "map enc cmds"] E ch by auto
  obtain q1 where q1: "player_on_pipes E dec g H ?pl ws ?q [] = Some (Got () ws' out, q1)" "channels E gm q1"
      "to_gm E gm q1 = sends out"
    using player_on_pipes_loop[OF E dec _ _ loop q(1,2), of ?pl g] q(3) by auto
  have "player_main E dec g H (player_argv gm) ws ?q = Some (0, Got () ws' out, q1)"
    using q1(1) by (simp add: player_main_def init_child_argv) (simp add: player_argv_def)
  moreover obtain q2 where "get_each (gm_get_cmd E g' gm) (length (sends out)) q1 = Some (sends out, q2)"
    using player_to_gm.get_each_queue[of E gm q1 "sends out" "[]" g'] E q1(2,3) by auto
  ultimately show ?thesis by blast
qed

section \<open>The loop of the game manager\<close>

text \<open>A system on which every game is played: \<open>fork\<close> succeeds, the player sends moves enough, and it can be waited for.\<close>

definition always_plays :: "'s gm_sys \<Rightarrow> ttt_hdr \<Rightarrow> bool" where
  "always_plays E H \<longleftrightarrow> (\<forall>s. 0 < fst (gs_fork E s)) \<and> (\<forall>s. \<exists>tr rest. gm_game H (gs_moves E s) = Done tr rest) \<and>
     (\<forall>pid s. gs_waitpid E pid s \<noteq> None)"

lemma parent_round:
  assumes "ipc_init (gs_pipes E) i s = (j, s1)" "gs_fork E s1 = (pid, s2)" "0 < pid"
    and "gm_game H (gs_moves E s2) = Done tr rest" "gs_waitpid E pid (gs_played E tr s2) = Some s3"
  shows "gm_round E H i s games = Inr (j, ipc_close (gs_pipes E) j s3, games @ [tr])"
  using assms by (auto simp: gm_round_def gm_game_def split: prod.splits)

lemma round_plays:
  assumes "always_plays E H"
  shows "\<exists>j s' tr. gm_round E H i s games = Inr (j, s', games @ [tr])"
proof -
  obtain j s1 where a: "ipc_init (gs_pipes E) i s = (j, s1)" by (cases "ipc_init (gs_pipes E) i s")
  obtain pid s2 where b: "gs_fork E s1 = (pid, s2)" by (cases "gs_fork E s1")
  have c: "0 < pid" using assms b unfolding always_plays_def by (metis fst_conv)
  obtain tr rest where d: "gm_game H (gs_moves E s2) = Done tr rest" using assms unfolding always_plays_def by blast
  obtain s3 where "gs_waitpid E pid (gs_played E tr s2) = Some s3" using assms unfolding always_plays_def by blast
  from parent_round[OF a b c d this] show ?thesis by blast
qed

lemma games_counted:
  assumes "always_plays E H"
  shows "\<exists>c \<in> set input. c \<noteq> CHR ''Y'' \<Longrightarrow>
    \<exists>s' new. gm_main_loop E H i play input s games = Some (Returned s', games @ new) \<and>
      length new = Suc (length (takeWhile (\<lambda>c. c = CHR ''Y'') input))"
proof (induction input arbitrary: i play s games)
  case (Cons c cs)
  obtain j s1 tr where r: "gm_round E H i s games = Inr (j, s1, games @ [tr])" using round_plays[OF assms] by blast
  show ?case
  proof (cases "c = CHR ''Y''")
    case True
    then have "gm_main_loop E H i play (c # cs) s games = gm_main_loop E H j c cs s1 (games @ [tr])"
      by (subst gm_main_loop.simps) (simp add: r scanf_char_def)
    moreover obtain s' new where "gm_main_loop E H j c cs s1 (games @ [tr]) = Some (Returned s', (games @ [tr]) @ new)"
        "length new = Suc (length (takeWhile (\<lambda>c. c = CHR ''Y'') cs))"
      using Cons.IH[of j c s1 "games @ [tr]"] Cons.prems True by auto
    ultimately show ?thesis using True by (intro exI[of _ s'] exI[of _ "tr # new"]) simp
  next
    case False
    then have "gm_main_loop E H i play (c # cs) s games = Some (Returned s1, games @ [tr])"
      by (subst gm_main_loop.simps) (simp add: r scanf_char_def)
    then show ?thesis using False by (intro exI[of _ s1] exI[of _ "[tr]"]) simp
  qed
qed simp

text \<open>
  Answers typed as lines: the newline after the first \<open>Y\<close> is taken as the next answer, so that
  whatever follows there are two games.
\<close>

lemma answers_on_lines:
  assumes "always_plays E H"
  shows "\<exists>s' games. gm_main E H play (''Y'' @ [newline] @ answers) s = Some (Returned s', games) \<and> length games = 2"
  using games_counted[OF assms, of "''Y'' @ [newline] @ answers" ipc_zero play s "[]"]
  by (auto simp: gm_main_def)

section \<open>Properties\<close>

text \<open>
  C19. A game of the two programs. The game manager makes its pipes and forks; the child becomes the
  player, with the descriptors as its arguments; the parent plays a game on the moves that arrive, waits and
  closes the pipes. The player, given the commands of that game through the pipe and typed the same moves
  as the numbers 1 to 9, returns 0 with one verdict shown and never takes the end for an
  unexpected one, and what it wrote is exactly the moves the game used, in order.
\<close>

theorem game_of_two_programs:
  assumes H: "hdr_ok H" "2 \<le> h_MAX_BUFFER_LENGTH H"
    and E: "pipe_laws E" "gs_pipes P = E" "gs_pipes C = E" and dec: "\<forall>c. dec (enc c) = Some c"
    and init: "ipc_init E ipc_zero p = (gm, q)"
    and argv: "length (show_int (player_recv gm)) < h_MAX_BUFFER_LENGTH H"
        "length (show_int (player_send gm)) < h_MAX_BUFFER_LENGTH H"
    and child: "gs_fork C q = (0, q)" "gs_execl C (player_argv gm) q = None"
    and parent: "gs_fork P q = (pid, q)" "0 < pid" "gs_waitpid P pid (gs_played P tr q) = Some s"
    and moves: "gs_moves P q = moves" "\<forall>x \<in> set moves. 0 \<le> x \<and> x < 9" "gm_game H moves = Done tr rest"
  shows "gm_main C H play input p = Some (Replaced (player_argv gm), []) \<and>
    gm_round P H ipc_zero p games = Inr (gm, ipc_close E gm s, games @ [tr]) \<and>
    (\<exists>used out q1 q2. moves = used @ rest \<and>
      player_main E dec g H (player_argv gm) (map typed used @ ws) (send_each (\<lambda>c. gm_send_cmd E c gm) (map enc (sent tr)) q) =
        Some (0, Got () ws out, q1) \<and>
      get_each (gm_get_cmd E g' gm) (length used) q1 = Some (used, q2) \<and>
      EndedUnexpectedly \<notin> set out \<and> last out \<in> {WinMessage, LoseMessage, DrawMessage})"
proof -
  have "gm_round C H ipc_zero p [] = Inl (Replaced (player_argv gm))"
    using init E(3) child argv
    by (auto simp: gm_round_def player_argv_def ipc_player_argv1_def ipc_player_argv2_def split: prod.splits)
  then have "gm_main C H play input p = Some (Replaced (player_argv gm), [])"
    unfolding gm_main_def by (subst gm_main_loop.simps) simp
  moreover have "gm_round P H ipc_zero p games = Inr (gm, ipc_close E gm s, games @ [tr])"
    using parent_round[of P ipc_zero p gm q pid q H tr rest s games] init E(2) parent moves by simp
  moreover obtain used out where r: "moves = used @ rest" "player_loop H (sent tr) (map typed used @ ws) [] = Got () ws out"
      "sends out = used" "EndedUnexpectedly \<notin> set out" "last out \<in> {WinMessage, LoseMessage, DrawMessage}"
    using game_and_player_agree[OF H moves(2,3)] by blast
  ultimately show ?thesis using player_main_plays[OF E(1) dec init r(2), of g g'] r by blast
qed

text \<open>
  C35. The answers to \<open>New game (Y/N)?\<close>: \<open>main\<close> plays one game, and one more for each \<open>Y\<close> at the
  front of what is typed, and returns at the first other character.
\<close>

theorem one_more_game_per_Y:
  assumes "always_plays E H" and "\<exists>c \<in> set input. c \<noteq> CHR ''Y''"
  shows "\<exists>s' games. gm_main E H play input s = Some (Returned s', games) \<and>
    length games = Suc (length (takeWhile (\<lambda>c. c = CHR ''Y'') input))"
  using games_counted[OF assms, of ipc_zero play s "[]"] by (simp add: gm_main_def)

section \<open>An instance\<close>

text \<open>The pipes of Ipc, a player that tries all cells from the last one, five times.\<close>

definition stubborn :: "int list" where
  "stubborn = concat (replicate 5 [8, 7, 6, 5, 4, 3, 2, 1, 0])"

definition sim_gm :: "int \<Rightarrow> int list list gm_sys" where
  "sim_gm pid = \<lparr>gs_pipes = sim_pipes, gs_fork = (\<lambda>s. (pid, s)), gs_execl = (\<lambda>argv s. None),
     gs_moves = (\<lambda>s. stubborn), gs_played = (\<lambda>tr s. s), gs_waitpid = (\<lambda>pid s. Some s)\<rparr>"

definition enc_std :: "ttt_cmd \<Rightarrow> int" where
  "enc_std c = (case c of GAME_START \<Rightarrow> 0 | GAME_END \<Rightarrow> 1 | YOU_CAN_PLAY \<Rightarrow> 2 | MOVE_REJECTED \<Rightarrow> 3
     | NO_WINNER \<Rightarrow> 4 | YOU_WIN \<Rightarrow> 5 | YOU_LOSE \<Rightarrow> 6)"

definition dec_std :: "int \<Rightarrow> ttt_cmd option" where
  "dec_std n = map_of (map (\<lambda>c. (enc_std c, c))
     [GAME_START, GAME_END, YOU_CAN_PLAY, MOVE_REJECTED, NO_WINNER, YOU_WIN, YOU_LOSE]) n"

lemma dec_enc_std: "\<forall>c. dec_std (enc_std c) = Some c"
  by (intro allI, case_tac c) (simp_all add: dec_std_def enc_std_def)

lemma stubborn_game: "\<exists>tr rest. gm_game ttt_std stubborn = Done tr rest"
proof -
  have blk: "b \<in> set (replicate 5 [8, 7, 6, 5, 4, 3, 2, 1, 0 :: int]) \<Longrightarrow> int ` {..<9} \<subseteq> set b" for b
    by (auto simp: lessThan_Suc numeral_eq_Suc)
  have cnt: "count_list (replicate 9 (0 :: int)) 0 + 1 \<le> 2 * length (replicate 5 [8, 7, 6, 5, 4, 3, 2, 1, 0 :: int])"
    by (simp add: numeral_eq_Suc)
  have "\<exists>tr' rest. gm_loop ttt_std True (replicate 9 0) ([] @ stubborn)
      [InitialBoard, Draw (replicate 9 0) (draw_grid ttt_std (replicate 9 0)), ValidMoves, Send GAME_START] = Done tr' rest"
    unfolding stubborn_def by (rule gm_loop_ends[OF ttt_std_ok(1) position_start[OF ttt_std_ok(1)] cnt blk])
  then show ?thesis
    using ttt_std_ok(1)
    by (simp only: gm_game_def init_game_def Let_def game_manager_def hdr_ok_def append_Nil append_Cons split)
qed

lemma stubborn_cells: "\<forall>x \<in> set stubborn. 0 \<le> x \<and> x < 9"
  by (simp add: stubborn_def numeral_eq_Suc)

lemma sim_gm_plays: "0 < pid \<Longrightarrow> always_plays (sim_gm pid) ttt_std"
  using stubborn_game by (simp add: always_plays_def sim_gm_def)

theorem one_more_game_per_Y_witness:
  "\<exists>s' games. gm_main (sim_gm 7) ttt_std CHR ''?'' ''YYN'' [] = Some (Returned s', games) \<and> length games = 3"
  using one_more_game_per_Y[OF sim_gm_plays[of 7], of "''YYN''" "CHR ''?''" "[]"] by (simp add: numeral_eq_Suc)

theorem game_of_two_programs_witness:
  "\<exists>tr rest gm q used out q1. gm_game ttt_std stubborn = Done tr rest \<and> ipc_init sim_pipes ipc_zero [] = (gm, q) \<and>
     gm_main (sim_gm 0) ttt_std CHR ''?'' ''N'' [] = Some (Replaced (player_argv gm), []) \<and>
     player_main sim_pipes dec_std 0 ttt_std (player_argv gm) (map typed used)
       (send_each (\<lambda>c. gm_send_cmd sim_pipes c gm) (map enc_std (sent tr)) q) = Some (0, Got () [] out, q1) \<and>
     EndedUnexpectedly \<notin> set out"
proof -
  obtain tr rest where g: "gm_game ttt_std stubborn = Done tr rest" using stubborn_game by blast
  let ?gm = "\<lparr>gm_recv = 0, gm_send = 3, player_recv = 2, player_send = 1\<rparr>"
  have init: "ipc_init sim_pipes ipc_zero [] = (?gm, [[], []])"
    by (simp add: ipc_init_def sim_pipes_def ipc_zero_def)
  have len: "length (show_int (player_recv ?gm)) < h_MAX_BUFFER_LENGTH ttt_std"
      "length (show_int (player_send ?gm)) < h_MAX_BUFFER_LENGTH ttt_std"
    by (simp_all add: ttt_std_def show_int_def show_nat.simps)
  note t = game_of_two_programs[OF ttt_std_ok sim_pipe_laws _ _ dec_enc_std init len, of "sim_gm 7" "sim_gm 0" 7 tr "[[], []]" stubborn rest]
  have "gm_main (sim_gm 0) ttt_std CHR ''?'' ''N'' [] = Some (Replaced (player_argv ?gm), []) \<and>
      gm_round (sim_gm 7) ttt_std ipc_zero [] [] = Inr (?gm, ipc_close sim_pipes ?gm [[], []], [] @ [tr]) \<and>
      (\<exists>used out q1 q2. stubborn = used @ rest \<and>
        player_main sim_pipes dec_std 0 ttt_std (player_argv ?gm) (map typed used @ [])
          (send_each (\<lambda>c. gm_send_cmd sim_pipes c ?gm) (map enc_std (sent tr)) [[], []]) = Some (0, Got () [] out, q1) \<and>
        get_each (gm_get_cmd sim_pipes 0 ?gm) (length used) q1 = Some (used, q2) \<and>
        EndedUnexpectedly \<notin> set out \<and> last out \<in> {WinMessage, LoseMessage, DrawMessage})"
    by (rule t) (simp_all add: sim_gm_def stubborn_cells g)
  then show ?thesis using g init by (simp only: append_Nil2) blast
qed

end
