(* ===== verification/Demos.thy ===== *)
theory Demos
  imports AddressSpace "HOL-Library.Monad_Syntax"
begin

text \<open>
  The two small demonstration programs: \<open>l1-intro/usr/src/hello.c\<close>, which changes its own
  text in memory, and \<open>l5-scheduling-memory/usr/src/memory.c\<close>, which shows the physical address
  of a page.
\<close>

section \<open>hello.c\<close>

text \<open>The bytes of a string up to its NUL; \<open>None\<close> when there is none.\<close>

partial_function (option) c_string :: "(addr \<Rightarrow> u8) \<Rightarrow> addr \<Rightarrow> u8 list option" where
  "c_string m a = (if m a = 0 then Some [] else do { cs \<leftarrow> c_string m (a + 1); Some (m a # cs) })"

datatype hello_event = Line string | Text "u8 list" | AtAddress addr

fun bump_loop :: "nat list \<Rightarrow> (addr \<Rightarrow> u8) \<Rightarrow> addr \<Rightarrow> u8" where
  "bump_loop [] m = m"
| "bump_loop (i # ns) m = bump_loop ns (m(0x8000 + of_nat i := m (0x8000 + of_nat i) + 1))"

text \<open>\<open>main\<close>, with its text \<open>Hello world !\<close> at the address \<open>s\<close> of the memory.\<close>

definition hello_main :: "addr \<Rightarrow> (addr \<Rightarrow> u8) \<Rightarrow> (hello_event list \<times> (addr \<Rightarrow> u8)) option" where
  "hello_main s m = do {
     before \<leftarrow> c_string m s;
     let m' = bump_loop [0..<length before] m;
     after \<leftarrow> c_string m' s;
     Some ([Line ''SO3 - Simple application'', Text before, AtAddress s, Text after], m')
   }"

definition holds_text :: "(addr \<Rightarrow> u8) \<Rightarrow> addr \<Rightarrow> u8 list \<Rightarrow> bool" where
  "holds_text m s cs \<longleftrightarrow> 0 \<notin> set cs \<and> length cs < 4294967296 \<and> (\<forall>i < length cs. m (s + of_nat i) = cs ! i) \<and> m (s + of_nat (length cs)) = 0"

lemma c_string_text:
  "0 \<notin> set cs \<Longrightarrow> \<forall>i < length cs. m (s + of_nat i) = cs ! i \<Longrightarrow> m (s + of_nat (length cs)) = 0 \<Longrightarrow> c_string m s = Some cs"
proof (induction cs arbitrary: s)
  case Nil
  then show ?case by (subst c_string.simps) simp
next
  case (Cons c cs)
  have "m s = c" using Cons.prems(2)[rule_format, of 0] by simp
  moreover have "c_string m (s + 1) = Some cs"
  proof (rule Cons.IH)
    show "\<forall>i < length cs. m (s + 1 + of_nat i) = cs ! i"
    proof (intro allI impI)
      fix i assume "i < length cs"
      then have "m (s + of_nat (Suc i)) = (c # cs) ! Suc i" using Cons.prems(2)[rule_format, of "Suc i"] by simp
      then show "m (s + 1 + of_nat i) = cs ! i" by (simp add: add.assoc)
    qed
  qed (use Cons.prems in \<open>simp_all add: add.assoc\<close>)
  ultimately show ?case using Cons.prems(1) by (subst c_string.simps) auto
qed

lemma of_nat_addr: "i < 4294967296 \<Longrightarrow> j < 4294967296 \<Longrightarrow> (of_nat i :: addr) = of_nat j \<longleftrightarrow> i = j"
  by (metis unat_of_nat_u32)

lemma bump_loop_at:
  "distinct ns \<Longrightarrow> \<forall>i \<in> set ns. i < 4294967296 \<Longrightarrow>
   bump_loop ns m a = (if a \<in> (\<lambda>i. 0x8000 + of_nat i) ` set ns then m a + 1 else m a)"
proof (induction ns arbitrary: m)
  case (Cons i ns)
  have "0x8000 + of_nat i \<notin> (\<lambda>i. 0x8000 + of_nat i :: addr) ` set ns"
  proof
    assume "0x8000 + of_nat i \<in> (\<lambda>i. 0x8000 + of_nat i :: addr) ` set ns"
    then obtain j where "j \<in> set ns" "(of_nat i :: addr) = of_nat j" by auto
    then have "i = j" using Cons.prems(2) of_nat_addr[of i j] by simp
    then show False using \<open>j \<in> set ns\<close> Cons.prems(1) by simp
  qed
  then show ?case using Cons.prems by (auto simp: Cons.IH)
qed simp

text \<open>
  When the text lies at the address the program expects (0x8000), the second line shows every
  character advanced by one; a text away from it is shown as it was, and other bytes are changed.
\<close>

lemma hello_changes_text:
  assumes here: "holds_text m 0x8000 cs" and no: "- 1 \<notin> set cs"
  shows "hello_main 0x8000 m = Some ([Line ''SO3 - Simple application'', Text cs, AtAddress 0x8000, Text (map (\<lambda>c. c + 1) cs)],
    bump_loop [0..<length cs] m)"
proof -
  have m: "0 \<notin> set cs" "length cs < 4294967296" "\<And>i. i < length cs \<Longrightarrow> m (0x8000 + of_nat i) = cs ! i"
      "m (0x8000 + of_nat (length cs)) = 0" using here by (auto simp: holds_text_def)
  have at: "bump_loop [0..<length cs] m a = (if a \<in> (\<lambda>i. 0x8000 + of_nat i) ` {..<length cs} then m a + 1 else m a)" for a
    using bump_loop_at[of "[0..<length cs]" m a] m(2) by (simp add: lessThan_atLeast0)
  have "(0x8000 + of_nat (length cs) :: addr) \<notin> (\<lambda>i. 0x8000 + of_nat i) ` {..<length cs}"
    using m(2) by (auto simp: of_nat_addr)
  then have last: "bump_loop [0..<length cs] m (0x8000 + of_nat (length cs)) = 0" using m(4) at by simp
  have "c_string (bump_loop [0..<length cs] m) 0x8000 = Some (map (\<lambda>c. c + 1) cs)"
  proof (rule c_string_text)
    show "0 \<notin> set (map (\<lambda>c. c + 1) cs)" using no by (auto simp: eq_neg_iff_add_eq_0[symmetric])
  qed (use m(3) last at in auto)
  moreover have "c_string m 0x8000 = Some cs" using m c_string_text by blast
  ultimately show ?thesis by (simp add: hello_main_def)
qed

section \<open>memory.c\<close>

text \<open>The calls of the program: \<open>malloc\<close> and \<open>free\<close> of the C library, and \<open>sys_translate\<close>, \<open>None\<close> when the kernel stops.\<close>

record 's demo_sys =
  ds_malloc :: "u32 \<Rightarrow> 's \<Rightarrow> addr \<times> 's"
  ds_translate :: "addr \<Rightarrow> 's \<Rightarrow> addr option"
  ds_free :: "addr \<Rightarrow> 's \<Rightarrow> 's"

datatype memory_event = FailedToAllocate | PageAt addr addr

text \<open>\<open>main\<close>: the exit status, what is printed, the state.\<close>

definition memory_main :: "'s demo_sys \<Rightarrow> 's \<Rightarrow> (int \<times> memory_event \<times> 's) option" where
  "memory_main E s = (case ds_malloc E (0x1000 * 4) s of (virt, s1) \<Rightarrow>
     if virt = NULL then Some (1, FailedToAllocate, s1)
     else do {
       phy \<leftarrow> ds_translate E virt s1;
       Some (0, PageAt virt phy, ds_free E virt s1)
     })"

text \<open>
  On the page tables of the kernel, with \<open>sys_translate\<close> served by \<open>do_translate\<close>, the program
  shows where the first byte of its block lies, if that is mapped by a page.
\<close>

lemma memory_shows_frame:
  assumes fmt: "arm_format E" and tr: "ds_translate D = do_translate E"
    and virt: "ds_malloc D 0x4000 s = (virt, s1)" "virt \<noteq> NULL"
    and page: "\<not> me_l1pte_is_sect E (m_mem s1 (ent (m_current s1) (i1 virt)))" "translate E (m_current s1) s1 virt = Some phy"
  shows "memory_main D s = Some (0, PageAt virt phy, ds_free D virt s1)"
proof -
  have "do_translate E virt s1 = Some phy"
    using page unfolding do_translate_def virt_to_phys_pt_eq[OF fmt]
    by (auto simp: translate_def Let_def split: if_splits)
  then show ?thesis using virt by (simp add: memory_main_def tr)
qed

end
