(* ===== verification/Shell.thy ===== *)
theory Shell
  imports CLib "HOL-Library.Monad_Syntax"
begin

text \<open>
  The shell of lab 1, \<open>usr/src/sh.c\<close>: a line is split into tokens, and the command they make up
  is one of the built-in ones or a program, or two programs with a pipe between them, to run.
\<close>

section \<open>Tokens\<close>

definition TOKEN_NR :: nat where "TOKEN_NR = 10"
definition ARGS_MAX :: nat where "ARGS_MAX = 16"

text \<open>The words \<open>strtok\<close> gives for a line: the longest runs without a space.\<close>

fun strtok_words :: "string \<Rightarrow> string \<Rightarrow> string list" where
  "strtok_words w [] = (if w = [] then [] else [w])"
| "strtok_words w (c # cs) =
     (if c = CHR '' '' then (if w = [] then strtok_words [] cs else w # strtok_words [] cs)
      else strtok_words (w @ [c]) cs)"

text \<open>
  \<open>parse_token\<close> copies them one after the other; past the last row of \<open>tokens\<close>, or past the end of
  a row, there is no defined result.
\<close>

fun put_tokens :: "nat \<Rightarrow> string list \<Rightarrow> string list \<Rightarrow> string list option" where
  "put_tokens i [] toks = Some toks"
| "put_tokens i (w # ws) toks =
     (if i < TOKEN_NR \<and> length w < 80 then put_tokens (Suc i) ws (toks[i := w]) else None)"

definition parse_token :: "string \<Rightarrow> string list \<Rightarrow> string list option" where
  "parse_token str toks = put_tokens 0 (strtok_words [] str) toks"

text \<open>Reading a token; an empty one has 0 as its first character.\<close>

definition token :: "string list \<Rightarrow> nat \<Rightarrow> string option" where
  "token toks i = (if i < length toks then Some (toks ! i) else None)"

section \<open>Commands\<close>

text \<open>What a process asks the system to do, in order. A pid of \<open>None\<close> is an uninitialised variable.\<close>

datatype sh_call =
    SysInfo nat
  | RootExitRefused
  | Exit int
  | SetEnv string string
  | UnsetEnv string
  | PrintEnv
  | Kill "int option" int
  | Fork
  | Pipe
  | CloseReadEnd
  | CloseWriteEnd
  | StdoutToPipe
  | StdinFromPipe
  | Execv string "string list"
  | ExecFailed string
  | Waitpid int
  | PrintPid int

text \<open>
  The system: the pid of the shell, what \<open>fork\<close> returns to it and to its child (-1 when there is no new process), the
  files \<open>execv\<close> can run, the signals.
\<close>

record sh_env =
  she_getpid :: int
  she_child :: int
  she_child2 :: int
  she_runs :: "string \<Rightarrow> bool"
  she_SIGTERM :: int
  she_SIGUSR1 :: int
  she_SIGKILL :: int

text \<open>A cell of an \<open>argv\<close> array: not written yet, \<open>NULL\<close>, or a string.\<close>

datatype cell = Unset | Null | Str string

text \<open>
  The loop that sorts the tokens into the two argument arrays, with the state
  \<open>arg_pos, arg_pos2, pipe_on, argv, argv2\<close>; it ends at \<open>&\<close> or at an empty token.
\<close>

record sh_args =
  arg_pos :: nat
  arg_pos2 :: nat
  background :: bool
  pipe_on :: bool
  argv :: "cell list"
  argv2 :: "cell list"

definition args_start :: sh_args where
  "args_start = \<lparr>arg_pos = 0, arg_pos2 = 0, background = False, pipe_on = False,
     argv = replicate ARGS_MAX Unset, argv2 = replicate ARGS_MAX Unset\<rparr>"

function args_loop :: "string list \<Rightarrow> sh_args \<Rightarrow> sh_args option" where
  "args_loop toks a =
     (if background a then Some a
      else if length toks \<le> arg_pos a then None
      else let t = toks ! arg_pos a in
        if t = [] then Some a
        else if t = ''&'' then Some (a\<lparr>background := True\<rparr>)
        else if t = ''|'' then args_loop toks (a\<lparr>pipe_on := True, argv := (argv a)[arg_pos a := Null], arg_pos := arg_pos a + 1\<rparr>)
        else if pipe_on a then args_loop toks (a\<lparr>argv2 := (argv2 a)[arg_pos2 a := Str t],
               arg_pos2 := arg_pos2 a + 1, arg_pos := arg_pos a + 1\<rparr>)
        else args_loop toks (a\<lparr>argv := (argv a)[arg_pos a := Str t], arg_pos := arg_pos a + 1\<rparr>))"
  by pat_completeness auto
termination by (relation "measure (\<lambda>(toks, a). length toks - arg_pos a)") auto

declare args_loop.simps [simp del]

text \<open>The list of arguments is closed with \<open>NULL\<close>.\<close>

definition close_args :: "sh_args \<Rightarrow> sh_args" where
  "close_args a = (if pipe_on a then a\<lparr>argv2 := (argv2 a)[arg_pos2 a := Null]\<rparr>
     else a\<lparr>argv := (argv a)[arg_pos a := Null]\<rparr>)"

text \<open>What \<open>execv\<close> finds in an array: the strings before the first \<open>NULL\<close>.\<close>

fun read_argv :: "cell list \<Rightarrow> string list option" where
  "read_argv (Null # cs) = Some []"
| "read_argv (Str s # cs) = map_option ((#) s) (read_argv cs)"
| "read_argv _ = None"

text \<open>
  \<open>strcpy(filename, argv[0]); strcat(filename, ".elf"); execv(filename, argv)\<close> and what follows a
  failure; the file name is an array of 30 characters.
\<close>

definition run_program :: "sh_env \<Rightarrow> cell list \<Rightarrow> sh_call list option" where
  "run_program E args = do {
     name \<leftarrow> (case args of Str s # _ \<Rightarrow> Some s | _ \<Rightarrow> None);
     let filename = name @ ''.elf'';
     if length filename < 30
     then do {
       as \<leftarrow> read_argv args;
       Some (if she_runs E filename then [Execv filename as]
             else [Execv filename as, ExecFailed name, Exit (- 1)]) }
     else None }"

text \<open>
  The traces of the shell, of its child and of the child's child; a process that was not created has none, and the one that
  called \<open>fork\<close> goes on as after a success.
\<close>

definition in_child :: "int \<Rightarrow> 'a list option \<Rightarrow> 'a list option" where
  "in_child pid calls = (if pid = - 1 then Some [] else calls)"

type_synonym traces = "sh_call list \<times> sh_call list \<times> sh_call list"

definition run_command :: "sh_env \<Rightarrow> string list \<Rightarrow> traces option" where
  "run_command E toks = do {
     a0 \<leftarrow> args_loop toks args_start;
     let a = close_args a0;
     let parent = [Fork, if background a then PrintPid (she_child E) else Waitpid (she_child E)];
     if pipe_on a
     then do {
       c1 \<leftarrow> in_child (she_child E) (map_option ((@) [Pipe, Fork, CloseWriteEnd, StdinFromPipe]) (run_program E (argv2 a)));
       c2 \<leftarrow> in_child (she_child E) (in_child (she_child2 E)
              (map_option ((@) [CloseReadEnd, StdoutToPipe]) (run_program E (argv a))));
       Some (parent, c1, c2) }
     else do {
       c1 \<leftarrow> in_child (she_child E) (do { t0 \<leftarrow> token toks 0; run_program E ((argv a)[0 := Str t0]) });
       Some (parent, c1, []) } }"

text \<open>\<open>process_cmd\<close>; the second result is whether the shell goes on.\<close>

definition kill_call :: "sh_env \<Rightarrow> string \<Rightarrow> string \<Rightarrow> sh_call" where
  "kill_call E t1 t2 =
     (if t2 = [] then Kill (Some (atoi t1)) (she_SIGTERM E)
      else if t1 = ''-USR1'' then Kill (Some (atoi t2)) (she_SIGUSR1 E)
      else if t1 = ''-9'' then Kill (Some (atoi t2)) (she_SIGKILL E)
      else Kill None 0)"

definition process_cmd :: "sh_env \<Rightarrow> string list \<Rightarrow> (traces \<times> bool) option" where
  "process_cmd E toks = do {
     t0 \<leftarrow> token toks 0; t1 \<leftarrow> token toks 1; t2 \<leftarrow> token toks 2;
     if t0 = ''dumpsched'' then Some (([SysInfo 1], [], []), True)
     else if t0 = ''dumpproc'' then Some (([SysInfo 4], [], []), True)
     else if t0 = ''exit'' then
       (if she_getpid E = 1 then Some (([RootExitRefused], [], []), True)
        else Some (([Exit 0], [], []), False))
     else if t0 = ''setenv'' then
       Some ((if t1 = [] then [] else if t2 \<noteq> [] then [SetEnv t1 t2] else [UnsetEnv t1], [], []), True)
     else if t0 = ''env'' then Some (([PrintEnv], [], []), True)
     else if t0 = ''kill'' then Some (([kill_call E t1 t2], [], []), True)
     else map_option (\<lambda>t. (t, True)) (run_command E toks) }"

section \<open>The main loop\<close>

datatype sh_event = Prompt | Echo string | Calls traces

text \<open>The handler of \<open>SIGINT\<close> shows the prompt again.\<close>

definition sigint_sh_handler :: "sh_event list" where "sigint_sh_handler = [Prompt]"

text \<open>
  One round of \<open>main\<close>: the tokens are emptied, \<open>gets\<close> reads a line into 80 characters, the tokens are
  shown, and the command is processed if there is one.
\<close>

definition sh_round :: "sh_env \<Rightarrow> string \<Rightarrow> (sh_event list \<times> bool) option" where
  "sh_round E line =
     (if 80 \<le> length line then None
      else do {
        toks \<leftarrow> (if line \<noteq> [] then parse_token line (replicate TOKEN_NR []) else Some (replicate TOKEN_NR []));
        t0 \<leftarrow> token toks 0;
        let shown = Prompt # map Echo (filter (\<lambda>t. t \<noteq> []) toks);
        if t0 = [] then Some (shown, True)
        else do { (tr, go) \<leftarrow> process_cmd E toks; Some (shown @ [Calls tr], go) } })"

text \<open>The loop over the lines typed; it ends with them, or at an \<open>exit\<close> outside the root shell.\<close>

fun sh_main :: "sh_env \<Rightarrow> string list \<Rightarrow> sh_event list option" where
  "sh_main E [] = Some []"
| "sh_main E (l # ls) = do {
     (es, go) \<leftarrow> sh_round E l;
     if go then do { rest \<leftarrow> sh_main E ls; Some (es @ rest) } else Some es }"

section \<open>Splitting a line\<close>

fun unwords :: "string list \<Rightarrow> string" where
  "unwords [] = []"
| "unwords [w] = w"
| "unwords (w # ws) = w @ '' '' @ unwords ws"

definition word_ok :: "string \<Rightarrow> bool" where
  "word_ok w \<longleftrightarrow> w \<noteq> [] \<and> CHR '' '' \<notin> set w \<and> length w < 80"

lemma strtok_word: "CHR '' '' \<notin> set w \<Longrightarrow> strtok_words v (w @ cs) = strtok_words (v @ w) cs"
  by (induction w arbitrary: v) auto

lemma strtok_unwords: "list_all word_ok ws \<Longrightarrow> strtok_words [] (unwords ws) = ws"
proof (induction ws rule: unwords.induct)
  case (2 w)
  then show ?case using strtok_word[of w "[]" "[]"] by (simp add: word_ok_def)
next
  case (3 w v vs)
  then have "strtok_words [] (w @ CHR '' '' # unwords (v # vs)) = strtok_words w (CHR '' '' # unwords (v # vs))"
    using strtok_word[of w "[]"] by (simp add: word_ok_def)
  then show ?case using 3 by (simp add: word_ok_def)
qed simp

lemma put_tokens_fill:
  "list_all word_ok ws \<Longrightarrow> length pre + k = TOKEN_NR \<Longrightarrow>
   put_tokens (length pre) ws (pre @ replicate k []) =
     (if length ws \<le> k then Some (pre @ ws @ replicate (k - length ws) []) else None)"
proof (induction ws arbitrary: pre k)
  case (Cons w ws)
  show ?case
  proof (cases k)
    case (Suc j)
    have upd: "(pre @ replicate k [])[length pre := w] = (pre @ [w]) @ replicate j []"
      using Suc by simp
    have "put_tokens (length pre) (w # ws) (pre @ replicate k []) = put_tokens (length (pre @ [w])) ws ((pre @ [w]) @ replicate j [])"
      using Cons.prems Suc unfolding upd[symmetric] by (simp add: word_ok_def)
    also have "\<dots> = (if length ws \<le> j then Some ((pre @ [w]) @ ws @ replicate (j - length ws) []) else None)"
      by (rule Cons.IH) (use Cons.prems Suc in simp_all)
    finally show ?thesis using Suc by simp
  qed (use Cons.prems in simp)
qed simp

definition token_table :: "string list \<Rightarrow> string list" where
  "token_table ws = ws @ replicate (TOKEN_NR - length ws) []"

lemma parse_unwords:
  assumes "list_all word_ok ws"
  shows "parse_token (unwords ws) (replicate TOKEN_NR []) =
    (if length ws \<le> TOKEN_NR then Some (token_table ws) else None)"
  using put_tokens_fill[OF assms, of "[]" TOKEN_NR] strtok_unwords[OF assms]
  by (simp add: parse_token_def token_table_def)

text \<open>
  A line gives its words back: up to ten words, written with a space between them, end up in
  \<open>tokens\<close> in order, with empty rows after them; an eleventh word is written past the table.
\<close>

theorem parse_token_words:
  assumes "list_all word_ok ws"
  shows "parse_token (unwords ws) (replicate TOKEN_NR []) =
    (if length ws \<le> 10 then Some (ws @ replicate (10 - length ws) []) else None)"
  using parse_unwords[OF assms] by (simp add: token_table_def TOKEN_NR_def)

section \<open>Running commands\<close>

definition plain :: "string \<Rightarrow> bool" where
  "plain t \<longleftrightarrow> t \<noteq> [] \<and> t \<noteq> ''&'' \<and> t \<noteq> ''|''"

text \<open>An argument array filled with strings from the start.\<close>

definition filled :: "string list \<Rightarrow> cell list" where
  "filled ws = map Str ws @ replicate (ARGS_MAX - length ws) Unset"

lemma filled_snoc: "length ws < ARGS_MAX \<Longrightarrow> (filled ws)[length ws := c] = map Str ws @ c # replicate (ARGS_MAX - length ws - 1) Unset"
proof -
  assume "length ws < ARGS_MAX"
  then obtain k where "ARGS_MAX - length ws = Suc k" by (metis Suc_diff_Suc)
  then show ?thesis by (simp add: filled_def list_update_append)
qed

lemma filled_Str: "length ws < ARGS_MAX \<Longrightarrow> (filled ws)[length ws := Str w] = filled (ws @ [w])"
  by (simp add: filled_snoc) (simp add: filled_def)

lemma args_plain:
  "toks = pre @ ws @ rest \<Longrightarrow> list_all plain ws \<Longrightarrow> length pre + length ws \<le> ARGS_MAX \<Longrightarrow>
   args_loop toks \<lparr>arg_pos = length pre, arg_pos2 = 0, background = False, pipe_on = False,
     argv = filled pre, argv2 = v2\<rparr> =
   args_loop toks \<lparr>arg_pos = length pre + length ws, arg_pos2 = 0, background = False, pipe_on = False,
     argv = filled (pre @ ws), argv2 = v2\<rparr>"
proof (induction ws arbitrary: pre)
  case (Cons w ws)
  have "args_loop toks \<lparr>arg_pos = length pre, arg_pos2 = 0, background = False, pipe_on = False,
     argv = filled pre, argv2 = v2\<rparr> =
   args_loop toks \<lparr>arg_pos = length (pre @ [w]), arg_pos2 = 0, background = False, pipe_on = False,
     argv = filled (pre @ [w]), argv2 = v2\<rparr>"
    using Cons.prems by (subst args_loop.simps) (simp add: plain_def filled_Str)
  then show ?case using Cons.IH[of "pre @ [w]"] Cons.prems by simp
qed simp

lemma args_piped:
  "toks = pre @ ws @ rest \<Longrightarrow> list_all plain ws \<Longrightarrow> length pre2 + length ws \<le> ARGS_MAX \<Longrightarrow>
   args_loop toks \<lparr>arg_pos = length pre, arg_pos2 = length pre2, background = False, pipe_on = True,
     argv = v1, argv2 = filled pre2\<rparr> =
   args_loop toks \<lparr>arg_pos = length pre + length ws, arg_pos2 = length pre2 + length ws, background = False,
     pipe_on = True, argv = v1, argv2 = filled (pre2 @ ws)\<rparr>"
proof (induction ws arbitrary: pre pre2)
  case (Cons w ws)
  have "args_loop toks \<lparr>arg_pos = length pre, arg_pos2 = length pre2, background = False, pipe_on = True,
     argv = v1, argv2 = filled pre2\<rparr> =
   args_loop toks \<lparr>arg_pos = length (pre @ [w]), arg_pos2 = length (pre2 @ [w]), background = False, pipe_on = True,
     argv = v1, argv2 = filled (pre2 @ [w])\<rparr>"
    using Cons.prems by (subst args_loop.simps) (simp add: plain_def filled_Str)
  then show ?case using Cons.IH[of "pre @ [w]" "pre2 @ [w]"] Cons.prems by simp
qed simp

lemma args_start_filled: "args_start = \<lparr>arg_pos = length ([] :: string list), arg_pos2 = 0, background = False,
  pipe_on = False, argv = filled [], argv2 = filled []\<rparr>"
  by (simp add: args_start_def filled_def)

text \<open>The end of the list of words: an empty token, or \<open>&\<close>.\<close>

lemma args_end:
  assumes "arg_pos a < length toks" "\<not> background a" "toks ! arg_pos a = (if bg then ''&'' else [])"
  shows "args_loop toks a = Some (a\<lparr>background := bg\<rparr>)"
  using assms by (subst args_loop.simps) (cases bg, simp_all)

lemma read_filled: "read_argv (map Str ws @ Null # cs) = Some ws"
  by (induction ws) simp_all

lemma run_program_args:
  assumes "ws \<noteq> []" "length (hd ws) < 26"
  shows "run_program E (map Str ws @ Null # cs) =
    Some (if she_runs E (hd ws @ ''.elf'') then [Execv (hd ws @ ''.elf'') ws]
          else [Execv (hd ws @ ''.elf'') ws, ExecFailed (hd ws), Exit (- 1)])"
  using assms by (cases ws) (auto simp: run_program_def Let_def read_filled)

definition launch :: "sh_env \<Rightarrow> string list \<Rightarrow> sh_call list" where
  "launch E ws = Execv (hd ws @ ''.elf'') ws #
     (if she_runs E (hd ws @ ''.elf'') then [] else [ExecFailed (hd ws), Exit (- 1)])"

definition wait_call :: "sh_env \<Rightarrow> bool \<Rightarrow> sh_call" where
  "wait_call E bg = (if bg then PrintPid (she_child E) else Waitpid (she_child E))"

definition builtins :: "string list" where
  "builtins = [''dumpsched'', ''dumpproc'', ''exit'', ''setenv'', ''env'', ''kill'']"

lemma plain_table:
  assumes "plain w"
  shows "w \<noteq> []" "w \<noteq> ''&''" "w \<noteq> ''|''"
  using assms by (simp_all add: plain_def)

lemma not_builtin:
  assumes "t0 \<notin> set builtins" "3 \<le> length toks" "toks ! 0 = t0"
  shows "process_cmd E toks = map_option (\<lambda>t. (t, True)) (run_command E toks)"
proof -
  have "0 < length toks" "1 < length toks" "2 < length toks" using assms(2) by linarith+
  then have "token toks 0 = Some t0" "token toks 1 = Some (toks ! 1)" "token toks 2 = Some (toks ! 2)"
    using assms(3) by (simp_all add: token_def del: length_greater_0_conv)
  then show ?thesis using assms(1) by (simp add: process_cmd_def builtins_def)
qed

lemma token_table_length: "length ws \<le> TOKEN_NR \<Longrightarrow> length (token_table ws) = TOKEN_NR"
  by (simp add: token_table_def)

text \<open>The sorting loop on a command without a pipe, and on one with a pipe.\<close>

lemma args_simple:
  assumes "list_all plain ws" "length ws + (if bg then 1 else 0) < TOKEN_NR"
  shows "args_loop (token_table (ws @ (if bg then [''&''] else []))) args_start =
    Some \<lparr>arg_pos = length ws, arg_pos2 = 0, background = bg, pipe_on = False, argv = filled ws, argv2 = filled []\<rparr>"
proof -
  let ?t = "token_table (ws @ (if bg then [''&''] else []))"
  let ?a = "\<lparr>arg_pos = length ws, arg_pos2 = 0, background = False, pipe_on = False, argv = filled ws, argv2 = filled []\<rparr>"
  have split: "?t = [] @ ws @ drop (length ws) ?t" by (simp add: token_table_def)
  have sz: "length ([] :: string list) + length ws \<le> ARGS_MAX"
    using assms(2) by (auto simp: TOKEN_NR_def ARGS_MAX_def split: if_splits)
  have "args_loop ?t args_start = args_loop ?t ?a"
    using args_plain[OF split assms(1) sz] by (simp add: args_start_filled)
  also have "\<dots> = Some (?a\<lparr>background := bg\<rparr>)"
    by (rule args_end) (use assms(2) in \<open>auto simp: token_table_def TOKEN_NR_def nth_append\<close>)
  finally show ?thesis by simp
qed

lemma args_pipe:
  assumes "list_all plain ws1" "list_all plain ws2"
    and "length ws1 + 1 + length ws2 + (if bg then 1 else 0) < TOKEN_NR"
  shows "args_loop (token_table (ws1 @ [''|''] @ ws2 @ (if bg then [''&''] else []))) args_start =
    Some \<lparr>arg_pos = length ws1 + 1 + length ws2, arg_pos2 = length ws2, background = bg, pipe_on = True,
      argv = (filled ws1)[length ws1 := Null], argv2 = filled ws2\<rparr>"
proof -
  let ?t = "token_table (ws1 @ [''|''] @ ws2 @ (if bg then [''&''] else []))"
  let ?v = "(filled ws1)[length ws1 := Null]"
  let ?a = "\<lparr>arg_pos = length ws1, arg_pos2 = 0, background = False, pipe_on = False, argv = filled ws1, argv2 = filled []\<rparr>"
  let ?b = "\<lparr>arg_pos = length (ws1 @ [''|'']), arg_pos2 = length ([] :: string list), background = False, pipe_on = True,
     argv = ?v, argv2 = filled []\<rparr>"
  let ?c = "\<lparr>arg_pos = length (ws1 @ [''|'']) + length ws2, arg_pos2 = length ws2, background = False, pipe_on = True,
     argv = ?v, argv2 = filled ws2\<rparr>"
  have split1: "?t = [] @ ws1 @ drop (length ws1) ?t" by (simp add: token_table_def)
  have split2: "?t = (ws1 @ [''|'']) @ ws2 @ drop (length ws1 + 1 + length ws2) ?t" by (simp add: token_table_def)
  have sz1: "length ([] :: string list) + length ws1 \<le> ARGS_MAX"
    and sz2: "length ([] :: string list) + length ws2 \<le> ARGS_MAX"
    using assms(3) by (auto simp: TOKEN_NR_def ARGS_MAX_def split: if_splits)
  have "args_loop ?t args_start = args_loop ?t ?a"
    using args_plain[OF split1 assms(1) sz1] by (simp add: args_start_filled)
  also have "\<dots> = args_loop ?t ?b"
    by (subst args_loop.simps) (simp add: token_table_def nth_append)
  also have "\<dots> = args_loop ?t ?c"
    using args_piped[OF split2 assms(2) sz2] by simp
  also have "\<dots> = Some (?c\<lparr>background := bg\<rparr>)"
    by (rule args_end) (use assms(3) in \<open>auto simp: token_table_def TOKEN_NR_def nth_append\<close>)
  finally show ?thesis by simp
qed

text \<open>
  C25. A command line \<open>w1 ... wn [&]\<close> that is no built-in makes the shell fork; the child, if there is one, executes
  \<open>w1.elf\<close> with exactly the words as its argument vector (and exits with -1 when that fails), and the
  shell waits for it, unless the line ends with \<open>&\<close>: then it prints the pid and goes on.
\<close>

theorem shell_runs_command:
  assumes "ws \<noteq> []" "list_all plain ws" "hd ws \<notin> set builtins" "length (hd ws) < 26"
    and "length ws + (if bg then 1 else 0) < 10"
  shows "process_cmd E (token_table (ws @ (if bg then [''&''] else []))) =
    Some (([Fork, wait_call E bg], if she_child E = - 1 then [] else launch E ws, []), True)"
proof -
  let ?t = "token_table (ws @ (if bg then [''&''] else []))"
  obtain w vs where ws: "ws = w # vs" using assms(1) by (cases ws) auto
  have len: "length ?t = 10" using assms(5) by (simp add: token_table_def TOKEN_NR_def)
  have t0: "?t ! 0 = w" by (simp add: ws token_table_def)
  have lt: "length ws < ARGS_MAX" using assms(5) by (simp add: ARGS_MAX_def split: if_splits)
  have aloop: "args_loop ?t args_start = Some \<lparr>arg_pos = length ws, arg_pos2 = 0, background = bg, pipe_on = False,
      argv = filled ws, argv2 = filled []\<rparr>"
    by (rule args_simple) (use assms in \<open>simp_all add: TOKEN_NR_def\<close>)
  have close: "((filled ws)[length ws := Null])[0 := Str w] = map Str ws @ Null # replicate (ARGS_MAX - length ws - 1) Unset"
    unfolding filled_snoc[OF lt] by (simp add: ws)
  have run: "run_program E (((filled ws)[length ws := Null])[0 := Str w]) = Some (launch E ws)"
    unfolding close run_program_args[OF assms(1,4)] by (simp add: launch_def)
  have *: "run_command E ?t = Some ([Fork, wait_call E bg], if she_child E = - 1 then [] else launch E ws, [])"
    using len by (simp add: run_command_def in_child_def aloop close_args_def token_def t0 run wait_call_def)
  with not_builtin[of w ?t E] show ?thesis
    using assms(3) len t0 by (simp add: ws)
qed

definition demo_env :: sh_env where
  "demo_env = \<lparr>she_getpid = 1, she_child = 5, she_child2 = 6, she_runs = (\<lambda>f. f = ''ls.elf''), she_SIGTERM = 15, she_SIGUSR1 = 10, she_SIGKILL = 9\<rparr>"

theorem shell_runs_command_witness:
  "process_cmd demo_env (token_table [''ls'', ''-l'', ''&'']) =
    Some (([Fork, PrintPid 5], [Execv ''ls.elf'' [''ls'', ''-l'']], []), True)"
  using shell_runs_command[of "[''ls'', ''-l'']" True demo_env]
  by (simp add: plain_def builtins_def wait_call_def launch_def demo_env_def)

text \<open>
  C26. A line \<open>v1 ... vm | w1 ... wn\<close> makes the child open a pipe and fork again: the child's child
  runs \<open>v1\<close> with the words before the bar and writes to the pipe, the child runs \<open>w1\<close> with the words after
  it and reads from the pipe, and each closes the other end first. When a \<open>fork\<close> fails, the processes it would have
  started are missing and the others do the same.
\<close>

theorem shell_runs_pipeline:
  assumes "ws1 \<noteq> []" "list_all plain ws1" "hd ws1 \<notin> set builtins" "length (hd ws1) < 26"
    and "ws2 \<noteq> []" "list_all plain ws2" "length (hd ws2) < 26"
    and "length ws1 + 1 + length ws2 + (if bg then 1 else 0) < 10"
  shows "process_cmd E (token_table (ws1 @ [''|''] @ ws2 @ (if bg then [''&''] else []))) =
    Some (([Fork, wait_call E bg],
           if she_child E = - 1 then [] else [Pipe, Fork, CloseWriteEnd, StdinFromPipe] @ launch E ws2,
           if she_child E = - 1 \<or> she_child2 E = - 1 then [] else [CloseReadEnd, StdoutToPipe] @ launch E ws1), True)"
proof -
  let ?t = "token_table (ws1 @ [''|''] @ ws2 @ (if bg then [''&''] else []))"
  obtain w vs where ws1: "ws1 = w # vs" using assms(1) by (cases ws1) auto
  have len: "length ?t = 10" using assms(8) by (simp add: token_table_def TOKEN_NR_def)
  have t0: "?t ! 0 = w" by (simp add: ws1 token_table_def)
  have lt: "length ws1 < ARGS_MAX" "length ws2 < ARGS_MAX" using assms(8) by (simp_all add: ARGS_MAX_def split: if_splits)
  have aloop: "args_loop ?t args_start = Some \<lparr>arg_pos = length ws1 + 1 + length ws2, arg_pos2 = length ws2,
      background = bg, pipe_on = True, argv = (filled ws1)[length ws1 := Null], argv2 = filled ws2\<rparr>"
    by (rule args_pipe) (use assms in \<open>simp_all add: TOKEN_NR_def\<close>)
  have run1: "run_program E ((filled ws1)[length ws1 := Null]) = Some (launch E ws1)"
    unfolding filled_snoc[OF lt(1)] run_program_args[OF assms(1,4)] by (simp add: launch_def)
  have run2: "run_program E ((filled ws2)[length ws2 := Null]) = Some (launch E ws2)"
    unfolding filled_snoc[OF lt(2)] run_program_args[OF assms(5,7)] by (simp add: launch_def)
  have *: "run_command E ?t = Some ([Fork, wait_call E bg],
      if she_child E = - 1 then [] else [Pipe, Fork, CloseWriteEnd, StdinFromPipe] @ launch E ws2,
      if she_child E = - 1 \<or> she_child2 E = - 1 then [] else [CloseReadEnd, StdoutToPipe] @ launch E ws1)"
    unfolding run_command_def aloop by (simp add: close_args_def in_child_def run1 run2 wait_call_def)
  with not_builtin[of w ?t E] show ?thesis
    using assms(3) len t0 by (simp add: ws1)
qed

theorem shell_runs_pipeline_witness:
  "process_cmd demo_env (token_table [''ls'', ''-l'', ''|'', ''more'']) =
    Some (([Fork, Waitpid 5],
      [Pipe, Fork, CloseWriteEnd, StdinFromPipe, Execv ''more.elf'' [''more''], ExecFailed ''more'', Exit (- 1)],
      [CloseReadEnd, StdoutToPipe, Execv ''ls.elf'' [''ls'', ''-l'']]), True)"
  using shell_runs_pipeline[of "[''ls'', ''-l'']" "[''more'']" False demo_env]
  by (simp add: plain_def builtins_def wait_call_def launch_def demo_env_def)

text \<open>
  Ten plain words fill the table of tokens, and the loop that looks for its first empty row then reads
  past it: the command has no defined result, although each of the words was stored.
\<close>

theorem shell_ten_words:
  assumes "list_all plain ws" "length ws = 10" "hd ws \<notin> set builtins"
  shows "process_cmd E (token_table ws) = None"
proof -
  have t: "token_table ws = ws" using assms(2) by (simp add: token_table_def TOKEN_NR_def)
  have split: "ws = [] @ ws @ []" by simp
  have "args_loop ws args_start = args_loop ws \<lparr>arg_pos = length ws, arg_pos2 = 0, background = False,
      pipe_on = False, argv = filled ws, argv2 = filled []\<rparr>"
    using args_plain[OF split assms(1), of "filled []"] assms(2) by (simp add: args_start_filled ARGS_MAX_def)
  also have "\<dots> = None" by (subst args_loop.simps) simp
  finally have "run_command E ws = None" by (simp add: run_command_def)
  moreover have "ws ! 0 = hd ws" using assms(2) by (cases ws) auto
  ultimately show ?thesis using not_builtin[of "hd ws" ws E] assms by (simp add: t)
qed

theorem shell_ten_words_witness:
  "process_cmd demo_env (token_table (replicate 10 ''a'')) = None"
  using shell_ten_words[of "replicate 10 ''a''" demo_env]
  by (simp add: plain_def builtins_def list_all_length)

theorem parse_token_words_witness:
  "parse_token ''ls -l'' (replicate TOKEN_NR []) = Some [''ls'', ''-l'', [], [], [], [], [], [], [], []]"
  using parse_token_words[of "[''ls'', ''-l'']"] by (simp add: word_ok_def numeral_nat)

end
