(* ===== verification/Syscalls.thy ===== *)
theory Syscalls
  imports KRun "HOL-Library.Monad_Syntax"
begin

text \<open>
  The way into the kernel: the system call numbers of \<open>so3/include/syscall.h\<close> and of the C library's
  \<open>syscall.h\<close>, the stubs of \<open>crt0.S\<close>, and the dispatcher \<open>syscall_handle\<close> of \<open>so3/kernel/syscalls.c\<close>.
  The handlers of \<open>process.c\<close> are those of \<open>KSys\<close> and \<open>Exec\<close>; the others are not in the repository.
\<close>

section \<open>Numbers\<close>

text \<open>The names are written without their prefix: \<open>SYSCALL_\<close>, \<open>syscall\<close>, and \<open>sys_\<close> for the stubs.\<close>

definition kernel_numbers :: "(string \<times> nat) list" where
  "kernel_numbers = [
     (''EXIT'', 1), (''EXECVE'', 2), (''WAITPID'', 3), (''READ'', 4),
     (''WRITE'', 5), (''FORK'', 7), (''PTRACE'', 8), (''READDIR'', 9),
     (''OPEN'', 14), (''CLOSE'', 15), (''THREAD_CREATE'', 16),
     (''THREAD_JOIN'', 17), (''THREAD_EXIT'', 18), (''PIPE'', 19),
     (''IOCTL'', 20), (''FCNTL'', 21), (''DUP'', 22), (''DUP2'', 23),
     (''SOCKET'', 26), (''BIND'', 27), (''LISTEN'', 28), (''ACCEPT'', 29),
     (''CONNECT'', 30), (''RECV'', 31), (''SEND'', 32), (''SENDTO'', 33),
     (''STAT'', 34), (''MMAP'', 35), (''GETPID'', 37), (''GETTIMEOFDAY'', 38),
     (''SETTIMEOFDAY'', 39), (''CLOCK_GETTIME'', 40), (''THREAD_YIELD'', 43),
     (''SBRK'', 45), (''SIGACTION'', 46), (''KILL'', 47), (''SIGRETURN'', 48),
     (''LSEEK'', 50), (''SYMLINK'', 51), (''MUTEX_LOCK'', 60),
     (''MUTEX_UNLOCK'', 61), (''NANOSLEEP'', 70), (''PROCNAME'', 80),
     (''SYSINFO'', 99), (''SETSOCKOPT'', 110), (''RECVFROM'', 111),
     (''FORK2'', 112)]"

definition libc_numbers :: "(string \<times> nat) list" where
  "libc_numbers = [
     (''Halt'', 0), (''Exit'', 1), (''Execve'', 2), (''Waitpid'', 3),
     (''Read'', 4), (''Write'', 5), (''Pause'', 6), (''Fork'', 7),
     (''Ptrace'', 8), (''Readdir'', 9), (''Chdir'', 10), (''Getcwd'', 11),
     (''Create'', 12), (''Unlink'', 13), (''Open'', 14), (''Close'', 15),
     (''ThreadCreate'', 16), (''ThreadJoin'', 17), (''ThreadExit'', 18),
     (''Pipe'', 19), (''Ioctl'', 20), (''Fcntl'', 21), (''Dup'', 22),
     (''Dup2'', 23), (''SchedSetParam'', 25), (''Socket'', 26), (''Bind'', 27),
     (''Listen'', 28), (''Accept'', 29), (''Connect'', 30), (''Recv'', 31),
     (''Send'', 32), (''SendTo'', 33), (''Stat'', 34), (''Mmap'', 35),
     (''EndProc'', 36), (''Getpid'', 37), (''GetTimeOfDay'', 38),
     (''SetTimeOfDay'', 39), (''ClockGetTime'', 40), (''ThreadYield'', 43),
     (''Sbrk'', 45), (''Sigaction'', 46), (''Kill'', 47), (''Sigreturn'', 48),
     (''Lseek'', 50), (''MutexLock'', 60), (''MutexUnlock'', 61), (''Ps'', 63),
     (''Nanosleep'', 70), (''Procname'', 80), (''Sysinfo'', 99),
     (''Setsockopt'', 110), (''Recvfrom'', 111), (''Fork2'', 112)]"

text \<open>The stubs: the function a program calls, and the number it puts into \<open>r7\<close>.\<close>

definition stubs :: "(string \<times> string) list" where
  "stubs = [
     (''halt'', ''Halt''), (''write'', ''Write''), (''read'', ''Read''),
     (''exit'', ''Exit''), (''execve'', ''Execve''), (''waitpid'', ''Waitpid''),
     (''pause'', ''Pause''), (''fork'', ''Fork''), (''readdir'', ''Readdir''),
     (''chdir'', ''Chdir''), (''getcwd'', ''Getcwd''), (''creat'', ''Create''),
     (''unlink'', ''Unlink''), (''open'', ''Open''), (''close'', ''Close''),
     (''thread_create'', ''ThreadCreate''), (''thread_join'', ''ThreadJoin''),
     (''thread_exit'', ''ThreadExit''), (''thread_yield'', ''ThreadYield''),
     (''pipe'', ''Pipe''), (''ioctl'', ''Ioctl''), (''fcntl'', ''Fcntl''),
     (''stat'', ''Stat''), (''dup'', ''Dup''), (''dup2'', ''Dup2''),
     (''sched_setparam'', ''SchedSetParam''), (''socket'', ''Socket''),
     (''bind'', ''Bind''), (''listen'', ''Listen''), (''accept'', ''Accept''),
     (''connect'', ''Connect''), (''mmap'', ''Mmap''), (''ptrace'', ''Ptrace''),
     (''send'', ''Send''), (''recv'', ''Recv''), (''recvfrom'', ''Recvfrom''),
     (''setsockopt'', ''Setsockopt''), (''sendto'', ''SendTo''),
     (''getpid'', ''Getpid''), (''gettimeofday'', ''GetTimeOfDay''),
     (''settimeofday'', ''SetTimeOfDay''), (''clock_gettime'', ''ClockGetTime''),
     (''sbrk'', ''Sbrk''), (''info'', ''Sysinfo''), (''procname'', ''Procname''),
     (''lseek'', ''Lseek''), (''mutex_lock'', ''MutexLock''),
     (''mutex_unlock'', ''MutexUnlock''), (''sigaction'', ''Sigaction''),
     (''kill'', ''Kill''), (''sigreturn'', ''Sigreturn''),
     (''nanosleep'', ''Nanosleep''), (''fork2'', ''Fork2'')]"

definition SYSINFO_DUMP_HEAP :: u32 where "SYSINFO_DUMP_HEAP = 0"
definition SYSINFO_DUMP_SCHED :: u32 where "SYSINFO_DUMP_SCHED = 1"
definition SYSINFO_TEST_MALLOC :: u32 where "SYSINFO_TEST_MALLOC = 2"
definition SYSINFO_PRINTK :: u32 where "SYSINFO_PRINTK = 3"
definition SYSINFO_DUMP_PROC :: u32 where "SYSINFO_DUMP_PROC = 4"

section \<open>The dispatcher\<close>

text \<open>The configuration of the kernel, and what \<open>syscall_handle\<close> calls outside the repository.\<close>

record config =
  CONFIG_MMU :: bool
  CONFIG_IPC_PIPE :: bool
  CONFIG_PROC_ENV :: bool
  CONFIG_IPC_SIGNAL :: bool
  CONFIG_NET :: bool
  CONFIG_APP_TEST_MALLOC :: bool

record 'm sysenv =
  sy_call :: "string \<Rightarrow> u32 list \<Rightarrow> 'm kstate \<Rightarrow> (u32 \<times> 'm kstate) option"
  sy_string :: "addr \<Rightarrow> 'm kstate \<Rightarrow> string"
  sy_strings :: "addr \<Rightarrow> 'm kstate \<Rightarrow> string list option"
  sy_put_bytes :: "(addr \<Rightarrow> u8) \<Rightarrow> 'm \<Rightarrow> 'm"
  sy_lock :: "addr \<Rightarrow> u32 \<Rightarrow> addr"
  sy_ENOSYS :: u32
  sy_errno :: addr

text \<open>
  A case that returns what a function outside the repository gives, and one that drops its value
  and gives \<open>r\<close>.
\<close>

type_synonym 'm body = "'m kstate \<Rightarrow> (int \<times> 'm kstate) option"

definition outside :: "'m sysenv \<Rightarrow> string \<Rightarrow> u32 list \<Rightarrow> 'm body" where
  "outside Y f xs s = map_option (\<lambda>(r, t). (sint r, t)) (sy_call Y f xs s)"

definition outside_void :: "'m sysenv \<Rightarrow> string \<Rightarrow> u32 list \<Rightarrow> int \<Rightarrow> 'm body" where
  "outside_void Y f xs r s = map_option (\<lambda>(_, t). (r, t)) (sy_call Y f xs s)"

definition mutex_call :: "'m sysenv \<Rightarrow> string \<Rightarrow> u32 \<Rightarrow> 'm body" where
  "mutex_call Y f r0 s = do { a \<leftarrow> current_pcb s; outside Y f [sy_lock Y a r0] s }"

definition execve_call :: "'m kenv \<Rightarrow> 'm xenv \<Rightarrow> 'm sysenv \<Rightarrow> addr \<Rightarrow> addr \<Rightarrow> addr \<Rightarrow> 'm body" where
  "execve_call E X Y r0 r1 r2 s = do {
     (r, image, t) \<leftarrow> do_execve E X (sy_string Y r0 s) (sy_strings Y r1 s) (sy_strings Y r2 s) s;
     Some (r, case image of None \<Rightarrow> t | Some m \<Rightarrow> t\<lparr>k_mm := sy_put_bytes Y m (k_mm t)\<rparr>) }"

definition sysinfo :: "config \<Rightarrow> 'm sysenv \<Rightarrow> u32 \<Rightarrow> u32 \<Rightarrow> 'm body" where
  "sysinfo C Y r0 r1 s =
     (if r0 = SYSINFO_DUMP_HEAP then outside_void Y ''dump_heap'' [] 0 s
      else if r0 = SYSINFO_DUMP_SCHED then outside_void Y ''dump_sched'' [] 0 s
      else if r0 = SYSINFO_DUMP_PROC \<and> CONFIG_MMU C then map_option (Pair 0) (dump_proc s)
      else if r0 = SYSINFO_TEST_MALLOC \<and> CONFIG_APP_TEST_MALLOC C then outside_void Y ''test_malloc'' [r1] 0 s
      else if r0 = SYSINFO_PRINTK then Some (0, klog (Printk (sy_string Y r1 s)) s)
      else Some (0, s))"

text \<open>
  The cases of the switch in the order of the source; \<open>stack n\<close> is the \<open>n\<close>-th argument on the user
  stack. A case that assigns no \<open>result\<close> leaves it at -1.
\<close>

definition mmu_cases :: "'m kenv \<Rightarrow> 'm xenv \<Rightarrow> 'm sysenv \<Rightarrow> u32 \<Rightarrow> u32 \<Rightarrow> u32 \<Rightarrow> (string \<times> 'm body) list" where
  "mmu_cases E X Y r0 r1 r2 = [
     (''GETPID'', \<lambda>s. map_option (\<lambda>p. (sint p, s)) (do_getpid s)),
     (''GETTIMEOFDAY'', outside Y ''do_get_time_of_day'' [r0]),
     (''CLOCK_GETTIME'', outside Y ''do_get_clock_time'' [r0, r1]),
     (''SETTIMEOFDAY'', \<lambda>s. Some (- 1, set_errno (- sy_ENOSYS Y) (klog SettimeofdayUnsupported s))),
     (''EXIT'', \<lambda>s. map_option (Pair (- 1)) (do_exit E r0 s)),
     (''EXECVE'', execve_call E X Y r0 r1 r2),
     (''FORK'', do_fork E),
     (''FORK2'', do_fork2 E),
     (''WAITPID'', do_waitpid E r0 r1 r2)]"

definition file_cases :: "config \<Rightarrow> 'm sysenv \<Rightarrow> (nat \<Rightarrow> u32) \<Rightarrow> u32 \<Rightarrow> u32 \<Rightarrow> u32 \<Rightarrow> u32 \<Rightarrow> (string \<times> 'm body) list" where
  "file_cases C Y stack r0 r1 r2 r3 = [
     (''READ'', outside Y ''do_read'' [r0, r1, r2]),
     (''WRITE'', outside Y ''do_write'' [r0, r1, r2]),
     (''OPEN'', outside Y ''do_open'' [r0, r1]),
     (''CLOSE'', outside_void Y ''do_close'' [r0] 0),
     (''THREAD_CREATE'', outside Y ''do_thread_create'' [r0, r1, r2, r3]),
     (''THREAD_JOIN'', outside Y ''do_thread_join'' [r0, r1]),
     (''THREAD_EXIT'', outside_void Y ''do_thread_exit'' [r0] 0),
     (''THREAD_YIELD'', outside_void Y ''do_thread_yield'' [] 0),
     (''READDIR'', outside Y ''do_readdir'' [r0, r1, r2]),
     (''IOCTL'', outside Y ''do_ioctl'' [r0, r1, r2]),
     (''FCNTL'', outside Y ''do_fcntl'' [r0, r1, r2]),
     (''LSEEK'', outside Y ''do_lseek'' [r0, r1, r2])] @
     (if CONFIG_IPC_PIPE C then [(''PIPE'', outside Y ''do_pipe'' [r0])] else []) @ [
     (''DUP'', outside Y ''do_dup'' [r0]),
     (''DUP2'', outside Y ''do_dup2'' [r0, r1]),
     (''STAT'', outside Y ''do_stat'' [r0, r1]),
     (''MMAP'', outside Y ''do_mmap'' [r0, r1, r2, r3, stack 0]),
     (''NANOSLEEP'', outside Y ''do_nanosleep'' [r0, r1])]"

definition process_cases :: "config \<Rightarrow> 'm kenv \<Rightarrow> 'm sysenv \<Rightarrow> u32 \<Rightarrow> u32 \<Rightarrow> u32 \<Rightarrow> u32 \<Rightarrow> (string \<times> 'm body) list" where
  "process_cases C E Y r0 r1 r2 r3 =
     (if CONFIG_PROC_ENV C then [(''SBRK'', do_sbrk E r0)] else []) @ [
     (''MUTEX_LOCK'', mutex_call Y ''do_mutex_lock'' r0),
     (''MUTEX_UNLOCK'', mutex_call Y ''do_mutex_unlock'' r0)] @
     (if CONFIG_MMU C then [(''PTRACE'', outside Y ''do_ptrace'' [r0, r1, r2, r3])] else []) @ [
     (''PROCNAME'', \<lambda>s. Some (- 1, dump_procname (sy_string Y r0 s) s))] @
     (if CONFIG_IPC_SIGNAL C then [
       (''SIGACTION'', outside Y ''do_sigaction'' [r0, r1, r2]),
       (''KILL'', outside Y ''do_kill'' [r0, r1]),
       (''SIGRETURN'', outside_void Y ''do_sigreturn'' [] (- 1))] else [])"

definition net_cases :: "'m sysenv \<Rightarrow> (nat \<Rightarrow> u32) \<Rightarrow> u32 \<Rightarrow> u32 \<Rightarrow> u32 \<Rightarrow> u32 \<Rightarrow> (string \<times> 'm body) list" where
  "net_cases Y stack r0 r1 r2 r3 = [
     (''SOCKET'', outside Y ''do_socket'' [r0, r1, r2]),
     (''BIND'', outside Y ''do_bind'' [r0, r1, r2]),
     (''LISTEN'', outside Y ''do_listen'' [r0, r1]),
     (''ACCEPT'', outside Y ''do_accept'' [r0, r1, r2]),
     (''CONNECT'', outside Y ''do_connect'' [r0, r1, r2]),
     (''RECV'', outside Y ''do_recv'' [r0, r1, r2, r3]),
     (''SEND'', outside Y ''do_send'' [r0, r1, r2, r3]),
     (''SENDTO'', outside Y ''do_sendto'' [r0, r1, r2, r3, stack 0, stack 1]),
     (''SETSOCKOPT'', outside Y ''do_setsockopt'' [r0, r1, r2, r3, stack 0]),
     (''RECVFROM'', outside Y ''do_recvfrom'' [r0, r1, r2, r3, stack 0, stack 1])]"

definition syscall_cases ::
  "config \<Rightarrow> 'm kenv \<Rightarrow> 'm xenv \<Rightarrow> 'm sysenv \<Rightarrow> (nat \<Rightarrow> u32) \<Rightarrow> u32 \<Rightarrow> u32 \<Rightarrow> u32 \<Rightarrow> u32 \<Rightarrow> (string \<times> 'm body) list" where
  "syscall_cases C E X Y stack r0 r1 r2 r3 =
     (if CONFIG_MMU C then mmu_cases E X Y r0 r1 r2 else []) @
     file_cases C Y stack r0 r1 r2 r3 @
     process_cases C E Y r0 r1 r2 r3 @
     (if CONFIG_NET C then net_cases Y stack r0 r1 r2 r3 else []) @
     [(''SYSINFO'', sysinfo C Y r0 r1)]"

definition number_of :: "(string \<times> nat) list \<Rightarrow> string \<Rightarrow> nat" where
  "number_of ns l = (case map_of ns l of Some n \<Rightarrow> n | None \<Rightarrow> 0)"

text \<open>
  \<open>syscall_handle\<close>: the number, the address of the caller's \<open>errno\<close> and the stack arguments come
  from the registers the stub has set.
\<close>

definition set_errno_addr :: "addr \<Rightarrow> 'm kstate \<Rightarrow> 'm kstate" where
  "set_errno_addr a s = s\<lparr>k_errno_addr := a\<rparr>"

definition get_errno_addr :: "'m kstate \<Rightarrow> addr" where
  "get_errno_addr s = k_errno_addr s"

definition syscall_handle ::
  "config \<Rightarrow> 'm kenv \<Rightarrow> 'm xenv \<Rightarrow> 'm sysenv \<Rightarrow> nat \<Rightarrow> addr \<Rightarrow> (nat \<Rightarrow> u32) \<Rightarrow> u32 \<Rightarrow> u32 \<Rightarrow> u32 \<Rightarrow> u32 \<Rightarrow> 'm body" where
  "syscall_handle C E X Y syscall_no errno_addr stack r0 r1 r2 r3 s =
     (let s0 = set_errno_addr errno_addr s in
      case map_of (map (\<lambda>(l, b). (number_of kernel_numbers l, b)) (syscall_cases C E X Y stack r0 r1 r2 r3)) syscall_no of
        Some b \<Rightarrow> b s0
      | None \<Rightarrow> Some (- 1, klog (SyscallUnhandled syscall_no) s0))"

text \<open>A stub: \<open>errno\<close> is cleared, the number goes to \<open>r7\<close> and the address of \<open>errno\<close> to \<open>r10\<close>.\<close>

definition call_stub ::
  "config \<Rightarrow> 'm kenv \<Rightarrow> 'm xenv \<Rightarrow> 'm sysenv \<Rightarrow> string \<Rightarrow> (nat \<Rightarrow> u32) \<Rightarrow> u32 \<Rightarrow> u32 \<Rightarrow> u32 \<Rightarrow> u32 \<Rightarrow> 'm body" where
  "call_stub C E X Y name stack r0 r1 r2 r3 s = do {
     symbol \<leftarrow> map_of stubs name;
     syscall_handle C E X Y (number_of libc_numbers symbol) (sy_errno Y) stack r0 r1 r2 r3 (put_user (sy_errno Y) 0 s) }"

section \<open>The two tables of numbers\<close>

text \<open>
  The label of the case a stub is meant for: \<open>sys_x\<close> goes to \<open>SYSCALL_X\<close>, except for \<open>sys_info\<close>.
  Lower-case letters become upper-case ones when bit 5 is cleared.
\<close>

fun toupper :: "char \<Rightarrow> char" where
  "toupper (Char b0 b1 b2 b3 b4 b5 b6 b7) = Char b0 b1 b2 b3 b4 (b5 \<and> (\<not> b6 \<or> b7)) b6 b7"

definition kernel_label :: "string \<Rightarrow> string" where
  "kernel_label name = (if name = ''info'' then ''SYSINFO'' else map toupper name)"

definition stub_agrees :: "string \<times> string \<Rightarrow> bool" where
  "stub_agrees = (\<lambda>(name, symbol).
     if kernel_label name \<in> set (map fst kernel_numbers)
     then number_of libc_numbers symbol = number_of kernel_numbers (kernel_label name)
     else number_of libc_numbers symbol \<notin> set (map snd kernel_numbers))"

lemma stubs_agree: "list_all stub_agrees stubs"
  by code_simp

lemma kernel_tables_distinct: "distinct (map fst kernel_numbers)" "distinct (map snd kernel_numbers)"
  by code_simp+

lemma stubs_distinct: "distinct (map fst stubs)"
  by code_simp

lemma case_labels:
  "map fst (mmu_cases E X Y r0 r1 r2) = [''GETPID'', ''GETTIMEOFDAY'', ''CLOCK_GETTIME'',
     ''SETTIMEOFDAY'', ''EXIT'', ''EXECVE'', ''FORK'', ''FORK2'', ''WAITPID'']"
  "map fst (file_cases C Y stack r0 r1 r2 r3) = [''READ'', ''WRITE'', ''OPEN'', ''CLOSE'',
     ''THREAD_CREATE'', ''THREAD_JOIN'', ''THREAD_EXIT'', ''THREAD_YIELD'',
     ''READDIR'', ''IOCTL'', ''FCNTL'', ''LSEEK''] @
     (if CONFIG_IPC_PIPE C then [''PIPE''] else []) @
     [''DUP'', ''DUP2'', ''STAT'', ''MMAP'', ''NANOSLEEP'']"
  "map fst (process_cases C K Y r0 r1 r2 r3) =
     (if CONFIG_PROC_ENV C then [''SBRK''] else []) @ [''MUTEX_LOCK'', ''MUTEX_UNLOCK''] @
     (if CONFIG_MMU C then [''PTRACE''] else []) @ [''PROCNAME''] @
     (if CONFIG_IPC_SIGNAL C then [''SIGACTION'', ''KILL'', ''SIGRETURN''] else [])"
  "map fst (net_cases Y stack r0 r1 r2 r3) = [''SOCKET'', ''BIND'', ''LISTEN'', ''ACCEPT'',
     ''CONNECT'', ''RECV'', ''SEND'', ''SENDTO'', ''SETSOCKOPT'', ''RECVFROM'']"
  by (simp_all add: mmu_cases_def file_cases_def process_cases_def net_cases_def)

definition all_labels :: "string list" where
  "all_labels = [''GETPID'', ''GETTIMEOFDAY'', ''CLOCK_GETTIME'', ''SETTIMEOFDAY'',
     ''EXIT'', ''EXECVE'', ''FORK'', ''FORK2'', ''WAITPID'', ''READ'',
     ''WRITE'', ''OPEN'', ''CLOSE'', ''THREAD_CREATE'', ''THREAD_JOIN'',
     ''THREAD_EXIT'', ''THREAD_YIELD'', ''READDIR'', ''IOCTL'', ''FCNTL'',
     ''LSEEK'', ''PIPE'', ''DUP'', ''DUP2'', ''STAT'', ''MMAP'',
     ''NANOSLEEP'', ''SBRK'', ''MUTEX_LOCK'', ''MUTEX_UNLOCK'', ''PTRACE'',
     ''PROCNAME'', ''SIGACTION'', ''KILL'', ''SIGRETURN'', ''SOCKET'',
     ''BIND'', ''LISTEN'', ''ACCEPT'', ''CONNECT'', ''RECV'', ''SEND'',
     ''SENDTO'', ''SETSOCKOPT'', ''RECVFROM'', ''SYSINFO'']"

lemma all_labels_numbered: "list_all (\<lambda>l. l \<in> set (map fst kernel_numbers)) all_labels"
  by code_simp

lemma full_labels:
  assumes "CONFIG_MMU C" "CONFIG_IPC_PIPE C" "CONFIG_PROC_ENV C" "CONFIG_IPC_SIGNAL C" "CONFIG_NET C"
  shows "map fst (syscall_cases C E X Y stack r0 r1 r2 r3) = all_labels"
  using assms by (simp add: syscall_cases_def case_labels all_labels_def)

lemma if_subset: "set xs \<subseteq> A \<Longrightarrow> set ys \<subseteq> A \<Longrightarrow> set (if c then xs else ys) \<subseteq> A"
  by simp

lemma case_labels_numbered:
  "fst ` set (syscall_cases C E X Y stack r0 r1 r2 r3) \<subseteq> set (map fst kernel_numbers)"
proof -
  have mem: "x \<in> set (map fst kernel_numbers)" if "x \<in> set all_labels" for x
    using all_labels_numbered that unfolding list_all_iff by (rule bspec)
  have "set (map fst (syscall_cases C E X Y stack r0 r1 r2 r3)) \<subseteq> set all_labels"
    unfolding syscall_cases_def map_append set_append if_distrib[of "map fst"] case_labels
    by (intro Un_least if_subset) (simp_all add: all_labels_def)
  then show ?thesis using mem by (auto simp only: set_map)
qed

text \<open>A lookup by number is a lookup by label when the numbers of the labels differ.\<close>

lemma map_of_renamed:
  assumes "inj_on f (insert l (fst ` set xs))"
  shows "map_of (map (\<lambda>(k, v). (f k, v)) xs) (f l) = map_of xs l"
  using assms
proof (induction xs)
  case (Cons x xs)
  obtain k v where x: "x = (k, v)" by (cases x)
  have "inj_on f (insert l (fst ` set xs))" using Cons.prems by (rule inj_on_subset) auto
  moreover have "f k = f l \<longleftrightarrow> k = l" using Cons.prems by (auto simp: x inj_on_def)
  ultimately show ?case using Cons.IH by (simp add: x eq_commute)
qed simp

lemma map_of_renamed_None:
  assumes "n \<notin> f ` fst ` set xs"
  shows "map_of (map (\<lambda>(k, v). (f k, v)) xs) n = None"
  using assms by (force simp: map_of_eq_None_iff)

lemma number_of_in: "l \<in> set (map fst ns) \<Longrightarrow> distinct (map fst ns) \<Longrightarrow> (l, number_of ns l) \<in> set ns"
  by (cases "map_of ns l") (auto simp: number_of_def map_of_eq_None_iff dest: map_of_SomeD)

lemma number_of_inj:
  assumes "distinct (map fst ns)" "distinct (map snd ns)"
  shows "inj_on (number_of ns) (set (map fst ns))"
proof (rule inj_onI)
  fix x y assume xy: "x \<in> set (map fst ns)" "y \<in> set (map fst ns)" "number_of ns x = number_of ns y"
  then have "(x, number_of ns x) \<in> set ns" "(y, number_of ns x) \<in> set ns"
    using number_of_in assms(1) by metis+
  then show "x = y" using assms(2) unfolding distinct_map by (metis inj_onD prod.inject snd_conv)
qed

section \<open>From a stub to its handler\<close>

definition enter :: "'m sysenv \<Rightarrow> 'm kstate \<Rightarrow> 'm kstate" where
  "enter Y s = set_errno_addr (sy_errno Y) (put_user (sy_errno Y) 0 s)"

lemma case_by_label:
  assumes "stub_agrees (name, symbol)"
  shows "map_of (map (\<lambda>(l, b). (number_of kernel_numbers l, b)) (syscall_cases C E X Y stack r0 r1 r2 r3))
      (number_of libc_numbers symbol) = map_of (syscall_cases C E X Y stack r0 r1 r2 r3) (kernel_label name)"
    (is "map_of (map ?f ?cs) ?n = map_of ?cs ?l")
proof -
  note inj = number_of_inj[OF kernel_tables_distinct]
  note sub = case_labels_numbered[of C E X Y stack r0 r1 r2 r3]
  show ?thesis
  proof (cases "?l \<in> set (map fst kernel_numbers)")
    case True
    then have "inj_on (number_of kernel_numbers) (insert ?l (fst ` set ?cs))"
      using sub by (intro inj_on_subset[OF inj]) blast
    moreover have "?n = number_of kernel_numbers ?l" using assms True by (simp add: stub_agrees_def del: set_map)
    ultimately show ?thesis using map_of_renamed by metis
  next
    case False
    then have "?n \<notin> set (map snd kernel_numbers)" using assms by (simp add: stub_agrees_def del: set_map)
    moreover have "number_of kernel_numbers ` fst ` set ?cs \<subseteq> set (map snd kernel_numbers)"
    proof
      fix n assume "n \<in> number_of kernel_numbers ` fst ` set ?cs"
      then obtain l where "l \<in> set (map fst kernel_numbers)" "n = number_of kernel_numbers l" using sub by blast
      then show "n \<in> set (map snd kernel_numbers)"
        using number_of_in[OF _ kernel_tables_distinct(1)] by (metis image_eqI set_map snd_conv)
    qed
    ultimately have "map_of (map ?f ?cs) ?n = None" by (intro map_of_renamed_None) blast
    moreover have "map_of ?cs ?l = None" unfolding map_of_eq_None_iff using False sub by blast
    ultimately show ?thesis by simp
  qed
qed

lemma stub_symbol:
  assumes "(name, symbol) \<in> set stubs"
  shows "map_of stubs name = Some symbol" "stub_agrees (name, symbol)"
proof -
  show "map_of stubs name = Some symbol" by (rule map_of_is_SomeI[OF stubs_distinct assms])
  show "stub_agrees (name, symbol)" using stubs_agree assms unfolding list_all_iff by (rule bspec)
qed

lemma stub_served:
  assumes "(name, symbol) \<in> set stubs" and "map_of (syscall_cases C E X Y stack r0 r1 r2 r3) (kernel_label name) = Some b"
  shows "call_stub C E X Y name stack r0 r1 r2 r3 s = b (enter Y s)"
  using stub_symbol[OF assms(1)] assms(2)
  by (simp add: call_stub_def syscall_handle_def case_by_label enter_def Let_def)

text \<open>
  C16. The two tables of numbers and the switch agree: in every configuration, each stub of the C library
  ends in the body of the case its name stands for, run on the state in which \<open>errno\<close> is cleared and
  its address known; a stub without such a case is an unhandled call.
\<close>

theorem stub_reaches_case:
  assumes "(name, symbol) \<in> set stubs"
  shows "call_stub C E X Y name stack r0 r1 r2 r3 s =
    (case map_of (syscall_cases C E X Y stack r0 r1 r2 r3) (kernel_label name) of
       Some b \<Rightarrow> b (enter Y s)
     | None \<Rightarrow> Some (- 1, klog (SyscallUnhandled (number_of libc_numbers symbol)) (enter Y s)))"
  using stub_symbol[OF assms]
  unfolding enter_def by (simp add: call_stub_def syscall_handle_def case_by_label Let_def)

definition full_config :: config where
  "full_config = \<lparr>CONFIG_MMU = True, CONFIG_IPC_PIPE = True, CONFIG_PROC_ENV = True, CONFIG_IPC_SIGNAL = True,
     CONFIG_NET = True, CONFIG_APP_TEST_MALLOC = True\<rparr>"

definition sim_sys :: "sim_mm sysenv" where
  "sim_sys = \<lparr>sy_call = (\<lambda>f xs s. Some (0, s)), sy_string = (\<lambda>a s. []), sy_strings = (\<lambda>a s. None),
     sy_put_bytes = (\<lambda>b m. m), sy_lock = (\<lambda>p i. p + i), sy_ENOSYS = 38, sy_errno = 0x2000\<rparr>"

lemma full_config_on [simp]:
  "CONFIG_MMU full_config" "CONFIG_IPC_PIPE full_config" "CONFIG_PROC_ENV full_config"
  "CONFIG_IPC_SIGNAL full_config" "CONFIG_NET full_config"
  by (simp_all add: full_config_def)

lemma enter_sim_run: "enter sim_sys sim_run = sim_run"
  by (simp add: enter_def set_errno_addr_def put_user_def sim_sys_def sim_run_def sim_root_def sim_boot_def fun_upd_idem)

lemma kernel_label_process:
  "kernel_label ''getpid'' = ''GETPID''" "kernel_label ''exit'' = ''EXIT''" "kernel_label ''execve'' = ''EXECVE''"
  "kernel_label ''fork'' = ''FORK''" "kernel_label ''fork2'' = ''FORK2''" "kernel_label ''waitpid'' = ''WAITPID''"
  "kernel_label ''sbrk'' = ''SBRK''"
  by code_simp+

lemma process_stubs:
  "(''getpid'', ''Getpid'') \<in> set stubs" "(''exit'', ''Exit'') \<in> set stubs" "(''execve'', ''Execve'') \<in> set stubs"
  "(''fork'', ''Fork'') \<in> set stubs" "(''fork2'', ''Fork2'') \<in> set stubs" "(''waitpid'', ''Waitpid'') \<in> set stubs"
  "(''sbrk'', ''Sbrk'') \<in> set stubs"
  by code_simp+

theorem stub_reaches_case_witness:
  "\<forall>X. call_stub full_config sim_env X sim_sys ''fork'' (\<lambda>_. 0) 0 0 0 0 sim_run = Some (2, sim_forked)"
  using stub_reaches_case[OF process_stubs(4), of full_config sim_env _ sim_sys "\<lambda>_. 0" 0 0 0 0 sim_run]
  by (simp add: kernel_label_process enter_sim_run sim_forked_fork syscall_cases_def mmu_cases_def)

text \<open>
  In the configuration of the labs the process calls a program makes are the handlers of
  \<open>process.c\<close>, with the arguments of the call in order.
\<close>

theorem process_calls_served:
  assumes "CONFIG_MMU C" "CONFIG_PROC_ENV C"
  shows "call_stub C E X Y ''getpid'' stack r0 r1 r2 r3 s = map_option (\<lambda>p. (sint p, enter Y s)) (do_getpid (enter Y s)) \<and>
    call_stub C E X Y ''exit'' stack r0 r1 r2 r3 s = map_option (Pair (- 1)) (do_exit E r0 (enter Y s)) \<and>
    call_stub C E X Y ''execve'' stack r0 r1 r2 r3 s = execve_call E X Y r0 r1 r2 (enter Y s) \<and>
    call_stub C E X Y ''fork'' stack r0 r1 r2 r3 s = do_fork E (enter Y s) \<and>
    call_stub C E X Y ''fork2'' stack r0 r1 r2 r3 s = do_fork2 E (enter Y s) \<and>
    call_stub C E X Y ''waitpid'' stack r0 r1 r2 r3 s = do_waitpid E r0 r1 r2 (enter Y s) \<and>
    call_stub C E X Y ''sbrk'' stack r0 r1 r2 r3 s = do_sbrk E r0 (enter Y s)"
proof -
  let ?cs = "syscall_cases C E X Y stack r0 r1 r2 r3"
  have sbrk: "map_of ?cs ''SBRK'' = Some (do_sbrk E r0)"
    using assms by (simp add: syscall_cases_def mmu_cases_def file_cases_def process_cases_def)
  have cases: "map_of ?cs ''GETPID'' = Some (\<lambda>s. map_option (\<lambda>p. (sint p, s)) (do_getpid s))"
    "map_of ?cs ''EXIT'' = Some (\<lambda>s. map_option (Pair (- 1)) (do_exit E r0 s))"
    "map_of ?cs ''EXECVE'' = Some (execve_call E X Y r0 r1 r2)"
    "map_of ?cs ''FORK'' = Some (do_fork E)" "map_of ?cs ''FORK2'' = Some (do_fork2 E)"
    "map_of ?cs ''WAITPID'' = Some (do_waitpid E r0 r1 r2)"
    using assms(1) by (simp_all add: syscall_cases_def mmu_cases_def)
  show ?thesis
    using process_stubs[THEN stub_served, of C E X Y stack r0 r1 r2 r3 _ s] cases sbrk
    by (simp add: kernel_label_process)
qed

lemma sim_run_getpid: "do_getpid sim_run = Some 1"
  by (simp add: do_getpid_def current_pcb_def sim_run_def sim_root_def sim_tcb_def pcb_at_def sim_pcb_def)

theorem process_calls_served_witness:
  "\<forall>X. call_stub full_config sim_env X sim_sys ''getpid'' (\<lambda>_. 0) 0 0 0 0 sim_run = Some (1, sim_run)"
  using process_calls_served[of full_config sim_env _ sim_sys "\<lambda>_. 0" 0 0 0 0 sim_run]
  by (simp add: enter_sim_run sim_run_getpid)

text \<open>The stubs of the C library that no case of the kernel serves, and the functions it declares without a stub.\<close>

definition unserved :: "string list" where
  "unserved = [''halt'', ''pause'', ''chdir'', ''getcwd'', ''creat'', ''unlink'', ''sched_setparam'']"

definition without_stub :: "string list" where
  "without_stub = [''symlink'', ''renice'', ''translate'']"

lemma stubs_sorted:
  "list_all (\<lambda>(name, symbol). (kernel_label name \<in> set all_labels) = (name \<notin> set unserved)) stubs"
  "list_all (\<lambda>name. map_of stubs name = None) without_stub"
  by code_simp+

text \<open>
  With every option configured, seven stubs and no others end in an unhandled call: -1, a line on
  the console, and \<open>errno\<close> left at 0, so that the failure has no error number. The functions for
  symbolic links, priorities and address translation, which the programs call, have no stub at all.
\<close>

theorem unserved_stubs:
  assumes "CONFIG_MMU C" "CONFIG_IPC_PIPE C" "CONFIG_PROC_ENV C" "CONFIG_IPC_SIGNAL C" "CONFIG_NET C"
    and "(name, symbol) \<in> set stubs"
  shows "(name \<in> set unserved \<longleftrightarrow> map_of (syscall_cases C E X Y stack r0 r1 r2 r3) (kernel_label name) = None) \<and>
    (name \<in> set unserved \<longrightarrow> (\<exists>t. call_stub C E X Y name stack r0 r1 r2 r3 s = Some (- 1, t) \<and>
      k_umem t = (k_umem s)(sy_errno Y := 0) \<and> k_procs t = k_procs s \<and>
      k_log t = k_log s @ [SyscallUnhandled (number_of libc_numbers symbol)])) \<and>
    (\<forall>f \<in> set without_stub. call_stub C E X Y f stack r0 r1 r2 r3 s = None)"
proof (intro conjI impI ballI)
  have lab: "fst ` set (syscall_cases C E X Y stack r0 r1 r2 r3) = set all_labels"
    using full_labels[OF assms(1-5)] by (metis set_map)
  have "(kernel_label name \<in> set all_labels) = (name \<notin> set unserved)"
    using stubs_sorted(1) assms(6) unfolding list_all_iff by blast
  then have none: "name \<in> set unserved \<longleftrightarrow> map_of (syscall_cases C E X Y stack r0 r1 r2 r3) (kernel_label name) = None"
    unfolding map_of_eq_None_iff lab by blast
  then show "name \<in> set unserved \<longleftrightarrow> map_of (syscall_cases C E X Y stack r0 r1 r2 r3) (kernel_label name) = None" .
  show "\<exists>t. call_stub C E X Y name stack r0 r1 r2 r3 s = Some (- 1, t) \<and>
      k_umem t = (k_umem s)(sy_errno Y := 0) \<and> k_procs t = k_procs s \<and>
      k_log t = k_log s @ [SyscallUnhandled (number_of libc_numbers symbol)]" if "name \<in> set unserved"
    using stub_symbol[OF assms(6)] none that
    by (simp add: call_stub_def syscall_handle_def case_by_label Let_def klog_def set_errno_addr_def put_user_def)
  show "call_stub C E X Y f stack r0 r1 r2 r3 s = None" if "f \<in> set without_stub" for f
    using stubs_sorted(2) that by (simp add: list_all_iff call_stub_def)
qed

theorem unserved_stubs_witness:
  "\<forall>X. \<exists>t. call_stub full_config sim_env X sim_sys ''chdir'' (\<lambda>_. 0) 0 0 0 0 sim_run = Some (- 1, t) \<and>
     k_log t = [SyscallUnhandled 10]"
proof
  fix X
  have st: "(''chdir'', ''Chdir'') \<in> set stubs" by code_simp
  have un: "''chdir'' \<in> set unserved" by code_simp
  have n: "number_of libc_numbers ''Chdir'' = 10" by code_simp
  show "\<exists>t. call_stub full_config sim_env X sim_sys ''chdir'' (\<lambda>_. 0) 0 0 0 0 sim_run = Some (- 1, t) \<and>
     k_log t = [SyscallUnhandled 10]"
    using un unserved_stubs[OF _ _ _ _ _ st, of full_config sim_env X sim_sys "\<lambda>_. 0" 0 0 0 0 sim_run]
    by (auto simp: n sim_run_def sim_root_def sim_boot_def)
qed

end
