(* ===== verification/Sockets.thy ===== *)
theory Sockets
  imports CLib
begin

text \<open>
  The client and the server of lab 4, \<open>usr/src/socket_client.c\<close> and \<open>socket_server.c\<close>: two state
  machines over a connection, and the signals that tell the client what to send, which arrive between
  any two of its statements.
\<close>

section \<open>Messages\<close>

definition BONJOUR :: string where "BONJOUR = ''Bonjour''"
definition AUREVOIR :: string where "AUREVOIR = ''Aurevoir''"
definition COMPTEUR :: string where "COMPTEUR = ''Compteur''"
definition QUITTER :: string where "QUITTER = ''Quitter''"

text \<open>\<open>message_to_send\<close>, 0 when there is nothing to send.\<close>

datatype msg_idx_t = NoMessage | GREETING | COUNTING | QUITING

definition BUFFER_LEN :: nat where "BUFFER_LEN = 80"

definition snprintf :: "nat \<Rightarrow> string \<Rightarrow> string" where "snprintf n str = take (n - 1) str"

section \<open>Setting up\<close>

text \<open>The calls of the socket library; the byte order of the network is the other one.\<close>

record sock_env =
  so_socket :: int
  so_inet_pton :: "string \<Rightarrow> (int \<times> u32)"
  so_connect :: "u32 \<Rightarrow> u16 \<Rightarrow> int"

definition htons :: "u16 \<Rightarrow> u16" where
  "htons x = push_bit 8 x OR drop_bit 8 x"

datatype client_start = Usage | NoSocket | BadAddress | ConnectionFailed | Connected string int

definition client_setup :: "sock_env \<Rightarrow> string list \<Rightarrow> client_start" where
  "client_setup E argv =
     (if length argv \<noteq> 3 then Usage
      else let port = atoi (argv ! 2) in
        if so_socket E < 0 then NoSocket
        else if fst (so_inet_pton E (argv ! 1)) \<le> 0 then BadAddress
        else if so_connect E (snd (so_inet_pton E (argv ! 1))) (htons (of_int port)) < 0 then ConnectionFailed
        else Connected (argv ! 1) port)"

section \<open>The two programs and the connection\<close>

datatype client_pc = AtSwitch | AtWrite | AtReply | AtRecv | AtPrint | AtClose | ClientDone

datatype server_pc = AtAccept | AtRead | AtWriteBack | AtCloseConn | AtCloseListen | ServerDone

text \<open>
  Where each program is in its loop, its variables, and the connection: whether it waits in the
  backlog, whether each side has it open, and what is under way in each direction, a write of
  \<open>BUFFER_LEN\<close> bytes being one message. Then what has happened: the messages the client has
  written, those it has received, and what the two have printed.
\<close>

record net =
  c_pc :: client_pc
  c_running :: bool
  c_alt :: bool
  message_to_send :: msg_idx_t
  c_buffer :: string
  v_pc :: server_pc
  v_running :: bool
  v_counter :: int
  v_buffer :: string
  n_pending :: bool
  n_client_open :: bool
  n_server_open :: bool
  to_server :: "string list"
  to_client :: "string list"
  n_sent :: "string list"
  n_received :: "string list"
  n_client_out :: "string list"
  n_server_out :: "string list"

text \<open>The handlers of the signals.\<close>

datatype signal = SIGINT | SIGUSR1 | SIGUSR2

definition int_handler :: "net \<Rightarrow> net" where
  "int_handler s = s\<lparr>message_to_send := QUITING, n_client_out := n_client_out s @ [''Handler INT'']\<rparr>"

definition user_handler :: "signal \<Rightarrow> net \<Rightarrow> net" where
  "user_handler sig s = (case sig of
     SIGUSR1 \<Rightarrow> s\<lparr>message_to_send := GREETING, n_client_out := n_client_out s @ [''Handler USR1'']\<rparr>
   | SIGUSR2 \<Rightarrow> s\<lparr>message_to_send := COUNTING, n_client_out := n_client_out s @ [''Handler USR2'']\<rparr>
   | SIGINT \<Rightarrow> s)"

definition handle :: "signal \<Rightarrow> net \<Rightarrow> net" where
  "handle sig s = (if sig = SIGINT then int_handler s else user_handler sig s)"

text \<open>
  A turn of the client's loop, one step for each statement that looks at \<open>message_to_send\<close>, writes,
  receives or prints; \<open>None\<close> when it waits or has ended.
\<close>

definition prepare :: "net \<Rightarrow> net" where
  "prepare s = (case message_to_send s of
     GREETING \<Rightarrow> s\<lparr>c_buffer := snprintf BUFFER_LEN (if c_alt s then BONJOUR else AUREVOIR), c_alt := \<not> c_alt s, c_pc := AtWrite\<rparr>
   | COUNTING \<Rightarrow> s\<lparr>c_buffer := snprintf BUFFER_LEN COMPTEUR, c_pc := AtWrite\<rparr>
   | QUITING \<Rightarrow> s\<lparr>c_buffer := snprintf BUFFER_LEN QUITTER, c_pc := AtWrite\<rparr>
   | NoMessage \<Rightarrow> s)"

definition receive :: "net \<Rightarrow> net option" where
  "receive s = (case to_client s of
     m # ms \<Rightarrow> Some (s\<lparr>c_buffer := m, to_client := ms, n_received := n_received s @ [m], c_pc := AtPrint\<rparr>)
   | [] \<Rightarrow> if \<not> n_pending s \<and> \<not> n_server_open s then Some (s\<lparr>c_pc := AtPrint\<rparr>) else None)"

definition client_step :: "net \<Rightarrow> net option" where
  "client_step s = (case c_pc s of
     AtSwitch \<Rightarrow> Some (prepare s)
   | AtWrite \<Rightarrow> Some (s\<lparr>to_server := to_server s @ [c_buffer s], n_sent := n_sent s @ [c_buffer s], c_pc := AtReply\<rparr>)
   | AtReply \<Rightarrow> Some (case message_to_send s of
        QUITING \<Rightarrow> s\<lparr>c_buffer := [], c_running := False, c_pc := AtPrint\<rparr>
      | NoMessage \<Rightarrow> s\<lparr>c_buffer := [], c_pc := AtPrint\<rparr>
      | _ \<Rightarrow> s\<lparr>c_buffer := [], c_pc := AtRecv\<rparr>)
   | AtRecv \<Rightarrow> receive s
   | AtPrint \<Rightarrow> Some (s\<lparr>n_client_out := n_client_out s @ [c_buffer s], message_to_send := NoMessage,
        c_pc := if c_running s then AtSwitch else AtClose\<rparr>)
   | AtClose \<Rightarrow> Some (s\<lparr>n_client_open := False, c_pc := ClientDone\<rparr>)
   | ClientDone \<Rightarrow> None)"

text \<open>
  What the server makes of a message: its reply, and the counter, an \<open>int\<close> of 32 bits that \<open>++counter\<close>
  wraps around.
\<close>

definition next_count :: "int \<Rightarrow> int" where "next_count c = signed_take_bit 31 (c + 1)"

definition answer :: "string \<Rightarrow> int \<Rightarrow> string \<Rightarrow> string \<times> int" where
  "answer ip counter buffer =
     (if buffer = BONJOUR then (snprintf BUFFER_LEN (''Bonjour client '' @ ip), counter)
      else if buffer = AUREVOIR then (snprintf BUFFER_LEN (''Aurevoir client '' @ ip), counter)
      else if buffer = COMPTEUR then (snprintf BUFFER_LEN (''Valeur compteur: '' @ show_int (next_count counter)), next_count counter)
      else (buffer, counter))"

text \<open>
  A message is read, shown and answered, and the end of the connection ends the inner loop. A read gets the 80
  bytes of one write: that the stream may hand them out in pieces is left out.
\<close>

definition client_said :: "string \<Rightarrow> string" where "client_said m = ''The client said: '' @ m"

definition now_quitting :: string where "now_quitting = ''The client asked for a disconnection, now quitting...''"

definition serve :: "string \<Rightarrow> net \<Rightarrow> net option" where
  "serve ip s = (case to_server s of
     m # ms \<Rightarrow>
       (let s1 = s\<lparr>to_server := ms, v_buffer := m, n_server_out := n_server_out s @ [client_said m]\<rparr> in
        Some (if m = QUITTER then s1\<lparr>n_server_out := n_server_out s1 @ [now_quitting], v_running := False, v_pc := AtCloseConn\<rparr>
              else s1\<lparr>v_buffer := fst (answer ip (v_counter s) m), v_counter := snd (answer ip (v_counter s) m), v_pc := AtWriteBack\<rparr>))
   | [] \<Rightarrow> if n_client_open s then None else Some (s\<lparr>v_pc := AtCloseConn\<rparr>))"

definition server_step :: "string \<Rightarrow> net \<Rightarrow> net option" where
  "server_step ip s = (case v_pc s of
     AtAccept \<Rightarrow> if n_pending s
       then Some (s\<lparr>n_pending := False, n_server_open := True, n_server_out := n_server_out s @ [''Client connected!''], v_pc := AtRead\<rparr>)
       else None
   | AtRead \<Rightarrow> serve ip s
   | AtWriteBack \<Rightarrow> Some (s\<lparr>to_client := to_client s @ [v_buffer s], v_pc := AtRead\<rparr>)
   | AtCloseConn \<Rightarrow> Some (s\<lparr>n_server_open := False, v_pc := if v_running s then AtAccept else AtCloseListen\<rparr>)
   | AtCloseListen \<Rightarrow> Some (s\<lparr>v_pc := ServerDone\<rparr>)
   | ServerDone \<Rightarrow> None)"

text \<open>The two just after \<open>connect\<close> and \<open>listen\<close>.\<close>

definition net_start :: net where
  "net_start = \<lparr>c_pc = AtSwitch, c_running = True, c_alt = True, message_to_send = NoMessage, c_buffer = [],
     v_pc = AtAccept, v_running = True, v_counter = 0, v_buffer = [], n_pending = True, n_client_open = True,
     n_server_open = False, to_server = [], to_client = [], n_sent = [], n_received = [], n_client_out = [],
     n_server_out = [''Waiting for clients...'']\<rparr>"

section \<open>Runs\<close>

datatype move = Client | Server | Signal signal

definition move :: "string \<Rightarrow> move \<Rightarrow> net \<Rightarrow> net option" where
  "move ip m s = (case m of Client \<Rightarrow> client_step s | Server \<Rightarrow> server_step ip s | Signal sig \<Rightarrow> Some (handle sig s))"

fun play :: "string \<Rightarrow> move list \<Rightarrow> net \<Rightarrow> net option" where
  "play ip [] s = Some s"
| "play ip (m # ms) s = (case move ip m s of None \<Rightarrow> None | Some t \<Rightarrow> play ip ms t)"

inductive net_reachable :: "string \<Rightarrow> net \<Rightarrow> bool" for ip where
  start: "net_reachable ip net_start"
| step: "net_reachable ip s \<Longrightarrow> move ip m s = Some t \<Longrightarrow> net_reachable ip t"

lemma play_reachable: "play ip ms s = Some t \<Longrightarrow> net_reachable ip s \<Longrightarrow> net_reachable ip t"
  by (induction ip ms s rule: play.induct) (auto split: option.splits intro: net_reachable.step)

lemma move_cases:
  assumes "move ip m s = Some t"
  obtains (client) "client_step s = Some t" | (server) "server_step ip s = Some t" | (signal) sig where "t = handle sig s"
  using assms by (cases m) (auto simp: move_def)

section \<open>Requests and replies\<close>

text \<open>What the \<open>i\<close>-th request deserves, in terms of the requests alone.\<close>

definition requests :: "string list \<Rightarrow> string list" where
  "requests ms = filter (\<lambda>m. m \<noteq> QUITTER) ms"

definition reply_to :: "string \<Rightarrow> string list \<Rightarrow> nat \<Rightarrow> string" where
  "reply_to ip ms i =
     (if ms ! i = BONJOUR then take 79 (''Bonjour client '' @ ip)
      else if ms ! i = AUREVOIR then take 79 (''Aurevoir client '' @ ip)
      else take 79 (''Valeur compteur: '' @ show_int (int (count_list (take (Suc i) ms) COMPTEUR))))"

lemma msgs_distinct [simp]:
  "BONJOUR \<noteq> AUREVOIR" "BONJOUR \<noteq> COMPTEUR" "BONJOUR \<noteq> QUITTER" "AUREVOIR \<noteq> BONJOUR" "AUREVOIR \<noteq> COMPTEUR"
  "AUREVOIR \<noteq> QUITTER" "COMPTEUR \<noteq> BONJOUR" "COMPTEUR \<noteq> AUREVOIR" "COMPTEUR \<noteq> QUITTER" "QUITTER \<noteq> BONJOUR"
  "QUITTER \<noteq> AUREVOIR" "QUITTER \<noteq> COMPTEUR"
  by (simp_all add: BONJOUR_def AUREVOIR_def COMPTEUR_def QUITTER_def)

lemma snprintf_msgs [simp]:
  "snprintf BUFFER_LEN BONJOUR = BONJOUR" "snprintf BUFFER_LEN AUREVOIR = AUREVOIR"
  "snprintf BUFFER_LEN COMPTEUR = COMPTEUR" "snprintf BUFFER_LEN QUITTER = QUITTER"
  by (simp_all add: snprintf_def BUFFER_LEN_def BONJOUR_def AUREVOIR_def COMPTEUR_def QUITTER_def)

definition known :: "string list" where "known = [BONJOUR, AUREVOIR, COMPTEUR, QUITTER]"

text \<open>
  The messages read by the server are answered in order: what the client has received, what is on the
  way to it and what the server is about to write are the replies to the requests read.
\<close>

definition replies :: "string \<Rightarrow> string list \<Rightarrow> string list" where
  "replies ip ms = map (reply_to ip ms) [0..<length ms]"

definition written_back :: "net \<Rightarrow> string list" where
  "written_back s = n_received s @ to_client s @ (if v_pc s = AtWriteBack then [v_buffer s] else [])"

definition served :: "string \<Rightarrow> net \<Rightarrow> bool" where
  "served ip s \<longleftrightarrow> (\<exists>ms. n_sent s = ms @ to_server s \<and> written_back s = replies ip (requests ms) \<and>
     v_counter s = int (count_list (requests ms) COMPTEUR)) \<and>
     set (n_sent s) \<subseteq> set known \<and> (c_pc s = AtWrite \<longrightarrow> c_buffer s \<in> set known)"

text \<open>Below the largest \<open>int\<close> the counter counts.\<close>

lemma next_count_below: "0 \<le> c \<Longrightarrow> c + 1 < 2147483648 \<Longrightarrow> next_count c = c + 1"
  by (simp add: next_count_def signed_take_bit_int_eq_self)

lemma count_requests: "count_list (requests ms) COMPTEUR = count_list ms COMPTEUR"
  by (induction ms) (auto simp: requests_def)

definition count_fits :: "net \<Rightarrow> bool" where
  "count_fits s \<longleftrightarrow> count_list (n_sent s) COMPTEUR < 2147483648"

lemma replies_snoc:
  assumes "m \<in> set known" "m \<noteq> QUITTER" and "count_list (ms @ [m]) COMPTEUR < 2147483648"
  shows "replies ip (ms @ [m]) = replies ip ms @ [fst (answer ip (int (count_list ms COMPTEUR)) m)]"
    and "snd (answer ip (int (count_list ms COMPTEUR)) m) = int (count_list (ms @ [m]) COMPTEUR)"
proof -
  have "reply_to ip (ms @ [m]) i = reply_to ip ms i" if "i < length ms" for i
    using that by (simp add: reply_to_def nth_append)
  moreover have "reply_to ip (ms @ [m]) (length ms) = fst (answer ip (int (count_list ms COMPTEUR)) m)"
    using assms by (auto simp: known_def reply_to_def answer_def snprintf_def BUFFER_LEN_def next_count_below add.commute)
  ultimately show "replies ip (ms @ [m]) = replies ip ms @ [fst (answer ip (int (count_list ms COMPTEUR)) m)]"
    by (simp add: replies_def)
  show "snd (answer ip (int (count_list ms COMPTEUR)) m) = int (count_list (ms @ [m]) COMPTEUR)"
    using assms by (auto simp: known_def answer_def next_count_below)
qed

lemma served_start: "served ip net_start"
  by (simp add: served_def net_start_def written_back_def replies_def requests_def)

lemma served_client: "client_step s = Some t \<Longrightarrow> served ip s \<Longrightarrow> served ip t"
  by (auto simp: client_step_def served_def written_back_def prepare_def receive_def known_def
      split: client_pc.splits msg_idx_t.splits list.splits if_splits)

lemma served_signal: "served ip s \<Longrightarrow> served ip (handle sig s)"
  by (auto simp: served_def written_back_def handle_def int_handler_def user_handler_def split: signal.splits)

lemma served_read:
  assumes "to_server s = m # rest" "v_pc s = AtRead" "server_step ip s = Some t" "served ip s"
    and bound: "count_fits s"
  shows "served ip t"
proof -
  from assms(4) obtain ms where ms: "n_sent s = ms @ to_server s" "written_back s = replies ip (requests ms)"
      "v_counter s = int (count_list (requests ms) COMPTEUR)"
    and known: "set (n_sent s) \<subseteq> set known" "c_pc s = AtWrite \<longrightarrow> c_buffer s \<in> set known"
    unfolding served_def by blast
  have m: "m \<in> set known" using known(1) ms(1) assms(1) by auto
  have sent: "n_sent s = (ms @ [m]) @ rest" using ms(1) assms(1) by simp
  show ?thesis
  proof (cases "m = QUITTER")
    case True
    then have t: "t = s\<lparr>to_server := rest, v_buffer := m, n_server_out := n_server_out s @ [client_said m, now_quitting], v_running := False, v_pc := AtCloseConn\<rparr>"
      using assms(1-3) by (simp add: server_step_def serve_def Let_def)
    have "requests (ms @ [m]) = requests ms" using True by (simp add: requests_def)
    moreover have "written_back t = written_back s" using assms(2) by (simp add: t written_back_def)
    ultimately show ?thesis unfolding served_def using ms known sent by (intro conjI exI[of _ "ms @ [m]"]) (simp_all add: t)
  next
    case False
    have req: "requests (ms @ [m]) = requests ms @ [m]" using False by (simp add: requests_def)
    have "count_list (requests ms @ [m]) COMPTEUR \<le> count_list (n_sent s) COMPTEUR"
      unfolding sent by (simp add: count_requests)
    then have "count_list (requests ms @ [m]) COMPTEUR < 2147483648" using bound unfolding count_fits_def by linarith
    note r = replies_snoc[OF m False this, of ip]
    from False have t: "t = s\<lparr>to_server := rest, n_server_out := n_server_out s @ [client_said m],
        v_buffer := fst (answer ip (v_counter s) m), v_counter := snd (answer ip (v_counter s) m), v_pc := AtWriteBack\<rparr>"
      using assms(1-3) by (simp add: server_step_def serve_def Let_def)
    have "written_back t = written_back s @ [fst (answer ip (v_counter s) m)]" using assms(2) by (simp add: t written_back_def)
    then have "written_back t = replies ip (requests (ms @ [m]))" using ms(2,3) r(1) by (simp add: req)
    moreover have "v_counter t = int (count_list (requests (ms @ [m])) COMPTEUR)" using ms(3) r(2) by (simp add: req t)
    ultimately show ?thesis unfolding served_def using known sent by (intro conjI exI[of _ "ms @ [m]"]) (simp_all add: t)
  qed
qed

lemma served_server:
  assumes "server_step ip s = Some t" "served ip s" "count_fits s"
  shows "served ip t"
proof (cases "v_pc s = AtRead \<and> to_server s \<noteq> []")
  case True
  then show ?thesis using served_read assms by (metis list.exhaust)
next
  case False
  then show ?thesis using assms
    by (auto simp: server_step_def serve_def served_def written_back_def split: server_pc.splits list.splits if_splits)
qed

lemma sent_grows:
  assumes "move ip m s = Some t"
  shows "\<exists>xs. n_sent t = n_sent s @ xs"
  using assms
proof (cases rule: move_cases)
  case client
  then show ?thesis
    by (auto simp: client_step_def prepare_def receive_def split: client_pc.splits msg_idx_t.splits list.splits if_splits)
next
  case server
  then show ?thesis by (auto simp: server_step_def serve_def Let_def split: server_pc.splits list.splits if_splits)
next
  case (signal sig)
  then show ?thesis by (auto simp: handle_def int_handler_def user_handler_def split: signal.splits)
qed

lemma count_fits_before: "move ip m s = Some t \<Longrightarrow> count_fits t \<Longrightarrow> count_fits s"
  using sent_grows unfolding count_fits_def by fastforce

lemma reachable_served: "net_reachable ip s \<Longrightarrow> count_fits s \<Longrightarrow> served ip s"
proof (induction rule: net_reachable.induct)
  case start
  show ?case by (rule served_start)
next
  case (step s m t)
  have s: "count_fits s" using count_fits_before step(2,4) by blast
  from step(2) step(3)[OF s] s show ?case
    by (cases rule: move_cases) (auto intro: served_client served_server served_signal)
qed

text \<open>The greetings alternate: \<open>alt\<close> is the parity of their number.\<close>

definition greetings :: "string list \<Rightarrow> string list" where
  "greetings ms = filter (\<lambda>m. m = BONJOUR \<or> m = AUREVOIR) ms"

definition alternating :: "nat \<Rightarrow> string list" where
  "alternating n = map (\<lambda>i. if even i then BONJOUR else AUREVOIR) [0..<n]"

lemma alternating_Suc: "alternating (Suc n) = alternating n @ [if even n then BONJOUR else AUREVOIR]"
  by (simp add: alternating_def)

definition polite :: "net \<Rightarrow> bool" where
  "polite s \<longleftrightarrow> (\<exists>n. greetings (n_sent s @ (if c_pc s = AtWrite then [c_buffer s] else [])) = alternating n \<and> c_alt s = even n)"

lemma polite_client:
  assumes "client_step s = Some t" "polite s"
  shows "polite t"
proof -
  from assms(2) obtain n where n: "greetings (n_sent s @ (if c_pc s = AtWrite then [c_buffer s] else [])) = alternating n" "c_alt s = even n"
    unfolding polite_def by blast
  show ?thesis
  proof (cases "c_pc s = AtSwitch \<and> message_to_send s = GREETING")
    case True
    then have "t = s\<lparr>c_buffer := if c_alt s then BONJOUR else AUREVOIR, c_alt := \<not> c_alt s, c_pc := AtWrite\<rparr>"
      using assms(1) by (auto simp: client_step_def prepare_def)
    then have "greetings (n_sent t @ [c_buffer t]) = alternating (Suc n)" "c_alt t = even (Suc n)" "c_pc t = AtWrite"
      using True n by (simp_all add: alternating_Suc greetings_def)
    then show ?thesis unfolding polite_def by (intro exI[of _ "Suc n"]) simp
  next
    case False
    have "greetings (n_sent t @ (if c_pc t = AtWrite then [c_buffer t] else [])) = alternating n \<and> c_alt t = even n"
      using assms(1) False n
      by (auto simp: client_step_def prepare_def receive_def greetings_def split: client_pc.splits msg_idx_t.splits list.splits if_splits)
    then show ?thesis unfolding polite_def by blast
  qed
qed

lemma server_frame: "server_step ip s = Some t \<Longrightarrow> n_sent t = n_sent s \<and> c_pc t = c_pc s \<and> c_buffer t = c_buffer s \<and>
    c_alt t = c_alt s \<and> c_running t = c_running s \<and> message_to_send t = message_to_send s \<and> n_client_open t = n_client_open s"
  by (auto simp: server_step_def serve_def Let_def split: server_pc.splits list.splits if_splits)

lemma signal_frame: "n_sent (handle sig s) = n_sent s \<and> c_pc (handle sig s) = c_pc s \<and> c_buffer (handle sig s) = c_buffer s \<and>
    c_alt (handle sig s) = c_alt s"
  by (auto simp: handle_def int_handler_def user_handler_def split: signal.splits)

lemma polite_frame:
  assumes "n_sent t = n_sent s" "c_pc t = c_pc s" "c_buffer t = c_buffer s" "c_alt t = c_alt s"
  shows "polite t = polite s"
  by (simp add: polite_def assms)

lemma reachable_polite: "net_reachable ip s \<Longrightarrow> polite s"
proof (induction rule: net_reachable.induct)
  case start
  show ?case by (auto simp: polite_def net_start_def greetings_def alternating_def intro: exI[of _ 0])
next
  case (step s m t)
  from step(2) show ?case
  proof (cases rule: move_cases)
    case client
    then show ?thesis using polite_client step(3) by blast
  next
    case server
    then show ?thesis using polite_frame server_frame step(3) by metis
  next
    case (signal sig)
    then show ?thesis using polite_frame signal_frame step(3) by metis
  qed
qed

lemma reply_to_append: "i < length ms \<Longrightarrow> reply_to ip (ms @ ns) i = reply_to ip ms i"
  by (simp add: reply_to_def nth_append)

lemma replies_append: "take (length ms) (replies ip (ms @ ns)) = replies ip ms"
  by (simp add: replies_def take_map reply_to_append)

text \<open>
  C18. Whatever signals arrive and however the two programs interleave, what the client has received is
  an initial part of the replies to the requests it has sent, in order: a greeting with its address, or
  the number of counting requests so far, as long as the \<open>int\<close> of the server can hold that number; and the
  greetings it sends are \<open>Bonjour\<close> and \<open>Aurevoir\<close> in turn.
\<close>

theorem replies_in_order:
  assumes "net_reachable ip s" and "count_list (n_sent s) COMPTEUR < 2 ^ 31"
  shows "length (n_received s) \<le> length (requests (n_sent s)) \<and>
    n_received s = take (length (n_received s)) (replies ip (requests (n_sent s))) \<and>
    (\<exists>k. greetings (n_sent s) = alternating k)"
proof (intro conjI)
  obtain ms where ms: "n_sent s = ms @ to_server s" "written_back s = replies ip (requests ms)"
    using reachable_served[OF assms(1)] assms(2) unfolding served_def count_fits_def by auto
  obtain rest where rest: "written_back s = n_received s @ rest" by (auto simp: written_back_def)
  have sent: "requests (n_sent s) = requests ms @ requests (to_server s)" by (simp add: ms(1) requests_def)
  have len: "length (n_received s) \<le> length (requests ms)"
    using arg_cong[OF ms(2), of length] rest by (simp add: replies_def)
  then show "length (n_received s) \<le> length (requests (n_sent s))" by (simp add: sent)
  have "n_received s = take (length (n_received s)) (replies ip (requests ms))"
    by (simp flip: ms(2) add: rest)
  also have "\<dots> = take (length (n_received s)) (take (length (requests ms)) (replies ip (requests (n_sent s))))"
    by (simp only: sent replies_append)
  also have "\<dots> = take (length (n_received s)) (replies ip (requests (n_sent s)))"
    using len by (simp add: min_def)
  finally show "n_received s = take (length (n_received s)) (replies ip (requests (n_sent s)))" .
  obtain n where n: "greetings (n_sent s @ (if c_pc s = AtWrite then [c_buffer s] else [])) = alternating n"
    using reachable_polite[OF assms(1)] unfolding polite_def by blast
  show "\<exists>k. greetings (n_sent s) = alternating k"
  proof (cases "greetings (if c_pc s = AtWrite then [c_buffer s] else []) = []")
    case True
    then show ?thesis using n by (auto simp: greetings_def)
  next
    case False
    then obtain b where "greetings (if c_pc s = AtWrite then [c_buffer s] else []) = [b]"
      by (auto simp: greetings_def split: if_splits)
    then have "greetings (n_sent s) @ [b] = alternating n" using n by (simp add: greetings_def)
    then have "greetings (n_sent s) = alternating (n - 1)"
      by (cases n) (simp_all add: alternating_Suc, simp add: alternating_def)
    then show ?thesis by blast
  qed
qed

text \<open>Two greetings and a counting request, with an address of one character.\<close>

definition exchange :: "signal \<Rightarrow> move list" where
  "exchange sig = [Signal sig, Client, Client, Client, Server, Server, Client, Client]"

lemma exchange_run:
  "map_option (\<lambda>s. (n_sent s, n_received s)) (play ''x'' (Server # exchange SIGUSR1 @ exchange SIGUSR2 @ exchange SIGUSR1) net_start) =
    Some ([BONJOUR, COMPTEUR, AUREVOIR], [''Bonjour client x'', ''Valeur compteur: 1'', ''Aurevoir client x''])"
  by code_simp

theorem replies_in_order_witness:
  "take 3 (replies ''x'' [BONJOUR, COMPTEUR, AUREVOIR]) = [''Bonjour client x'', ''Valeur compteur: 1'', ''Aurevoir client x'']"
proof -
  obtain s where s: "play ''x'' (Server # exchange SIGUSR1 @ exchange SIGUSR2 @ exchange SIGUSR1) net_start = Some s"
      "n_sent s = [BONJOUR, COMPTEUR, AUREVOIR]" "n_received s = [''Bonjour client x'', ''Valeur compteur: 1'', ''Aurevoir client x'']"
    using exchange_run by auto
  have "net_reachable ''x'' s" by (rule play_reachable[OF s(1) net_reachable.start])
  from replies_in_order[OF this] have "n_received s = take (length (n_received s)) (replies ''x'' (requests (n_sent s)))"
    by (simp add: s(2))
  moreover have "requests (n_sent s) = [BONJOUR, COMPTEUR, AUREVOIR]" by (simp add: s(2) requests_def)
  ultimately show ?thesis by (simp add: s(3) eval_nat_numeral)
qed

text \<open>
  The variable the handlers write is shared with the loop, and a signal between two of its
  statements changes what the rest of the turn does: an interrupt just after a greeting was written
  ends the client without a word to the server, which goes on waiting for clients; a greeting
  asked for just after \<open>Quitter\<close> was written keeps the client running, with a server that has ended.
\<close>

theorem signals_race:
  "\<exists>s t. net_reachable ip s \<and> c_pc s = ClientDone \<and> QUITTER \<notin> set (n_sent s) \<and> v_running s \<and> v_pc s = AtAccept \<and>
     n_received s = [] \<and> n_sent s = [BONJOUR] \<and>
     net_reachable ip t \<and> last (n_sent t) = QUITTER \<and> c_running t \<and> c_pc t = AtSwitch \<and> v_pc t = ServerDone"
proof -
  let ?p = "[Signal SIGUSR1, Server, Client, Client, Signal SIGINT, Client, Client, Client, Server, Server, Server, Server]"
  let ?q = "[Signal SIGINT, Server, Client, Client, Signal SIGUSR1, Client, Server, Server, Server, Client, Client]"
  note ev = move_def handle_def int_handler_def user_handler_def client_step_def server_step_def prepare_def
    serve_def receive_def answer_def net_start_def
  obtain s where s: "play ip ?p net_start = Some s" "c_pc s = ClientDone" "n_sent s = [BONJOUR]" "v_running s"
      "v_pc s = AtAccept" "n_received s = []"
    by (simp add: ev)
  obtain t where t: "play ip ?q net_start = Some t" "n_sent t = [QUITTER]" "c_running t" "c_pc t = AtSwitch" "v_pc t = ServerDone"
    by (simp add: ev)
  have "net_reachable ip s" "net_reachable ip t"
    using play_reachable[OF s(1) net_reachable.start] play_reachable[OF t(1) net_reachable.start] .
  then show ?thesis using s t by (intro exI[of _ s] exI[of _ t]) simp
qed

section \<open>Quitting\<close>

text \<open>
  As long as \<open>Quitter\<close> has not been written, the client at the head of its loop has nothing under
  way, and the client that waits for a reply has one request under way.
\<close>

definition ready :: "net \<Rightarrow> bool" where
  "ready s \<longleftrightarrow> v_pc s = AtAccept \<and> n_pending s \<or> v_pc s = AtRead \<and> \<not> n_pending s \<and> n_server_open s"

definition idle :: "net \<Rightarrow> bool" where
  "idle s \<longleftrightarrow> c_running s \<and> to_server s = [] \<and> to_client s = [] \<and> ready s"

definition waiting :: "net \<Rightarrow> bool" where
  "waiting s \<longleftrightarrow> c_running s \<and>
     (length (to_server s) = 1 \<and> to_client s = [] \<and> ready s \<or>
      to_server s = [] \<and> \<not> n_pending s \<and> n_server_open s \<and>
        (to_client s = [] \<and> v_pc s = AtWriteBack \<or> length (to_client s) = 1 \<and> v_pc s = AtRead))"

definition tidy :: "net \<Rightarrow> bool" where
  "tidy s \<longleftrightarrow> set (to_server s) \<subseteq> set (n_sent s) \<and>
     (case c_pc s of AtClose \<Rightarrow> True | ClientDone \<Rightarrow> True | _ \<Rightarrow> n_client_open s) \<and>
     (case c_pc s of AtWrite \<Rightarrow> message_to_send s \<noteq> NoMessage | AtReply \<Rightarrow> message_to_send s \<noteq> NoMessage | _ \<Rightarrow> True) \<and>
     (QUITTER \<notin> set (n_sent s) \<longrightarrow> v_running s \<and>
       (case c_pc s of AtSwitch \<Rightarrow> idle s | AtWrite \<Rightarrow> idle s | AtReply \<Rightarrow> waiting s | AtRecv \<Rightarrow> waiting s
          | AtPrint \<Rightarrow> c_running s \<longrightarrow> idle s | _ \<Rightarrow> True))"

lemma ready_frame [simp]:
  "ready (s\<lparr>c_pc := pc\<rparr>) = ready s" "ready (s\<lparr>c_buffer := b\<rparr>) = ready s" "ready (s\<lparr>c_alt := a\<rparr>) = ready s"
  "ready (s\<lparr>to_server := ts\<rparr>) = ready s" "ready (s\<lparr>to_client := tc\<rparr>) = ready s" "ready (s\<lparr>n_sent := ns\<rparr>) = ready s"
  "ready (s\<lparr>n_received := nr\<rparr>) = ready s" "ready (s\<lparr>n_client_out := no\<rparr>) = ready s" "ready (s\<lparr>message_to_send := m\<rparr>) = ready s"
  "ready (s\<lparr>c_running := r\<rparr>) = ready s" "ready (s\<lparr>n_client_open := op\<rparr>) = ready s"
  by (simp_all add: ready_def)

lemma tidy_receive: "receive s = Some t \<Longrightarrow> c_pc s = AtRecv \<Longrightarrow> tidy s \<Longrightarrow> tidy t"
  unfolding receive_def
  by (cases "to_client s") (auto simp: tidy_def idle_def waiting_def ready_def split: if_splits)

lemma tidy_client:
  assumes "client_step s = Some t" "tidy s"
  shows "tidy t"
proof (cases "c_pc s")
  case AtSwitch
  then show ?thesis using assms
    by (cases "message_to_send s") (force simp: client_step_def tidy_def prepare_def idle_def)+
next
  case AtWrite
  then have "t = s\<lparr>to_server := to_server s @ [c_buffer s], n_sent := n_sent s @ [c_buffer s], c_pc := AtReply\<rparr>"
    using assms(1) by (simp add: client_step_def)
  then show ?thesis using assms(2) AtWrite by (auto simp: tidy_def idle_def waiting_def)
next
  case AtReply
  then show ?thesis using assms
    by (cases "message_to_send s") (force simp: client_step_def tidy_def waiting_def)+
next
  case AtRecv
  then show ?thesis using assms tidy_receive by (simp add: client_step_def)
next
  case AtPrint
  then have "t = s\<lparr>n_client_out := n_client_out s @ [c_buffer s], message_to_send := NoMessage,
        c_pc := if c_running s then AtSwitch else AtClose\<rparr>"
    using assms(1) by (simp add: client_step_def)
  then show ?thesis using assms(2) AtPrint by (auto simp: tidy_def idle_def)
next
  case AtClose
  then show ?thesis using assms by (auto simp: client_step_def tidy_def)
qed (use assms in \<open>simp add: client_step_def\<close>)

text \<open>The client's part of \<open>tidy\<close> does not look at what a server step changes, apart from the queues.\<close>

lemma tidy_server:
  assumes step: "server_step ip s = Some t" and ok: "tidy s"
  shows "tidy t"
proof -
  note fr = server_frame[OF step]
  have sub: "set (to_server t) \<subseteq> set (to_server s)"
    using step by (cases "v_pc s"; cases "to_server s") (auto simp: server_step_def serve_def Let_def split: if_splits)
  have idle: "idle t \<and> v_running t = v_running s" if "idle s" "n_client_open s"
    using step that by (cases "v_pc s") (auto simp: server_step_def serve_def idle_def ready_def split: if_splits)
  have wait: "waiting t \<and> v_running t = v_running s" if w: "waiting s" "n_client_open s" "QUITTER \<notin> set (to_server s)"
  proof (cases "to_server s")
    case Nil
    then show ?thesis using step w by (cases "v_pc s") (auto simp: server_step_def serve_def waiting_def ready_def split: if_splits)
  next
    case (Cons m ms)
    then have "ms = []" "to_client s = []" "ready s" "m \<noteq> QUITTER" "c_running s" using w by (auto simp: waiting_def)
    then show ?thesis using step Cons
      by (cases "v_pc s") (auto simp: server_step_def serve_def waiting_def ready_def Let_def split: if_splits)
  qed
  have run: "v_running t = v_running s" if "QUITTER \<notin> set (to_server s)"
    using step that by (cases "v_pc s"; cases "to_server s") (auto simp: server_step_def serve_def Let_def split: if_splits)
  have frame: "c_pc t = c_pc s" "n_sent t = n_sent s" "n_client_open t = n_client_open s"
    "message_to_send t = message_to_send s" "c_running t = c_running s"
    using fr by blast+
  have sub': "set (to_server t) \<subseteq> set (n_sent t)" using ok sub frame(2) by (auto simp: tidy_def)
  have "QUITTER \<notin> set (to_server s)" if "QUITTER \<notin> set (n_sent s)" using ok that by (auto simp: tidy_def)
  then show ?thesis using ok idle wait run sub' unfolding tidy_def frame
    by (cases "c_pc s") auto
qed

lemma tidy_signal: "tidy s \<Longrightarrow> tidy (handle sig s)"
  by (cases sig; cases "c_pc s") (simp_all add: tidy_def handle_def int_handler_def user_handler_def idle_def waiting_def ready_def)

lemma reachable_tidy: "net_reachable ip s \<Longrightarrow> tidy s"
proof (induction rule: net_reachable.induct)
  case start
  show ?case by (simp add: tidy_def net_start_def idle_def ready_def)
next
  case (step s m t)
  from step(2) step(3) show ?case
    by (cases rule: move_cases) (auto intro: tidy_client tidy_server tidy_signal)
qed

text \<open>A step of one of the programs, without a signal.\<close>

definition quiet :: "string \<Rightarrow> net \<Rightarrow> net \<Rightarrow> bool" where
  "quiet ip s t \<longleftrightarrow> client_step s = Some t \<or> server_step ip s = Some t"

definition told :: "net \<Rightarrow> bool" where
  "told s \<longleftrightarrow> to_server s = [QUITTER] \<and> v_running s \<and> ready s \<or>
     \<not> v_running s \<and> (v_pc s = AtCloseConn \<or> v_pc s = AtCloseListen \<or> v_pc s = ServerDone)"

definition leaving :: "string list \<Rightarrow> net \<Rightarrow> bool" where
  "leaving base s \<longleftrightarrow> (case c_pc s of
     AtSwitch \<Rightarrow> message_to_send s = QUITING \<and> n_sent s = base \<and> to_server s = [] \<and> n_client_open s \<and> v_running s \<and> ready s
   | AtWrite \<Rightarrow> message_to_send s = QUITING \<and> n_sent s = base \<and> to_server s = [] \<and> n_client_open s \<and> v_running s \<and> ready s \<and>
        c_buffer s = QUITTER
   | AtReply \<Rightarrow> message_to_send s = QUITING \<and> n_sent s = base @ [QUITTER] \<and> told s
   | AtRecv \<Rightarrow> False
   | AtPrint \<Rightarrow> \<not> c_running s \<and> n_sent s = base @ [QUITTER] \<and> told s
   | _ \<Rightarrow> n_sent s = base @ [QUITTER] \<and> told s)"

definition rank :: "net \<Rightarrow> nat" where
  "rank s = (case c_pc s of AtSwitch \<Rightarrow> 5 | AtWrite \<Rightarrow> 4 | AtReply \<Rightarrow> 3 | AtRecv \<Rightarrow> 3 | AtPrint \<Rightarrow> 2 | AtClose \<Rightarrow> 1 | ClientDone \<Rightarrow> 0) +
     (case v_pc s of AtAccept \<Rightarrow> 4 | AtRead \<Rightarrow> 3 | AtWriteBack \<Rightarrow> 3 | AtCloseConn \<Rightarrow> 2 | AtCloseListen \<Rightarrow> 1 | ServerDone \<Rightarrow> 0)"

lemma told_frame [simp]:
  "told (s\<lparr>c_pc := pc\<rparr>) = told s" "told (s\<lparr>c_buffer := b\<rparr>) = told s" "told (s\<lparr>n_client_out := no\<rparr>) = told s"
  "told (s\<lparr>message_to_send := m\<rparr>) = told s" "told (s\<lparr>c_running := r\<rparr>) = told s" "told (s\<lparr>n_client_open := op\<rparr>) = told s"
  "told (s\<lparr>n_sent := ns\<rparr>) = told s"
  by (simp_all add: told_def)

lemma leaving_client:
  assumes step: "client_step s = Some t" and l: "leaving base s"
  shows "leaving base t \<and> Suc (rank t) = rank s"
proof (cases "c_pc s")
  case AtSwitch
  then have m: "message_to_send s = QUITING" using l by (simp add: leaving_def)
  then have "t = s\<lparr>c_buffer := QUITTER, c_pc := AtWrite\<rparr>" using step AtSwitch by (simp add: client_step_def prepare_def)
  then show ?thesis using l AtSwitch m by (simp add: leaving_def rank_def)
next
  case AtWrite
  then have "t = s\<lparr>to_server := to_server s @ [c_buffer s], n_sent := n_sent s @ [c_buffer s], c_pc := AtReply\<rparr>"
    using step by (simp add: client_step_def)
  then show ?thesis using l AtWrite by (simp add: leaving_def rank_def told_def)
next
  case AtReply
  then have "t = s\<lparr>c_buffer := [], c_running := False, c_pc := AtPrint\<rparr>"
    using step l by (simp add: client_step_def leaving_def)
  then show ?thesis using l AtReply by (simp add: leaving_def rank_def)
next
  case AtPrint
  then have "t = s\<lparr>n_client_out := n_client_out s @ [c_buffer s], message_to_send := NoMessage, c_pc := AtClose\<rparr>"
    using step l by (simp add: client_step_def leaving_def)
  then show ?thesis using l AtPrint by (simp add: leaving_def rank_def)
next
  case AtClose
  then have "t = s\<lparr>n_client_open := False, c_pc := ClientDone\<rparr>" using step by (simp add: client_step_def)
  then show ?thesis using l AtClose by (simp add: leaving_def rank_def)
qed (use step l in \<open>simp_all add: client_step_def leaving_def\<close>)

lemma told_server:
  assumes step: "server_step ip s = Some t" and l: "told s"
  shows "told t \<and> Suc (rank t) = rank s"
proof (cases "v_running s")
  case False
  with l consider "v_pc s = AtCloseConn" | "v_pc s = AtCloseListen" | "v_pc s = ServerDone" by (auto simp: told_def)
  then show ?thesis using step False by cases (auto simp: server_step_def told_def rank_def)
next
  case True
  then have q: "to_server s = [QUITTER]" "ready s" using l by (auto simp: told_def)
  then consider "v_pc s = AtAccept" "n_pending s" | "v_pc s = AtRead" "\<not> n_pending s" "n_server_open s" by (auto simp: ready_def)
  then show ?thesis
  proof cases
    case 1
    then have "t = s\<lparr>n_pending := False, n_server_open := True, n_server_out := n_server_out s @ [''Client connected!''], v_pc := AtRead\<rparr>"
      using step by (simp add: server_step_def)
    then show ?thesis using q True 1 by (simp add: told_def ready_def rank_def)
  next
    case 2
    then have "v_running t = False" "v_pc t = AtCloseConn" "c_pc t = c_pc s"
      using step q(1) by (auto simp: server_step_def serve_def Let_def)
    then show ?thesis using 2 by (simp add: told_def rank_def)
  qed
qed

lemma ready_server:
  assumes "server_step ip s = Some t" "ready s" "to_server s = []" "n_client_open s"
  shows "ready t \<and> to_server t = [] \<and> v_running t = v_running s \<and> Suc (rank t) = rank s"
  using assms by (cases "v_pc s") (auto simp: server_step_def serve_def ready_def rank_def split: if_splits)

lemma leaving_server:
  assumes step: "server_step ip s = Some t" and l: "leaving base s"
  shows "leaving base t \<and> Suc (rank t) = rank s"
  using told_server[OF step] ready_server[OF step] server_frame[OF step] l
  by (cases "c_pc s") (simp_all add: leaving_def)

lemma leaving_stuck:
  assumes "leaving base s" "\<nexists>t. quiet ip s t"
  shows "c_pc s = ClientDone \<and> v_pc s = ServerDone \<and> n_sent s = base @ [QUITTER]"
proof -
  have "client_step s = None" "server_step ip s = None" using assms(2) unfolding quiet_def by (metis not_Some_eq)+
  then show ?thesis using assms(1)
    by (cases "c_pc s"; cases "v_pc s") (simp_all add: client_step_def server_step_def serve_def leaving_def told_def ready_def)
qed

lemma leaving_run: "(quiet ip ^^ n) s t \<Longrightarrow> leaving base s \<Longrightarrow> leaving base t \<and> n + rank t = rank s"
proof (induction n arbitrary: t)
  case (Suc n)
  then obtain u where u: "(quiet ip ^^ n) s u" "quiet ip u t" by auto
  with Suc.IH[OF u(1) Suc.prems(2)] show ?case
    using leaving_client leaving_server unfolding quiet_def by (metis add_Suc_shift)
qed simp

text \<open>
  C17. An interrupt that arrives while the client is at the head of its loop ends both programs: if no
  other signal comes, every run has at most nine steps, however the two interleave, and it stops only
  with both ended, \<open>Quitter\<close> being the last and only message sent since.
\<close>

theorem interrupt_ends_both:
  assumes "net_reachable ip s" "c_pc s = AtSwitch" "message_to_send s = QUITING" "QUITTER \<notin> set (n_sent s)"
    and "(quiet ip ^^ n) s t"
  shows "n \<le> 9 \<and>
    ((\<nexists>u. quiet ip t u) \<longrightarrow> c_pc t = ClientDone \<and> v_pc t = ServerDone \<and> n_sent t = n_sent s @ [QUITTER])"
proof -
  have "leaving (n_sent s) s"
    using reachable_tidy[OF assms(1)] assms(2-4) by (simp add: tidy_def leaving_def idle_def)
  from leaving_run[OF assms(5) this] have l: "leaving (n_sent s) t" "n + rank t = rank s" by blast+
  have "rank s \<le> 9" using assms(2) by (simp add: rank_def split: server_pc.split)
  then show ?thesis using l leaving_stuck by (intro conjI impI) auto
qed

lemma play_quiet: "play ip ms s = Some t \<Longrightarrow> set ms \<subseteq> {Client, Server} \<Longrightarrow> (quiet ip ^^ length ms) s t"
proof (induction ms arbitrary: s)
  case (Cons m ms)
  then obtain u where u: "move ip m s = Some u" "play ip ms u = Some t" by (auto split: option.splits)
  then have "quiet ip s u" using Cons.prems(2) by (cases m) (auto simp: move_def quiet_def)
  moreover have "(quiet ip ^^ length ms) u t" using Cons.IH[OF u(2)] Cons.prems(2) by simp
  ultimately show ?case unfolding length_Cons by (rule relpowp_Suc_I2)
qed simp

theorem interrupt_ends_both_witness:
  "\<exists>s t. (quiet ''x'' ^^ 9) s t \<and> c_pc s = AtSwitch \<and> c_pc t = ClientDone \<and> v_pc t = ServerDone \<and> n_sent t = [QUITTER]"
proof -
  let ?s = "handle SIGINT net_start"
  let ?ms = "[Client, Client, Client, Client, Client, Server, Server, Server, Server]"
  note ev = move_def handle_def int_handler_def client_step_def server_step_def prepare_def serve_def net_start_def
  have reach: "net_reachable ''x'' ?s" by (rule net_reachable.step[OF net_reachable.start, of _ "Signal SIGINT"]) (simp add: move_def)
  obtain t where t: "play ''x'' ?ms ?s = Some t" "c_pc t = ClientDone" "v_pc t = ServerDone"
    by (simp add: ev)
  have run: "(quiet ''x'' ^^ 9) ?s t" using play_quiet[OF t(1)] by (simp add: eval_nat_numeral)
  have stuck: "\<nexists>u. quiet ''x'' t u" using t by (simp add: quiet_def client_step_def server_step_def)
  have "n_sent t = n_sent ?s @ [QUITTER]"
    using interrupt_ends_both[OF reach _ _ _ run] stuck by (simp add: ev)
  then show ?thesis using run t by (intro exI[of _ ?s] exI[of _ t]) (simp add: ev)
qed

end
