(* ===== verification/Timer.thy ===== *)
theory Timer
  imports Prelude "HOL-Library.Monad_Syntax"
begin

text \<open>
  The driver of the SP804 timer, \<open>so3/devices/timer/sp804.c\<close>: the periodic timer of the kernel and the
  free-running clock source. Both keep the device in the same static variable.
\<close>

section \<open>The device and the state of the driver\<close>

datatype sp804_reg = timerload | timervalue | timercontrol | timerintclr

text \<open>\<open>sp804_t\<close>: the address of the registers, and the interrupt.\<close>

record sp804_t =
  sp_base :: addr
  sp_irqnr :: nat

text \<open>The descriptions of the two timers, which the rest of the kernel uses.\<close>

record periodic_timer =
  pt_ops_set :: bool
  pt_period :: nat

record clocksource_timer =
  cs_cycle_last :: nat
  cs_mask :: nat
  cs_rate :: nat
  cs_mult_shift :: "nat \<times> nat"

record tmr =
  tm_sp804 :: "sp804_t option"
  tm_ir_ctr :: u32
  tm_jiffies :: nat
  tm_softirqs :: nat
  tm_printed :: "u32 list"
  tm_io :: "(addr \<times> sp804_reg \<times> u32) list"
  tm_bound :: "nat list"
  tm_enabled :: "nat list"
  tm_periodic :: periodic_timer
  tm_clocksource :: clocksource_timer

text \<open>
  The device tree, the allocator (whether it has memory, and what the memory it gives holds), the
  mapping of device memory, and the constants of headers.
\<close>

record tmr_env =
  te_malloc :: "sp804_t option"
  te_reg :: "int \<Rightarrow> (nat \<times> u32 \<times> u32) option"
  te_io_map :: "u32 \<Rightarrow> u32 \<Rightarrow> addr"
  te_interrupt_node :: "int \<Rightarrow> nat"
  te_calc_mult_shift :: "nat \<Rightarrow> nat \<Rightarrow> nat \<Rightarrow> nat \<times> nat"
  te_CLOCKSOURCE_MASK :: "nat \<Rightarrow> nat"
  te_TIMER_CTRL_32BIT :: u32
  te_TIMER_CTRL_IE :: u32
  te_TIMER_CTRL_PERIODIC :: u32
  te_TIMER_CTRL_ENABLE :: u32
  te_TIMER_RATE :: nat
  te_NSECS :: nat
  te_HZ :: nat

text \<open>A write to a register; the writes are kept in order.\<close>

definition iowrite32 :: "sp804_reg \<Rightarrow> u32 \<Rightarrow> tmr \<Rightarrow> tmr option" where
  "iowrite32 r v s = (case tm_sp804 s of None \<Rightarrow> None | Some d \<Rightarrow> Some (s\<lparr>tm_io := tm_io s @ [(sp_base d, r, v)]\<rparr>))"

text \<open>What a register holds by the writes, and which addresses they touch.\<close>

definition written :: "tmr \<Rightarrow> addr \<Rightarrow> sp804_reg \<Rightarrow> u32 list" where
  "written s b r = map (snd \<circ> snd) (filter (\<lambda>w. fst w = b \<and> fst (snd w) = r) (tm_io s))"

section \<open>The operations\<close>

definition timer_isr :: "tmr \<Rightarrow> tmr option" where
  "timer_isr s = do {
     s1 \<leftarrow> iowrite32 timerintclr 1 s;
     let s2 = s1\<lparr>tm_jiffies := tm_jiffies s1 + 1\<rparr>;
     let s3 = (if unat (tm_ir_ctr s2) mod 1000 = 0 then s2\<lparr>tm_printed := tm_printed s2 @ [tm_ir_ctr s2]\<rparr> else s2);
     Some (s3\<lparr>tm_softirqs := tm_softirqs s3 + 1, tm_ir_ctr := tm_ir_ctr s3 + 1\<rparr>) }"

definition periodic_timer_start :: "tmr_env \<Rightarrow> tmr \<Rightarrow> tmr option" where
  "periodic_timer_start E s =
     (if te_TIMER_RATE E = 0 \<or> te_NSECS E div te_TIMER_RATE E = 0 then None
      else do {
        let ctrl = te_TIMER_CTRL_32BIT E OR te_TIMER_CTRL_IE E;
        let reload = of_nat (pt_period (tm_periodic s) div (te_NSECS E div te_TIMER_RATE E));
        s1 \<leftarrow> iowrite32 timercontrol ctrl s;
        s2 \<leftarrow> iowrite32 timerload reload s1;
        let ctrl' = ctrl OR (te_TIMER_CTRL_PERIODIC E OR te_TIMER_CTRL_ENABLE E);
        s3 \<leftarrow> iowrite32 timercontrol ctrl' s2;
        d \<leftarrow> tm_sp804 s3;
        Some (s3\<lparr>tm_enabled := tm_enabled s3 @ [sp_irqnr d]\<rparr>) })"

definition periodic_timer_stop :: "tmr_env \<Rightarrow> tmr \<Rightarrow> tmr option" where
  "periodic_timer_stop E s = iowrite32 timercontrol (NOT (te_TIMER_CTRL_ENABLE E)) s"

text \<open>The clock, with \<open>dev b\<close> what the device at \<open>b\<close> has in its value register.\<close>

definition clocksource_read :: "(addr \<Rightarrow> u32) \<Rightarrow> tmr \<Rightarrow> 64 word option" where
  "clocksource_read dev s = map_option (\<lambda>d. ucast (NOT (dev (sp_base d)))) (tm_sp804 s)"

text \<open>The common start of the two initialisations: the device is allocated and its registers mapped.\<close>

definition new_device :: "tmr_env \<Rightarrow> int \<Rightarrow> tmr \<Rightarrow> tmr option" where
  "new_device E fdt_offset s = do {
     d \<leftarrow> te_malloc E;
     (prop_len, start, sz) \<leftarrow> te_reg E fdt_offset;
     if prop_len \<noteq> 8 then None
     else Some (s\<lparr>tm_sp804 := Some (d\<lparr>sp_base := te_io_map E start sz\<rparr>)\<rparr>) }"

definition periodic_timer_init :: "tmr_env \<Rightarrow> int \<Rightarrow> tmr \<Rightarrow> tmr option" where
  "periodic_timer_init E fdt_offset s = do {
     s1 \<leftarrow> new_device E fdt_offset s;
     d \<leftarrow> tm_sp804 s1;
     let irq = te_interrupt_node E fdt_offset;
     if te_HZ E = 0 then None
     else Some (s1\<lparr>tm_sp804 := Some (d\<lparr>sp_irqnr := irq\<rparr>),
       tm_periodic := \<lparr>pt_ops_set = True, pt_period = te_NSECS E div te_HZ E\<rparr>,
       tm_bound := tm_bound s1 @ [irq]\<rparr>) }"

definition clocksource_timer_init :: "tmr_env \<Rightarrow> int \<Rightarrow> tmr \<Rightarrow> tmr option" where
  "clocksource_timer_init E fdt_offset s = do {
     s1 \<leftarrow> new_device E fdt_offset s;
     s2 \<leftarrow> iowrite32 timercontrol 0 s1;
     s3 \<leftarrow> iowrite32 timerload 0xffffffff s2;
     s4 \<leftarrow> iowrite32 timervalue 0xffffffff s3;
     s5 \<leftarrow> iowrite32 timercontrol (te_TIMER_CTRL_32BIT E OR te_TIMER_CTRL_ENABLE E OR te_TIMER_CTRL_PERIODIC E) s4;
     Some (s5\<lparr>tm_clocksource := \<lparr>cs_cycle_last = 0, cs_mask = te_CLOCKSOURCE_MASK E 32, cs_rate = te_TIMER_RATE E,
        cs_mult_shift = te_calc_mult_shift E (te_TIMER_RATE E) (te_NSECS E) 3600\<rparr>\<rparr>) }"

section \<open>Effects\<close>

text \<open>Device \<open>b\<close> is left alone from \<open>s\<close> to \<open>t\<close>.\<close>

definition untouched :: "addr \<Rightarrow> tmr \<Rightarrow> tmr \<Rightarrow> bool" where
  "untouched b s t \<longleftrightarrow> (\<forall>r. written t b r = written s b r)"

lemma untouched_refl [simp]: "untouched b s s"
  by (simp add: untouched_def)

lemma untouched_trans: "untouched b s t \<Longrightarrow> untouched b t u \<Longrightarrow> untouched b s u"
  by (simp add: untouched_def)

lemma iowrite_elsewhere:
  assumes "iowrite32 r v s = Some t" "tm_sp804 s = Some d" "sp_base d \<noteq> b"
  shows "untouched b s t" "tm_sp804 t = Some d"
  using assms by (auto simp: iowrite32_def untouched_def written_def)

lemma new_device_base:
  assumes "new_device E off s = Some t" "te_malloc E = Some g" "te_reg E off = Some (n, a, z)"
  shows "tm_sp804 t = Some (g\<lparr>sp_base := te_io_map E a z\<rparr>)" "tm_io t = tm_io s"
  using assms by (auto simp: new_device_def split: if_splits)

lemma start_elsewhere:
  assumes "periodic_timer_start E s = Some t" "tm_sp804 s = Some d" "sp_base d \<noteq> b"
  shows "untouched b s t" "tm_enabled t = tm_enabled s @ [sp_irqnr d]"
  using assms by (auto simp: periodic_timer_start_def iowrite32_def untouched_def written_def Let_def split: if_splits)

lemma start_device: "periodic_timer_start E s = Some t \<Longrightarrow> tm_sp804 t = tm_sp804 s"
  by (auto simp: periodic_timer_start_def iowrite32_def Let_def split: if_splits option.splits)

lemma isr_elsewhere:
  assumes "timer_isr s = Some t" "tm_sp804 s = Some d" "sp_base d \<noteq> b"
  shows "untouched b s t"
  using assms by (auto simp: timer_isr_def iowrite32_def untouched_def written_def Let_def split: if_splits)

lemma clocksource_init_device:
  assumes "clocksource_timer_init E off s = Some t" "te_malloc E = Some g" "te_reg E off = Some (n, a, z)"
  shows "tm_sp804 t = Some (g\<lparr>sp_base := te_io_map E a z\<rparr>)"
  using assms by (auto simp: clocksource_timer_init_def iowrite32_def new_device_def split: if_splits)

lemma periodic_init_device:
  assumes "periodic_timer_init E off s = Some t" "te_malloc E = Some g" "te_reg E off = Some (n, a, z)"
  shows "tm_sp804 t = Some (g\<lparr>sp_base := te_io_map E a z, sp_irqnr := te_interrupt_node E off\<rparr>)"
    "tm_bound t = tm_bound s @ [te_interrupt_node E off]"
  using assms by (auto simp: periodic_timer_init_def new_device_def Let_def split: if_splits)

text \<open>
  The periodic timer alone: starting it programs its own device with the number of clock cycles
  of a period before it enables it, and enables the interrupt the handler is bound to; the
  handler acknowledges every interrupt at that device and counts it.
\<close>

theorem periodic_timer_ticks:
  assumes "te_malloc E = Some g" "te_reg E off = Some (8, a, z)" "0 < te_HZ E" "0 < te_TIMER_RATE E"
    and "te_TIMER_RATE E \<le> te_NSECS E"
  defines "b \<equiv> te_io_map E a z"
  defines "on \<equiv> te_TIMER_CTRL_32BIT E OR te_TIMER_CTRL_IE E"
  shows "\<exists>s1 s2 s3. periodic_timer_init E off s = Some s1 \<and> periodic_timer_start E s1 = Some s2 \<and> timer_isr s2 = Some s3 \<and>
    tm_io s2 = tm_io s @ [(b, timercontrol, on),
       (b, timerload, of_nat ((te_NSECS E div te_HZ E) div (te_NSECS E div te_TIMER_RATE E))),
       (b, timercontrol, on OR (te_TIMER_CTRL_PERIODIC E OR te_TIMER_CTRL_ENABLE E))] \<and>
    last (tm_enabled s2) = last (tm_bound s2) \<and>
    tm_io s3 = tm_io s2 @ [(b, timerintclr, 1)] \<and> tm_jiffies s3 = tm_jiffies s + 1 \<and> tm_softirqs s3 = tm_softirqs s + 1"
proof -
  have "te_NSECS E div te_TIMER_RATE E \<noteq> 0" using assms(4,5) by (simp add: div_eq_0_iff)
  then show ?thesis
    using assms(1-4) unfolding b_def on_def
    by (simp add: periodic_timer_init_def new_device_def periodic_timer_start_def timer_isr_def iowrite32_def Let_def)
qed

text \<open>
  C34. The two drivers share one variable for their device: after the initialisation of the clock source
  the periodic timer's registers are out of reach, so that starting it programs the other device and the
  handler never acknowledges the periodic timer's interrupt; in the other order the clock is read
  from the periodic timer.
\<close>

theorem timers_share_one_device:
  assumes "te_malloc E = Some g" "te_reg E p = Some (8, a, z)" "te_reg E c = Some (8, a', z')"
    and "te_io_map E a z \<noteq> te_io_map E a' z'"
  shows "(periodic_timer_init E p s = Some s1 \<and> clocksource_timer_init E c s1 = Some s2 \<and>
      periodic_timer_start E s2 = Some s3 \<and> timer_isr s3 = Some s4 \<longrightarrow>
      untouched (te_io_map E a z) s2 s3 \<and> untouched (te_io_map E a z) s3 s4 \<and>
      last (tm_enabled s3) = sp_irqnr g \<and> last (tm_bound s1) = te_interrupt_node E p) \<and>
    (clocksource_timer_init E c s = Some t1 \<and> periodic_timer_init E p t1 = Some t2 \<longrightarrow>
      clocksource_read dev t2 = Some (ucast (NOT (dev (te_io_map E a z)))))"
proof (intro conjI impI)
  assume run: "periodic_timer_init E p s = Some s1 \<and> clocksource_timer_init E c s1 = Some s2 \<and>
      periodic_timer_start E s2 = Some s3 \<and> timer_isr s3 = Some s4"
  have d: "tm_sp804 s2 = Some (g\<lparr>sp_base := te_io_map E a' z'\<rparr>)"
    using clocksource_init_device[OF _ assms(1,3)] run by blast
  have ne: "sp_base (g\<lparr>sp_base := te_io_map E a' z'\<rparr>) \<noteq> te_io_map E a z" using assms(4) by simp
  have start: "periodic_timer_start E s2 = Some s3" using run by blast
  note st = start_elsewhere[OF start d ne]
  have d3: "tm_sp804 s3 = tm_sp804 s2" by (rule start_device[OF start])
  show "untouched (te_io_map E a z) s2 s3" by (rule st(1))
  show "untouched (te_io_map E a z) s3 s4" using isr_elsewhere[of s3 s4] run d3 d ne by metis
  show "last (tm_enabled s3) = sp_irqnr g" using st(2) by simp
  show "last (tm_bound s1) = te_interrupt_node E p" using periodic_init_device(2)[OF _ assms(1,2)] run by force
next
  assume "clocksource_timer_init E c s = Some t1 \<and> periodic_timer_init E p t1 = Some t2"
  then have "periodic_timer_init E p t1 = Some t2" by blast
  from periodic_init_device(1)[OF this assms(1,2)]
  show "clocksource_read dev t2 = Some (ucast (NOT (dev (te_io_map E a z))))" by (simp add: clocksource_read_def)
qed

section \<open>An instance\<close>

definition sim_timers :: tmr_env where
  "sim_timers = \<lparr>te_malloc = Some \<lparr>sp_base = 0, sp_irqnr = 0\<rparr>,
     te_reg = (\<lambda>off. if off = 1 then Some (8, 0x1C110000, 0x1000) else if off = 2 then Some (8, 0x1C120000, 0x1000) else None),
     te_io_map = (\<lambda>a z. a + 0xE0000000), te_interrupt_node = (\<lambda>off. 34), te_calc_mult_shift = (\<lambda>f t m. (f, t)),
     te_CLOCKSOURCE_MASK = (\<lambda>n. 2 ^ n - 1),
     te_TIMER_CTRL_32BIT = 2, te_TIMER_CTRL_IE = 0x20, te_TIMER_CTRL_PERIODIC = 0x40, te_TIMER_CTRL_ENABLE = 0x80,
     te_TIMER_RATE = 1000000, te_NSECS = 1000000000, te_HZ = 100\<rparr>"

definition tmr_start :: tmr where
  "tmr_start = \<lparr>tm_sp804 = None, tm_ir_ctr = 0, tm_jiffies = 0, tm_softirqs = 0, tm_printed = [], tm_io = [], tm_bound = [],
     tm_enabled = [], tm_periodic = \<lparr>pt_ops_set = False, pt_period = 0\<rparr>,
     tm_clocksource = \<lparr>cs_cycle_last = 0, cs_mask = 0, cs_rate = 0, cs_mult_shift = (0, 0)\<rparr>\<rparr>"

theorem periodic_timer_ticks_witness:
  "\<exists>s1 s2. periodic_timer_init sim_timers 1 tmr_start = Some s1 \<and> periodic_timer_start sim_timers s1 = Some s2 \<and>
     tm_io s2 = [(0xFC110000, timercontrol, 0x22), (0xFC110000, timerload, 10000), (0xFC110000, timercontrol, 0xE2)]"
  using periodic_timer_ticks[of sim_timers "\<lparr>sp_base = 0, sp_irqnr = 0\<rparr>" 1 "0x1C110000" "0x1000" tmr_start]
  by (auto simp: sim_timers_def tmr_start_def)

theorem timers_share_one_device_witness:
  "\<exists>s1 s2 s3 s4. periodic_timer_init sim_timers 1 tmr_start = Some s1 \<and> clocksource_timer_init sim_timers 2 s1 = Some s2 \<and>
     periodic_timer_start sim_timers s2 = Some s3 \<and> timer_isr s3 = Some s4 \<and>
     untouched 0xFC110000 s2 s3 \<and> untouched 0xFC110000 s3 s4 \<and> last (tm_enabled s3) = 0 \<and> last (tm_bound s1) = 34"
proof -
  note ev = periodic_timer_init_def clocksource_timer_init_def periodic_timer_start_def timer_isr_def new_device_def
    iowrite32_def sim_timers_def tmr_start_def Let_def
  obtain s1 where s1: "periodic_timer_init sim_timers 1 tmr_start = Some s1" by (simp add: ev)
  obtain s2 where s2: "clocksource_timer_init sim_timers 2 s1 = Some s2" using s1 by (auto simp: ev)
  obtain s3 where s3: "periodic_timer_start sim_timers s2 = Some s3" using s1 s2 by (auto simp: ev)
  obtain s4 where s4: "timer_isr s3 = Some s4" using s1 s2 s3 by (auto simp: ev)
  have "untouched 0xFC110000 s2 s3 \<and> untouched 0xFC110000 s3 s4 \<and> last (tm_enabled s3) = 0 \<and> last (tm_bound s1) = 34"
    using timers_share_one_device[of sim_timers "\<lparr>sp_base = 0, sp_irqnr = 0\<rparr>" 1 "0x1C110000" "0x1000" 2 "0x1C120000" "0x1000"
        tmr_start s1 s2 s3 s4] s1 s2 s3 s4
    by (simp add: sim_timers_def)
  then show ?thesis using s1 s2 s3 s4 by blast
qed

end
