(* ===== verification/Files.thy ===== *)
theory Files
  imports Complex_Main CLib "HOL-Library.Monad_Syntax"
begin

text \<open>
  The file programs of lab 8: \<open>usr/src/ls.c\<close>, which lists a directory, and \<open>usr/src/ln.c\<close>, which makes a
  symbolic link.
\<close>

section \<open>printf's \<open>%g\<close>\<close>

text \<open>
  \<open>%g\<close> for a number that is 0, or at least 1 and below 1000000 when rounded: it is rounded to six significant digits, ties
  to even, shown without an exponent, and zeros at the end of the fraction are left out. Other numbers do not occur.
\<close>

definition round_half_even :: "rat \<Rightarrow> nat" where
  "round_half_even x = (let f = nat \<lfloor>x\<rfloor>; r = x - of_nat f in if r < 1/2 \<or> r = 1/2 \<and> even f then f else f + 1)"

definition pad_zeros :: "nat \<Rightarrow> nat \<Rightarrow> string" where
  "pad_zeros n k = replicate (n - length (show_nat k)) (CHR ''0'') @ show_nat k"

definition strip_zeros :: "string \<Rightarrow> string" where
  "strip_zeros s = rev (dropWhile (\<lambda>c. c = CHR ''0'') (rev s))"

definition percent_g :: "rat \<Rightarrow> string" where
  "percent_g d =
     (let places = 6 - length (show_nat (nat \<lfloor>d\<rfloor>));
          r = round_half_even (d * 10 ^ places);
          frac = strip_zeros (pad_zeros places (r mod 10 ^ places))
      in show_nat (r div 10 ^ places) @ (if frac = [] then [] else CHR ''.'' # frac))"


section \<open>Sizes\<close>

definition KB :: rat where "KB = 1024"

text \<open>
  The scaling loop. A \<open>double\<close> holds every size below \<open>2 ^ 53\<close> and its quotients by 1024 exactly, so
  that the value is a rational number.
\<close>

function scale :: "rat \<Rightarrow> nat \<Rightarrow> rat \<times> nat" where
  "scale dsize prefix_idx = (if KB < dsize then scale (dsize / KB) (prefix_idx + 1) else (dsize, prefix_idx))"
  by pat_completeness auto
termination
proof (relation "measure (\<lambda>(d, k). nat \<lfloor>d\<rfloor>)")
  fix d :: rat and k :: nat
  assume d: "KB < d"
  have "\<lfloor>d / KB\<rfloor> < \<lfloor>d\<rfloor>"
  proof -
    have "d / KB < d - 1" using d by (simp add: KB_def field_simps)
    moreover have "of_int \<lfloor>d / KB\<rfloor> \<le> d / KB" "d - 1 < of_int \<lfloor>d\<rfloor>" by linarith+
    ultimately have "(of_int \<lfloor>d / KB\<rfloor> :: rat) < of_int \<lfloor>d\<rfloor>" by linarith
    then show ?thesis by simp
  qed
  moreover have "0 < \<lfloor>d\<rfloor>" using d by (simp add: KB_def)
  ultimately show "((d / KB, k + 1), d, k) \<in> measure (\<lambda>(d, k). nat \<lfloor>d\<rfloor>)" by simp
qed simp

declare scale.simps [simp del]

definition prefixes :: "string list" where "prefixes = [[], ''K'', ''M'', ''G'', ''T'']"

text \<open>\<open>None\<close> when the loop runs past the table of prefixes.\<close>

definition human_readable_size :: "nat \<Rightarrow> string option" where
  "human_readable_size sz =
     (let (dsize, prefix_idx) = scale (of_nat sz) 0 in
      if prefix_idx < length prefixes then Some (percent_g dsize @ '' '' @ prefixes ! prefix_idx) else None)"

section \<open>Attributes\<close>

definition CHECK_MASK :: "u32 \<Rightarrow> u32 \<Rightarrow> bool" where
  "CHECK_MASK x m \<longleftrightarrow> x AND m = m"

text \<open>The masks of the file system, and the size of names.\<close>

record fs_hdr =
  AM_RD :: u32
  AM_WR :: u32
  AM_EX :: u32
  AM_SYM :: u32
  FILENAME_SIZE :: nat
  D_NAME_SIZE :: nat

definition attr_to_str :: "fs_hdr \<Rightarrow> u32 \<Rightarrow> string \<Rightarrow> string" where
  "attr_to_str H m buf =
     (let b1 = (if CHECK_MASK m (AM_RD H) then buf[1 := CHR ''r''] else buf);
          b2 = (if CHECK_MASK m (AM_WR H) then b1[2 := CHR ''w''] else b1)
      in if CHECK_MASK m (AM_EX H) then b2[3 := CHR ''x''] else b2)"

section \<open>One entry\<close>

record stat =
  st_mode :: u32
  st_size :: nat
  st_mtim :: int

record tm =
  tm_year :: int
  tm_mon :: int
  tm_mday :: int
  tm_hour :: int
  tm_min :: int

text \<open>The calls of the C library; \<open>le_stat\<close> is \<open>None\<close> when \<open>stat\<close> fails and leaves its result unwritten.\<close>

record ls_env =
  le_hdr :: fs_hdr
  le_stat :: "string \<Rightarrow> stat option"
  le_localtime :: "int \<Rightarrow> tm"
  le_open :: "string \<Rightarrow> int"
  le_read :: "int \<Rightarrow> nat \<Rightarrow> int \<times> string"
  le_close :: "int \<Rightarrow> int"
  le_opendir :: "string \<Rightarrow> (string \<times> bool) list option"
  le_closedir :: "string \<Rightarrow> int"

datatype ls_event =
    Line string
  | LinkTargetError
  | CloseError
  | UsageShown
  | OpendirFailed string
  | ClosedirFailed

definition slash :: "bool \<Rightarrow> string" where "slash is_dir = (if is_dir then ''/'' else [])"

definition date_of :: "tm \<Rightarrow> string" where
  "date_of t = show_int (tm_year t + 1900) @ ''-'' @ show_int (tm_mon t + 1) @ ''-'' @ show_int (tm_mday t) @ '' '' @
     show_int (tm_hour t) @ '':'' @ show_int (tm_min t)"

text \<open>
  The name of a symbolic link and its target are joined in the buffer of the entry, \<open>d_name\<close>. The
  result is what is printed before an early return (\<open>Inl\<close>), or the name to show (\<open>Inr\<close>).
\<close>

definition link_name :: "ls_env \<Rightarrow> string \<Rightarrow> (ls_event list + string) option" where
  "link_name E file =
     (let fd = le_open E file in
      if fd < 0 then Some (Inl (LinkTargetError # (if le_close E fd < 0 then [CloseError] else [])))
      else (case le_read E fd (FILENAME_SIZE (le_hdr E) - 1) of (nread, target) \<Rightarrow>
        if nread < 0 then None
        else let joined = file @ '' -> '' @ take (nat nread) target in
          if D_NAME_SIZE (le_hdr E) \<le> length joined then None
          else Some (if le_close E fd < 0 then Inl [CloseError] else Inr joined)))"

definition print_info_file :: "ls_env \<Rightarrow> string \<Rightarrow> bool \<Rightarrow> bool \<Rightarrow> ls_event list option" where
  "print_info_file E file is_dir extended =
     (if \<not> extended then Some [Line (file @ slash is_dir)]
      else do {
        st \<leftarrow> le_stat E file;
        let date = date_of (le_localtime E (st_mtim st));
        let modes = (if is_dir then ''----''[0 := CHR ''d''] else ''----'');
        let sym_link = CHECK_MASK (st_mode st) (AM_SYM (le_hdr E));
        shown \<leftarrow> (if sym_link then link_name E file else Some (Inr file));
        case shown of
          Inl es \<Rightarrow> Some es
        | Inr name \<Rightarrow> do {
            sz \<leftarrow> human_readable_size (st_size st);
            let modes' = attr_to_str (le_hdr E) (st_mode st) (if sym_link then modes[0 := CHR ''l''] else modes);
            Some [Line (modes' @ '' | '' @ date @ '' | '' @ sz @ '' | '' @ name @ slash is_dir)] } })"

section \<open>The program\<close>

text \<open>The arguments: the directory and whether the long form is asked for, or \<open>None\<close> for the usage.\<close>

definition ls_args :: "string list \<Rightarrow> (string \<times> bool) option" where
  "ls_args argv =
     (if length argv = 1 then Some (''.'', False)
      else if 1 < length argv \<and> length argv < 4
      then (if argv ! 1 = ''-l'' then Some (if length argv \<noteq> 2 then argv ! 2 else ''.'', True)
            else if length argv = 3 \<and> argv ! 2 = ''-l'' then Some (argv ! 1, True)
            else if length argv = 2 then Some (argv ! 1, False)
            else None)
      else None)"

fun print_entries :: "ls_env \<Rightarrow> bool \<Rightarrow> (string \<times> bool) list \<Rightarrow> ls_event list option" where
  "print_entries E extended [] = Some []"
| "print_entries E extended ((name, is_dir) # ds) = do {
     e \<leftarrow> print_info_file E name is_dir extended;
     es \<leftarrow> print_entries E extended ds;
     Some (e @ es) }"

definition ls_main :: "ls_env \<Rightarrow> string list \<Rightarrow> (ls_event list \<times> int) option" where
  "ls_main E argv = (case ls_args argv of
     None \<Rightarrow> Some ([UsageShown], 1)
   | Some (dir, extended) \<Rightarrow> (case le_opendir E dir of
       None \<Rightarrow> Some ([OpendirFailed dir], - 1)
     | Some ds \<Rightarrow> do {
         es \<leftarrow> print_entries E extended ds;
         Some (if le_closedir E dir < 0 then (es @ [ClosedirFailed], - 1) else (es, 0)) }))"

section \<open>Links\<close>

record ln_env =
  ln_open :: "string \<Rightarrow> int"
  ln_symlink :: "int \<Rightarrow> string \<Rightarrow> int"
  ln_close :: "int \<Rightarrow> int"

datatype ln_event =
    LnUsage
  | OpenTarget string int
  | OpenFailedMessage string
  | Symlink int string int
  | SymlinkFailedMessage
  | CloseFd int
  | CloseFailedMessage

definition ln_main :: "ln_env \<Rightarrow> string list \<Rightarrow> ln_event list \<times> int" where
  "ln_main E argv =
     (if length argv \<noteq> 3 then ([LnUsage], - 1)
      else let target = argv ! 1; link = argv ! 2; fd = ln_open E target in
        if fd < 0 then ([OpenTarget target fd, OpenFailedMessage link], - 1)
        else let r = ln_symlink E fd link;
                 closed = CloseFd fd # (if ln_close E fd < 0 then [CloseFailedMessage] else [])
             in if r < 0 then ([OpenTarget target fd, Symlink fd link r, SymlinkFailedMessage] @ closed, - 1)
                else if ln_close E fd < 0 then ([OpenTarget target fd, Symlink fd link r] @ closed, - 1)
                else ([OpenTarget target fd, Symlink fd link r] @ closed, 0))"

section \<open>Properties\<close>















text \<open>Six digits, not one after the comma.\<close>

lemma percent_g_six_digits: "percent_g (1234567 / 1048576) = ''1.17737''"
proof -
  have f: "\<lfloor>1234567 / 1048576 :: rat\<rfloor> = 1" "\<lfloor>1234567 / 1048576 * 100000 :: rat\<rfloor> = 117737"
    by (simp_all add: floor_eq_iff)
  have "show_nat 1 = ''1''" "show_nat 17737 = ''17737''" by (simp_all add: show_nat.simps char_of_def bit_0)
  then have d: "show_nat 1 = ''1''" "strip_zeros (pad_zeros 5 17737) = ''17737''"
    by (simp_all add: pad_zeros_def strip_zeros_def)
  have "round_half_even (1234567 / 1048576 * 10 ^ 5) = 117737" using f(2) by (simp add: round_half_even_def)
  then show ?thesis using f(1) d by (simp add: percent_g_def)
qed

text \<open>
  C39. The long form shows every entry as a line that starts with four characters \<open>[-dl][-r][-w][-x]\<close>:
  a link is marked \<open>l\<close>, another directory \<open>d\<close>, and each letter stands exactly when the mode has its mask.
\<close>

theorem long_line_modes:
  assumes "print_info_file E file is_dir True = Some [Line l]" and "le_stat E file = Some st"
  shows "take 4 l =
    [if CHECK_MASK (st_mode st) (AM_SYM (le_hdr E)) then CHR ''l'' else if is_dir then CHR ''d'' else CHR ''-'',
     if CHECK_MASK (st_mode st) (AM_RD (le_hdr E)) then CHR ''r'' else CHR ''-'',
     if CHECK_MASK (st_mode st) (AM_WR (le_hdr E)) then CHR ''w'' else CHR ''-'',
     if CHECK_MASK (st_mode st) (AM_EX (le_hdr E)) then CHR ''x'' else CHR ''-'']"
proof -
  have no_line: "link_name E file \<noteq> Some (Inl [Line l])"
    by (auto simp: link_name_def Let_def split: prod.splits if_splits)
  have tail: "take 4 ([a, b, c, d] @ xs) = [a, b, c, d]" for a b c d :: char and xs by simp
  from assms no_line show ?thesis
    by (auto simp: print_info_file_def Let_def attr_to_str_def numeral_eq_Suc split: if_splits sum.splits elim!: bind_SomeE)
qed

definition demo_hdr :: fs_hdr where
  "demo_hdr = \<lparr>AM_RD = 1, AM_WR = 2, AM_EX = 4, AM_SYM = 8, FILENAME_SIZE = 100, D_NAME_SIZE = 100\<rparr>"

definition demo_ls :: ls_env where
  "demo_ls = \<lparr>le_hdr = demo_hdr, le_stat = (\<lambda>f. Some \<lparr>st_mode = 5, st_size = 10, st_mtim = 0\<rparr>),
     le_localtime = (\<lambda>t. \<lparr>tm_year = 70, tm_mon = 0, tm_mday = 1, tm_hour = 0, tm_min = 0\<rparr>),
     le_open = (\<lambda>f. 3), le_read = (\<lambda>fd n. (1, ''t'')), le_close = (\<lambda>fd. 0),
     le_opendir = (\<lambda>d. if d = ''.'' then Some [(''a'', False), (''b'', True)] else None), le_closedir = (\<lambda>d. 0)\<rparr>"

lemma demo_line: "\<exists>l. print_info_file demo_ls ''a'' False True = Some [Line l]"
proof -
  have "scale 10 0 = (10, 0)" by (subst scale.simps) (simp add: KB_def)
  then show ?thesis
    by (simp add: print_info_file_def demo_ls_def demo_hdr_def Let_def CHECK_MASK_def human_readable_size_def prefixes_def)
qed

theorem long_line_modes_witness:
  "\<exists>l. print_info_file demo_ls ''a'' False True = Some [Line l] \<and> take 4 l = ''-r-x''"
proof -
  obtain l where l: "print_info_file demo_ls ''a'' False True = Some [Line l]" using demo_line by blast
  from long_line_modes[OF l, of "\<lparr>st_mode = 5, st_size = 10, st_mtim = 0\<rparr>"] l
  show ?thesis by (auto simp: demo_ls_def demo_hdr_def CHECK_MASK_def)
qed

lemma print_short: "print_entries E False ds = Some (map (\<lambda>(name, is_dir). Line (name @ slash is_dir)) ds)"
  by (induction ds) (auto simp: print_info_file_def)

text \<open>
  In the short form \<open>ls\<close> prints the entries of the directory it was given, or of \<open>.\<close>, in the order
  of the directory, with a slash after each subdirectory, and its result is 0 unless the directory cannot be
  opened or closed.
\<close>

theorem ls_lists_directory:
  assumes "argv = [prog] \<and> dir = ''.'' \<or> argv = [prog, dir] \<and> dir \<noteq> ''-l''" and "le_opendir E dir = Some ds" "0 \<le> le_closedir E dir"
  shows "ls_main E argv = Some (map (\<lambda>(name, is_dir). Line (name @ slash is_dir)) ds, 0)"
  using assms by (auto simp: ls_main_def ls_args_def print_short)

theorem ls_lists_directory_witness: "ls_main demo_ls [''ls''] = Some ([Line ''a'', Line ''b/''], 0)"
  using ls_lists_directory[of "[''ls'']" "''ls''" "''.''" demo_ls] by (simp add: demo_ls_def slash_def)

definition is_close :: "ln_event \<Rightarrow> bool" where "is_close e \<longleftrightarrow> (case e of CloseFd _ \<Rightarrow> True | _ \<Rightarrow> False)"

text \<open>
  \<open>ln\<close> closes the descriptor of its target exactly once when it got one, and no other, whether the link
  could be made or not.
\<close>

theorem ln_closes_target:
  "filter is_close (fst (ln_main E argv)) =
    (if length argv = 3 \<and> 0 \<le> ln_open E (argv ! 1) then [CloseFd (ln_open E (argv ! 1))] else [])"
  by (simp add: ln_main_def Let_def is_close_def)

end
