(* ===== verification/HostCount.thy ===== *)
theory HostCount
  imports CLib "HOL-Library.Monad_Syntax"
begin

text \<open>
  The process launcher of lab 2, \<open>usr/host/count_parallel.c\<close>: it starts \<open>n\<close> counting programs, one
  after the other or all at once.
\<close>

definition MAX_CHILDS :: nat where "MAX_CHILDS = 15"
definition ID_LENGTH :: nat where "ID_LENGTH = 1"
definition PARALLEL_MODE :: char where "PARALLEL_MODE = CHR ''p''"
definition SEQUENTIAL_MODE :: char where "SEQUENTIAL_MODE = CHR ''s''"

text \<open>
  What one process does. A result of \<open>None\<close> is a write past an array; \<open>Replaced\<close> is a process that goes
  on as another program.
\<close>

datatype par_event =
    ForkCall
  | ExeclCount string
  | WaitFor int
  | ForkFailedMsg
  | UsageMsg
  | ModeMsg
  | TooManyMsg

datatype par_outcome = ExitWith int | Replaced

text \<open>
  \<open>fork_result i\<close> is what the process gets from its fork in round \<open>i\<close>, so that a path with a 0 is the path
  of a child; \<open>exec_ok\<close> is whether \<open>count.elf\<close> can be executed. The counter is unsigned, the limit is converted.
\<close>

record par_env =
  fork_result :: "nat \<Rightarrow> int"
  exec_ok :: bool

function fork_loop :: "par_env \<Rightarrow> char \<Rightarrow> nat \<Rightarrow> nat \<Rightarrow> int list \<Rightarrow>
    (par_event list \<times> (par_outcome option) \<times> int list) option" where
  "fork_loop E mode n i pids =
     (if i < n then
        (if ID_LENGTH + 1 < length (show_nat i) + 1 \<or> MAX_CHILDS \<le> i then None
         else let pid = fork_result E i; pids' = pids[i := pid] in
           if pid = 0 \<and> exec_ok E then Some ([ForkCall, ExeclCount (show_nat i)], Some Replaced, pids')
           else if pid < 0 then Some ([ForkCall, ForkFailedMsg], Some (ExitWith 1), pids')
           else do {
             (es, out, pids'') \<leftarrow> fork_loop E mode n (i + 1) pids';
             Some ((ForkCall # (if pid = 0 then [ExeclCount (show_nat i)]
                      else if mode = SEQUENTIAL_MODE then [WaitFor pid] else [])) @ es, out, pids'') })
      else Some ([], None, pids))"
  by pat_completeness auto
termination by (relation "measure (\<lambda>(E, mode, n, i, pids). n - i)") auto

declare fork_loop.simps [simp del]

definition wait_all :: "nat \<Rightarrow> int list \<Rightarrow> par_event list" where
  "wait_all n pids = map WaitFor (filter (\<lambda>p. 0 < p) (take n pids))"

definition par_main :: "par_env \<Rightarrow> string list \<Rightarrow> (par_event list \<times> par_outcome) option" where
  "par_main E argv =
     (if length argv \<noteq> 3 then Some ([UsageMsg], ExitWith 1)
      else let n = atoi (argv ! 1); mode = (case argv ! 2 of [] \<Rightarrow> CHR 0x00 | c # _ \<Rightarrow> c) in
        if mode \<noteq> PARALLEL_MODE \<and> mode \<noteq> SEQUENTIAL_MODE then Some ([ModeMsg], ExitWith 1)
        else if n > int MAX_CHILDS then Some ([TooManyMsg], ExitWith 1)
        else do {
          let bound = nat (n mod 2 ^ 64);
          (es, out, pids) \<leftarrow> fork_loop E mode bound 0 (replicate MAX_CHILDS 0);
          case out of
            Some r \<Rightarrow> Some (es, r)
          | None \<Rightarrow> Some (es @ (if mode = PARALLEL_MODE then wait_all bound pids else []), ExitWith 0) })"

section \<open>Properties\<close>

lemma one_digit: "length (show_nat i) = 1 \<longleftrightarrow> i < 10"
proof
  assume "length (show_nat i) = 1"
  then show "i < 10" by (rule contrapos_pp) (subst show_nat.simps, simp)
next
  assume "i < 10"
  then show "length (show_nat i) = 1" by (subst show_nat.simps) simp
qed

lemma id_fits: "ID_LENGTH + 1 < length (show_nat i) + 1 \<longleftrightarrow> 10 \<le> i"
proof -
  have "0 < length (show_nat i)" by simp
  then show ?thesis using one_digit[of i] by (simp only: ID_LENGTH_def) linarith
qed

definition round_events :: "par_env \<Rightarrow> char \<Rightarrow> nat \<Rightarrow> par_event list" where
  "round_events E mode i = ForkCall # (if mode = SEQUENTIAL_MODE then [WaitFor (fork_result E i)] else [])"

lemma fork_loop_parent:
  assumes "\<And>i. 0 < fork_result E i" "i \<le> n" "length pids = MAX_CHILDS" "i \<le> 10"
  shows "fork_loop E mode n i pids =
    (if n \<le> 10 then Some (concat (map (round_events E mode) [i..<n]), None, fold (\<lambda>j ps. ps[j := fork_result E j]) [i..<n] pids)
     else None)"
  using assms
proof (induction "n - i" arbitrary: i pids)
  case 0
  then show ?case by (subst fork_loop.simps) simp
next
  case (Suc k)
  show ?case
  proof (cases "i = 10")
    case True
    then show ?thesis using Suc.hyps(2) id_fits[of 10] by (subst fork_loop.simps) (simp add: not_le)
  next
    case False
    then have small: "i < 10" "i < n" using Suc by simp_all
    have ih: "fork_loop E mode n (i + 1) (pids[i := fork_result E i]) =
        (if n \<le> 10 then Some (concat (map (round_events E mode) [i + 1..<n]), None,
           fold (\<lambda>j ps. ps[j := fork_result E j]) [i + 1..<n] (pids[i := fork_result E i])) else None)"
      by (rule Suc.hyps(1)) (use Suc small in simp_all)
    have step: "fork_loop E mode n i pids = do {
        (es, out, ps) \<leftarrow> fork_loop E mode n (i + 1) (pids[i := fork_result E i]);
        Some (round_events E mode i @ es, out, ps) }"
      using small Suc.prems(1)[of i] id_fits[of i]
      by (subst fork_loop.simps) (simp add: MAX_CHILDS_def round_events_def Let_def)
    show ?thesis unfolding step ih using small by (simp add: upt_conv_Cons)
  qed
qed

lemma pids_filled:
  assumes "n \<le> 15"
  shows "take n (fold (\<lambda>j ps. ps[j := f j]) [0..<n] (replicate 15 (0::int))) = map f [0..<n]"
  using assms
proof (induction n)
  case (Suc n)
  let ?ps = "fold (\<lambda>j ps. ps[j := f j]) [0..<n] (replicate 15 (0::int))"
  have len: "length (fold (\<lambda>j ps. ps[j := f j]) js ps) = length ps" for js and ps :: "int list"
    by (induction js arbitrary: ps) simp_all
  have "take (Suc n) (?ps[n := f n]) = take n ?ps @ [f n]"
    using Suc.prems len[of "[0..<n]" "replicate 15 0"] by (simp add: take_Suc_conv_app_nth)
  then show ?case using Suc by simp
qed simp

text \<open>
  With forks that succeed, the launcher does what its two modes say for up to ten programs: it waits
  for each before the next, or starts all and then waits for all in order. For eleven to fifteen,
  which it accepts, the number of a program no longer fits into \<open>id\<close>; a negative count is taken as a
  huge one and runs into the same.
\<close>

theorem par_main_modes:
  assumes "\<And>i. 0 < fork_result E i" "mode = PARALLEL_MODE \<or> mode = SEQUENTIAL_MODE" "- (2 ^ 63) \<le> n" "n \<le> 15"
  shows "par_main E [prog, show_int n, mode # rest] =
    (if 0 \<le> n \<and> n \<le> 10
     then Some (if mode = SEQUENTIAL_MODE then concat (map (\<lambda>i. [ForkCall, WaitFor (fork_result E i)]) [0..<nat n])
                else replicate (nat n) ForkCall @ map (\<lambda>i. WaitFor (fork_result E i)) [0..<nat n], ExitWith 0)
     else None)"
proof -
  let ?b = "nat (n mod 2 ^ 64)"
  have neq: "PARALLEL_MODE \<noteq> SEQUENTIAL_MODE" by (simp add: PARALLEL_MODE_def SEQUENTIAL_MODE_def)
  have at: "atoi (show_int n) = n" using atoi_show_int[of "[]" n] by simp
  have bound: "?b = nat n" if "0 \<le> n" using that assms(4) by simp
  have big: "10 < ?b" if "n < 0"
  proof -
    have "(n + 2 ^ 64) mod 2 ^ 64 = n + 2 ^ 64" by (rule mod_pos_pos_trivial) (use that assms(3) in simp_all)
    then have "n mod 2 ^ 64 = n + 2 ^ 64" by simp
    then show ?thesis using assms(3) by simp
  qed
  note loop = fork_loop_parent[OF assms(1), of 0 ?b "replicate MAX_CHILDS 0" mode, simplified]
  show ?thesis
  proof (cases "0 \<le> n \<and> n \<le> 10")
    case False
    then have "10 < ?b" using big bound by linarith
    then show ?thesis using False assms(2,4) at loop by (auto simp: par_main_def MAX_CHILDS_def)
  next
    case True
    then have b: "?b = nat n" "nat n \<le> 10" using bound by (simp, linarith)
    have pids: "take (nat n) (fold (\<lambda>j ps. ps[j := fork_result E j]) [0..<nat n] (replicate 15 0)) = map (fork_result E) [0..<nat n]"
      by (rule pids_filled) (use b(2) in simp)
    have forks: "concat (map (round_events E PARALLEL_MODE) [0..<k]) = replicate k ForkCall" for k
      using neq by (induction k) (simp_all add: round_events_def replicate_append_same)
    have waits: "round_events E SEQUENTIAL_MODE = (\<lambda>i. [ForkCall, WaitFor (fork_result E i)])"
      by (simp add: round_events_def fun_eq_iff)
    have pos: "filter (\<lambda>p. 0 < p) (map (fork_result E) xs) = map (fork_result E) xs" for xs
      using assms(1) by (induction xs) simp_all
    show ?thesis using True assms(2) at loop b neq
      by (auto simp: par_main_def MAX_CHILDS_def wait_all_def pids pos forks waits comp_def Let_def)
  qed
qed

theorem par_main_modes_witness:
  "par_main \<lparr>fork_result = (\<lambda>i. int i + 100), exec_ok = True\<rparr> [''p'', ''2'', ''s''] =
     Some ([ForkCall, WaitFor 100, ForkCall, WaitFor 101], ExitWith 0)"
proof -
  have s2: "show_int 2 = ''2''" by code_simp
  show ?thesis
    using par_main_modes[of "\<lparr>fork_result = (\<lambda>i. int i + 100), exec_ok = True\<rparr>" SEQUENTIAL_MODE 2 "''p''" "[]"]
    by (simp add: s2 SEQUENTIAL_MODE_def eval_nat_numeral)
qed

text \<open>
  A child that cannot execute the program stays in the loop and forks children of its own: with two
  programs asked for and none executable, the first child forks as well.
\<close>

theorem failed_exec_forks_on:
  "par_main \<lparr>fork_result = (\<lambda>i. if i = 0 then 0 else 7), exec_ok = False\<rparr> [''p'', ''2'', ''s''] =
     Some ([ForkCall, ExeclCount ''0'', ForkCall, WaitFor 7], ExitWith 0)"
  by code_simp

end
