(* ===== verification/Boot.thy ===== *)
theory Boot
  imports KRun "HOL-Library.Monad_Syntax"
begin

text \<open>
  The start of the kernel, \<open>l1-intro/so3/kernel/main.c\<close>, in the configuration with processes: from
  \<open>kernel_start\<close> to the creation of the root process of \<open>process.c\<close>.
\<close>

datatype boot_stage = BOOT_STAGE_INIT | BOOT_STAGE_IRQ_ENABLE | BOOT_STAGE_COMPLETED

text \<open>
  The subsystems it calls, which are not in the repository, and the two tables of hooks the linker
  collects. The trace has what was called, the boot stage then, and whether interrupts were off.
\<close>

record 'm boot_env =
  be_call :: "string \<Rightarrow> 'm kstate \<Rightarrow> 'm kstate"
  be_pre_irq_init :: "(string \<times> ('m kstate \<Rightarrow> 'm kstate)) list"
  be_postinit :: "(string \<times> ('m kstate \<Rightarrow> 'm kstate)) list"

record 'm boot =
  bt_kernel :: "'m kstate"
  bt_stage :: boot_stage
  bt_trace :: "(string \<times> boot_stage \<times> bool) list"

definition run :: "string \<Rightarrow> ('m kstate \<Rightarrow> 'm kstate) \<Rightarrow> 'm boot \<Rightarrow> 'm boot" where
  "run name f b = b\<lparr>bt_kernel := f (bt_kernel b),
     bt_trace := bt_trace b @ [(name, bt_stage b, k_irq_disabled (bt_kernel b))]\<rparr>"

definition run_hooks :: "(string \<times> ('m kstate \<Rightarrow> 'm kstate)) list \<Rightarrow> 'm boot \<Rightarrow> 'm boot" where
  "run_hooks hooks b = fold (\<lambda>(name, f). run name f) hooks b"

definition pre_irq_init :: "'m boot_env \<Rightarrow> 'm boot \<Rightarrow> 'm boot" where
  "pre_irq_init B b = run_hooks (be_pre_irq_init B) b"

definition post_init :: "'m boot_env \<Rightarrow> 'm boot \<Rightarrow> 'm boot" where
  "post_init B b = run_hooks (be_postinit B) b"

text \<open>\<open>rest_init\<close> ends in \<open>create_root_process\<close>, which does not return to it.\<close>

definition rest_init :: "'m boot_env \<Rightarrow> 'm kenv \<Rightarrow> 'm boot \<Rightarrow> 'm boot option" where
  "rest_init B E b = do {
     let b1 = post_init B b;
     t \<leftarrow> create_root_process E (bt_kernel b1);
     Some (b1\<lparr>bt_kernel := t\<rparr>) }"

definition subsystem :: "'m boot_env \<Rightarrow> string \<Rightarrow> 'm boot \<Rightarrow> 'm boot" where
  "subsystem B name = run name (be_call B name)"

definition local_irq_enable :: "'m boot \<Rightarrow> 'm boot" where
  "local_irq_enable b = b\<lparr>bt_kernel := (bt_kernel b)\<lparr>k_irq_disabled := False\<rparr>\<rparr>"

text \<open>
  \<open>kernel_start\<close>: the subsystems in order, then the thread that runs \<open>rest_init\<close>, which \<open>schedule\<close>
  gives the processor to.
\<close>

definition kernel_start :: "'m boot_env \<Rightarrow> 'm kenv \<Rightarrow> 'm boot \<Rightarrow> 'm boot option" where
  "kernel_start B E b =
     (let b1 = fold (subsystem B) [''setup_arch'', ''memory_init'', ''devices_init'', ''timer_init'', ''vfs_init'', ''scheduler_init''] b;
          b2 = (pre_irq_init B b1)\<lparr>bt_stage := BOOT_STAGE_IRQ_ENABLE\<rparr>;
          b3 = subsystem B ''calibrate_delay'' (local_irq_enable b2);
          b4 = (subsystem B ''kernel_thread'' b3)\<lparr>bt_stage := BOOT_STAGE_COMPLETED\<rparr>
      in rest_init B E (subsystem B ''schedule'' b4))"

section \<open>From boot to the first process\<close>

text \<open>What the subsystems and hooks are relied on for: they leave the process table and the interrupt flag alone.\<close>

definition keeps :: "('m kstate \<Rightarrow> 'm kstate) \<Rightarrow> bool" where
  "keeps f \<longleftrightarrow> (\<forall>s. k_procs (f s) = k_procs s \<and> k_pid_current (f s) = k_pid_current s \<and> k_irq_disabled (f s) = k_irq_disabled s)"

definition boot_ok :: "'m boot_env \<Rightarrow> bool" where
  "boot_ok B \<longleftrightarrow> (\<forall>name. keeps (be_call B name)) \<and> list_all (\<lambda>(_, f). keeps f) (be_pre_irq_init B) \<and>
     list_all (\<lambda>(_, f). keeps f) (be_postinit B)"

definition fresh_boot :: "'m boot \<Rightarrow> bool" where
  "fresh_boot b \<longleftrightarrow> k_procs (bt_kernel b) = [] \<and> k_pid_current (bt_kernel b) = 1"

lemma run_keeps:
  assumes "keeps f"
  shows "fresh_boot (run name f b) = fresh_boot b" "bt_stage (run name f b) = bt_stage b"
    "k_irq_disabled (bt_kernel (run name f b)) = k_irq_disabled (bt_kernel b)"
    "bt_trace (run name f b) = bt_trace b @ [(name, bt_stage b, k_irq_disabled (bt_kernel b))]"
  using assms by (simp_all add: run_def keeps_def fresh_boot_def)

lemma hooks_keep:
  assumes "list_all (\<lambda>(_, f). keeps f) hooks"
  shows "fresh_boot (run_hooks hooks b) = fresh_boot b \<and> bt_stage (run_hooks hooks b) = bt_stage b \<and>
    k_irq_disabled (bt_kernel (run_hooks hooks b)) = k_irq_disabled (bt_kernel b) \<and>
    bt_trace (run_hooks hooks b) = bt_trace b @ map (\<lambda>(name, _). (name, bt_stage b, k_irq_disabled (bt_kernel b))) hooks"
  using assms
proof (induction hooks arbitrary: b)
  case (Cons h hooks)
  obtain name f where h: "h = (name, f)" by (cases h)
  then have k: "keeps f" "list_all (\<lambda>(_, f). keeps f) hooks" using Cons.prems by auto
  show ?case using Cons.IH[OF k(2), of "run name f b"] run_keeps[OF k(1)] by (simp add: h run_hooks_def)
qed (simp add: run_hooks_def)

lemma subsystem_keeps:
  assumes "boot_ok B"
  shows "fresh_boot (subsystem B name b) = fresh_boot b" "bt_stage (subsystem B name b) = bt_stage b"
    "k_irq_disabled (bt_kernel (subsystem B name b)) = k_irq_disabled (bt_kernel b)"
    "bt_trace (subsystem B name b) = bt_trace b @ [(name, bt_stage b, k_irq_disabled (bt_kernel b))]"
  using run_keeps[of "be_call B name"] assms by (simp_all add: boot_ok_def subsystem_def)

lemma boot_updates [simp]:
  "fresh_boot (b\<lparr>bt_stage := st\<rparr>) = fresh_boot b" "fresh_boot (local_irq_enable b) = fresh_boot b"
  "bt_stage (local_irq_enable b) = bt_stage b" "\<not> k_irq_disabled (bt_kernel (local_irq_enable b))"
  "bt_trace (local_irq_enable b) = bt_trace b"
  by (simp_all add: fresh_boot_def local_irq_enable_def)

definition early :: "string list" where
  "early = [''setup_arch'', ''memory_init'', ''devices_init'', ''timer_init'', ''vfs_init'', ''scheduler_init'']"

text \<open>
  C33. From a machine with interrupts off and no process, the boot makes each subsystem and then every
  pre-IRQ hook run once, in order, in the initial stage with interrupts still off; the delay is calibrated
  and the post-init hooks run with interrupts on; and when the boot ends, the kernel is in a reachable
  state whose only process is the root, with pid 1.
\<close>

theorem boot_reaches_root:
  assumes "boot_ok B" "kenv_ok E" "fresh_boot b" "bt_stage b = BOOT_STAGE_INIT" "bt_trace b = []" "k_irq_disabled (bt_kernel b)"
    and "kernel_start B E b = Some t"
  shows "kreachable E (bt_kernel t) \<and> map (fst \<circ> snd) (skel (bt_kernel t)) = [1] \<and>
    bt_trace t = map (\<lambda>n. (n, BOOT_STAGE_INIT, True)) (early @ map fst (be_pre_irq_init B)) @
      [(''calibrate_delay'', BOOT_STAGE_IRQ_ENABLE, False), (''kernel_thread'', BOOT_STAGE_IRQ_ENABLE, False),
       (''schedule'', BOOT_STAGE_COMPLETED, False)] @
      map (\<lambda>n. (n, BOOT_STAGE_COMPLETED, False)) (map fst (be_postinit B))"
proof -
  let ?b1 = "fold (subsystem B) early b"
  let ?b2 = "(pre_irq_init B ?b1)\<lparr>bt_stage := BOOT_STAGE_IRQ_ENABLE\<rparr>"
  let ?b3 = "subsystem B ''calibrate_delay'' (local_irq_enable ?b2)"
  let ?b4 = "(subsystem B ''kernel_thread'' ?b3)\<lparr>bt_stage := BOOT_STAGE_COMPLETED\<rparr>"
  let ?b5 = "subsystem B ''schedule'' ?b4"
  note sub = subsystem_keeps[OF assms(1)]
  have ok: "list_all (\<lambda>(_, f). keeps f) (be_pre_irq_init B)" "list_all (\<lambda>(_, f). keeps f) (be_postinit B)"
    using assms(1) by (simp_all add: boot_ok_def)
  have names: "map (\<lambda>(name, _). (name, st, i)) hooks = map (\<lambda>n. (n, st, i)) (map fst hooks)"
    for st :: boot_stage and i :: bool and hooks :: "(string \<times> ('a kstate \<Rightarrow> 'a kstate)) list"
    by (simp add: case_prod_unfold)
  have b1: "fresh_boot ?b1" "bt_stage ?b1 = BOOT_STAGE_INIT" "k_irq_disabled (bt_kernel ?b1)"
    "bt_trace ?b1 = map (\<lambda>n. (n, BOOT_STAGE_INIT, True)) early"
    using assms(3-6) by (simp_all add: early_def sub)
  have b2: "fresh_boot ?b2" "bt_stage ?b2 = BOOT_STAGE_IRQ_ENABLE"
    "bt_trace ?b2 = map (\<lambda>n. (n, BOOT_STAGE_INIT, True)) (early @ map fst (be_pre_irq_init B))"
    using hooks_keep[OF ok(1), of ?b1] b1 by (simp_all add: pre_irq_init_def names)
  have b5: "fresh_boot ?b5" "bt_stage ?b5 = BOOT_STAGE_COMPLETED" "\<not> k_irq_disabled (bt_kernel ?b5)"
    "bt_trace ?b5 = bt_trace ?b2 @ [(''calibrate_delay'', BOOT_STAGE_IRQ_ENABLE, False),
       (''kernel_thread'', BOOT_STAGE_IRQ_ENABLE, False), (''schedule'', BOOT_STAGE_COMPLETED, False)]"
    using b2 by (simp_all add: sub)
  from assms(7) have "rest_init B E ?b5 = Some t" by (simp add: kernel_start_def early_def Let_def)
  then obtain k where k: "create_root_process E (bt_kernel (post_init B ?b5)) = Some k" "t = (post_init B ?b5)\<lparr>bt_kernel := k\<rparr>"
    by (auto simp: rest_init_def Let_def elim!: bind_SomeE)
  have fresh: "fresh_boot (post_init B ?b5)" using hooks_keep[OF ok(2), of ?b5] b5(1) by (simp add: post_init_def)
  have "kreachable E k" by (rule kreachable.boot[OF _ _ k(1)]) (use fresh in \<open>simp_all add: fresh_boot_def\<close>)
  moreover have "map (fst \<circ> snd) (skel k) = [1]"
    using create_root_effect[OF k(1) assms(2)] fresh by (auto simp: fresh_boot_def)
  moreover have "bt_trace t = bt_trace ?b5 @ map (\<lambda>n. (n, BOOT_STAGE_COMPLETED, False)) (map fst (be_postinit B))"
    using hooks_keep[OF ok(2), of ?b5] b5(2,3) k(2) by (simp add: post_init_def names)
  ultimately show ?thesis using k(2) b5(4) b2(3) by simp
qed

definition sim_boot_env :: "sim_mm boot_env" where
  "sim_boot_env = \<lparr>be_call = (\<lambda>name s. s), be_pre_irq_init = [(''hook'', \<lambda>s. s)], be_postinit = []\<rparr>"

theorem boot_reaches_root_witness:
  "\<exists>t. kernel_start sim_boot_env sim_env \<lparr>bt_kernel = sim_boot\<lparr>k_irq_disabled := True\<rparr>, bt_stage = BOOT_STAGE_INIT, bt_trace = []\<rparr> = Some t \<and>
     map (fst \<circ> snd) (skel (bt_kernel t)) = [1]"
proof -
  let ?b = "\<lparr>bt_kernel = sim_boot\<lparr>k_irq_disabled := True\<rparr>, bt_stage = BOOT_STAGE_INIT, bt_trace = []\<rparr>"
  have root: "create_root_process sim_env (sim_boot\<lparr>k_irq_disabled := False\<rparr>) = Some sim_root"
    using sim_root_boot by (simp add: sim_boot_def)
  have ok: "boot_ok sim_boot_env" by (simp add: boot_ok_def sim_boot_env_def keeps_def)
  obtain t where t: "kernel_start sim_boot_env sim_env ?b = Some t"
    using root by (simp add: kernel_start_def rest_init_def post_init_def pre_irq_init_def run_hooks_def subsystem_def run_def
        local_irq_enable_def sim_boot_env_def Let_def)
  from boot_reaches_root[OF ok sim_env_ok _ _ _ _ t] t show ?thesis
    by (auto simp: fresh_boot_def sim_boot_def)
qed

end
