(* ===== verification/Spec2Isabelle.thy ===== *)
theory Spec2Isabelle
  imports KProps ExecProps Memsim MemReplace LetterCount TicTacToe Mmu AddressSpace ForkMemory ImageMemory ExecMemory TttMain Demos Shell Syscalls Sockets Timer Files Ipc HostCount Boot
begin

text \<open>
  A verification development for the lab sources of the operating systems course: parts of the
  SO3 kernel (32-bit ARM) and the programs that run on it. Each theory translates the C code it names,
  function by function under the function's own name, and proves what the code is for.

  \<^bold>\<open>The program.\<close> Main.c starts the kernel and creates the root process. Process.c keeps the table of
  processes, which programs use through the system calls (fork, execve, waitpid, exit, sbrk, renice, and the
  page and descriptor lists behind them); fork and execve use mmu.c to build, copy and drop page tables. The
  C library reaches these calls through the stubs of crt0.S and the numbers of syscall.h, and syscalls.c
  dispatches them. Sp804.c drives the timer. The other files are programs: a shell, a game of two processes, a
  counter with threads, a client and a server, simulators of a paged memory and of page replacement, ls and ln.

  \<^bold>\<open>Theories.\<close> Sources are named without the lab they come from where only one lab has them.

  \<^item> Prelude, CLib: integers, addresses, fact collections; characters, \<open>%d\<close>, \<open>atoi\<close>, \<open>fgets\<close>.
  \<^item> KProc (kernel/process.c and include/process.h): the PCB as the record \<open>pcb\<close>, the kernel as \<open>kstate\<close> (the
    list of processes by address, the page descriptors, the pid counter, the interrupt flag, the log), the searches
    over the list, creation and removal, the descriptor table, the page lists. What process.c calls outside the
    repository is the record \<open>kenv\<close>, a parameter of every function.
  \<^item> KSys (process.c): the root process, fork, exit, waitpid, sbrk, renice, ptrace, the dumps.
  \<^item> ArgsPage and Exec (process.c): \<open>preserve_args_and_env\<close>, \<open>post_setup_image\<close>, \<open>setup_proc_image_replace\<close>,
    \<open>load_process\<close>, \<open>do_execve\<close>. The parsed ELF file is a parameter (elf.c is not in the repository).
  \<^item> KRun: runs of the kernel as a step relation over these calls, with the invariant of the process
    table and the forest of parents; KProps and ExecProps: the properties of the single calls.
  \<^item> Mmu (arch/arm32/mmu.c): page tables as words of a memory, the content of physical frames, mapping,
    unmapping, root tables, translation; AddressSpace: \<open>duplicate_user_space\<close>, the copy of a user space at fork.
    ForkMemory: KSys with Mmu in the place of the memory manager that \<open>kenv\<close> leaves open (\<open>with_mmu\<close>), for what a
    fork does to the memory of parent and child. ImageMemory: the address space that execve builds on the same page tables
    (\<open>new_image\<close>), and the loader with its stores through them; ExecMemory: \<open>do_execve\<close> on them as a whole.
  \<^item> Syscalls (kernel/syscalls.c, both syscall.h, crt0.S): the stubs, the numbers and the dispatcher, with the
    process calls composed from KSys and Exec.
  \<^item> Boot (kernel/main.c): from \<open>kernel_start\<close> to the root process of KSys.
  \<^item> Timer (devices/timer/sp804.c): the periodic timer and the clock source over device registers.
  \<^item> Shell (sh.c): parsing, and what each process of a command line asks of the system.
  \<^item> TicTacToe (tictactoe_gm.c, tictactoe_player.c): the manager's search and its loop over the turns, the
    player's input and its loop over the commands. Ipc (tictactoe_ipc.c): the pipes of the game, as channels on the pipes of the
    system. TttMain: both programs from their \<open>main\<close>, with the pipes, fork and execl between them.
  \<^item> LetterCount (threads.c): threads interleaved by a schedule.
  \<^item> Sockets (socket_client.c, socket_server.c, socket_sye.h): client, server and signals as a step relation.
  \<^item> Memsim (memsim.c), MemReplace (memreplace.c): the paged memory, and LRU and WSClock replacement.
  \<^item> Files (ls.c, ln.c), HostCount (usr/host/count_parallel.c), Demos (hello.c, memory.c).

  \<^bold>\<open>How the code is modelled.\<close> A struct is a record, an enum a datatype, an unsigned or address value a word of its
  width; a signed value is an \<open>int\<close>, with the range stated where it matters, or the wrap-around written out (the counter of the
  server). Operations take the state and return it
  updated. The result \<open>None\<close> stands for not going on: a \<open>BUG_ON\<close>, an \<open>ASSERT\<close>, a kernel panic, a
  read through a pointer to nothing, a write past an array (the page of the arguments of execve is a block of its size). Error returns of the code are values. What a program prints or asks of a
  front end is a list of events. Processes and threads that run together are step relations or schedules, one
  step being what the code does between two points at which another can run.

  \<^bold>\<open>Parameters.\<close> Code that is not in the repository is an argument: \<open>kenv\<close> (allocators, page tables, threads,
  files), \<open>xenv\<close> (ELF reader, kernel heap), \<open>mmu_env\<close> (the macros of asm/mmu.h, the heap, the frames), \<open>boot_env\<close>,
  \<open>tc_env\<close>, \<open>sh_env\<close>, \<open>sock_env\<close>, \<open>ls_env\<close>, \<open>tmr_env\<close>, \<open>ttt_hdr\<close> (tictactoe.h), \<open>gm_sys\<close>, \<open>pipe_env\<close>, the handlers of
  Syscalls that other files serve. Theorems name what they need of it as hypotheses: \<open>arm_format\<close> (the layout of the
  short descriptors of ARM), \<open>heap_laws\<close> (blocks and frames that an allocator gives are apart from those in use), \<open>room\<close> (there
  are enough of them for a copy), \<open>pipe_laws\<close> (a pipe is a queue of commands), \<open>threads_quiet\<close> and \<open>thread_laws\<close> (making a
  thread touches neither tables nor user memory, nor the other threads), \<open>stock\<close> (the heap has enough for a new
  image), \<open>free_laws\<close> (freeing touches nothing else), \<open>loader_laws\<close> (neither do the ELF reader, the kernel heap
  and the caches), \<open>hdr_ok\<close> (a grid of nine cells, an empty cell of 0, two
  players). A witness beside each theorem shows them met by a concrete instance.

  \<^bold>\<open>Groups of lemmas.\<close>

  \<^item> The kernel: every reachable process table is well formed and a forest (\<open>process_table_well_formed\<close>, over the steps of
    KRun, each call through the locale \<open>table_preserving\<close>); each call does what it documents on every
    branch, errors included; page reference counts stay exact; the arguments of execve arrive when they fit a page, and
    overrun it otherwise.
  \<^item> Page tables: each operation refines the address map that \<open>translate\<close> reads off the tables (locale
    \<open>page_map\<close>); a fork returns, gives the child the bytes of the parent in frames of its own, and what one writes afterwards
    the other does not see; the same for \<open>do_fork\<close> of process.c as a whole. After an execve exactly the pages of
    the new image are mapped, each to a frame of its own, and the loader's stores through the tables have the effect of
    \<open>load_process\<close> on a flat memory (locale \<open>user_memory\<close>, which ImageMemory interprets on \<open>store_byte\<close> and \<open>translate\<close>).
  \<^item> The way into the kernel: the two tables of numbers, the stubs and the switch agree case by case, and the cases
    without agreement are listed.
  \<^item> Programs: the game stays within the rules, stops at the first full board or line that the code counts, ends, and the two
    processes agree over their pipes; the letter counts are
    right under every schedule; replies arrive in order under every interleaving, as far as the server can count, and an interrupt ends
    both sides; ls shows sizes to six digits; the
    simulators keep their invariants, read what was written (locale \<open>byte_memory\<close>) and evict the page their
    algorithm names (locale \<open>replacement\<close>); the shell runs the words typed.

  \<^bold>\<open>Loops and bounds.\<close> Loops over lists and counters are structural. The mapping loops of mmu.c stop when an address meets
  another exactly, so they are partial functions with \<open>None\<close> for a run without end, and theorems prove that they
  return, for ranges of fewer than 256 pages within one megabyte: more than the fixed mapping and the single pages of
  the process calls need. The search of the game is bounded by its depth, the loops of the game by the replies the
  player is given; the loops of the two mains are partial functions, with theorems that they return. Client
  and server run for ever by design: the liveness theorem bounds the steps from an interrupt to both ends by nine, for any
  interleaving. Runs of the kernel stop forking before pids wrap, as the comment on \<open>pid_current\<close> asks.

  \<^bold>\<open>Not modelled.\<close> The ELF reader and everything else that the sources only call (\<open>kenv\<close> and the other
  parameters). Of mmu.c the accessors of the coprocessor registers, which are assembler. Of the PCB the slots of the user stack,
  the mutexes, the completion and the signal fields, which process.c only initialises. Of crt0.S and syscall.h the
  64-bit stubs, the start-up code and the prototypes. Of sp804.c the parts under \<open>#if 0\<close>. Of memreplace.c the SIGINT
  handler, which leaves the program. Of main.c \<open>hidden_init\<close>, which nothing calls. Of the sockets that a stream may hand out the 80 bytes of a write in
  pieces. Of \<open>%g\<close> the numbers that ls never shows. Process.c is modelled from lab 5; the lab 2 copy is
  the same without \<open>do_renice\<close> and with a line of log in \<open>do_fork2\<close>, which is modelled from there. The lab 2 usr/src/count_parallel.c
  is an empty \<open>main\<close>, and version.h a string. Caches, the TLB and barriers have no counterpart, nor have the priorities that
  \<open>renice\<close> sets: the scheduler is not in the repository.

  \<^bold>\<open>Next.\<close> The pages of a forked child as reference counts of frames, runs of fork, execve and exit over \<open>with_mmu\<close>, mappings
  that cross a megabyte in one call.
\<close>

end
